(* ===== verification/Prelude.thy ===== *)
theory Prelude
  imports Main "HOL-Library.Word"
begin

text \<open>
  Shared vocabulary of the development: the machine integer types of the C code, the byte
  order conversions of \<open>arpa/inet.h\<close> on the little-endian host the code is written for,
  the result type of operations that can abort the process, and lemmas on lists and words
  that several components use.
\<close>

unbundle bit_operations_syntax

subsection \<open>Machine integers\<close>

type_synonym u8 = "8 word"
type_synonym u16 = "16 word"
type_synonym u32 = "32 word"
type_synonym u64 = "64 word"

named_theorems word_nat \<open>unsigned values of word expressions\<close>
named_theorems step_defs \<open>definitions of the operations of a component\<close>

text \<open>\<open>ntohs\<close>, \<open>htons\<close>, \<open>ntohl\<close> and \<open>htonl\<close> swap bytes on a little-endian host.\<close>

definition htons :: "u16 \<Rightarrow> u16" where
  "htons w = push_bit 8 w OR drop_bit 8 w"

definition htonl :: "u32 \<Rightarrow> u32" where
  "htonl w = push_bit 24 (take_bit 8 w) OR push_bit 16 (take_bit 8 (drop_bit 8 w)) OR
             push_bit 8 (take_bit 8 (drop_bit 16 w)) OR drop_bit 24 w"

definition ntohs :: "u16 \<Rightarrow> u16" where
  "ntohs w = htons w"

definition ntohl :: "u32 \<Rightarrow> u32" where
  "ntohl w = htonl w"

lemma htons_htons [simp]: "htons (htons w) = w"
  by (rule bit_word_eqI) (auto simp: htons_def bit_simps)

lemma htonl_htonl [simp]: "htonl (htonl w) = w"
proof (rule bit_word_eqI)
  fix n assume "n < LENGTH(32)"
  then have n: "n < 32" by simp
  then consider "n < 8" | m where "n = 8 + m" "m < 8" | m where "n = 16 + m" "m < 8"
    | m where "n = 24 + m" "m < 8"
    using le_Suc_ex [of 8 n] le_Suc_ex [of 16 n] le_Suc_ex [of 24 n] by fastforce
  then show "bit (htonl (htonl w)) n = bit w n"
    by cases (simp_all add: htonl_def bit_simps)
qed

lemma ntohs_htons [simp]: "ntohs (htons w) = w" "htons (ntohs w) = w"
  by (simp_all add: ntohs_def)

lemma ntohl_htonl [simp]: "ntohl (htonl w) = w" "htonl (ntohl w) = w"
  by (simp_all add: ntohl_def)

subsection \<open>Operations that can abort\<close>

text \<open>
  An \<open>assert\<close> that fails, an \<open>exit\<close>, a division by zero and the dereference of a null
  pointer end the process; a shift by the width of its operand or more, an access outside an
  array and the use of a variable that was never assigned are undefined, and removing a node from a linked list it is not in damages the lists.
  The model gives all of them as the left side of a sum, and so a call of a loop that is given
  fuel and uses it up (\<open>NoReturn\<close>).
\<close>

datatype abort = AssertFailed | ProcessExit | DivByZero | NullDeref | OutOfBounds | BadShift | ListCorrupt |
  Uninitialised | NoReturn

type_synonym 'a res = "abort + 'a"

fun andThen :: "'a res \<Rightarrow> ('a \<Rightarrow> 'b res) \<Rightarrow> 'b res" where
  "andThen (Inl e) f = Inl e"
| "andThen (Inr x) f = f x"

fun with_fuel :: "'a res option \<Rightarrow> 'a res" where
  "with_fuel None = Inl NoReturn"
| "with_fuel (Some r) = r"

lemma with_fuel_Inr: "with_fuel r = Inr x \<longleftrightarrow> r = Some (Inr x)"
  by (cases r) auto

lemma andThen_Inr_iff: "andThen r f = Inr y \<longleftrightarrow> (\<exists>x. r = Inr x \<and> f x = Inr y)"
  by (cases r) auto

lemma andThen_Inl_iff: "andThen r f = Inl e \<longleftrightarrow> r = Inl e \<or> (\<exists>x. r = Inr x \<and> f x = Inl e)"
  by (cases r) auto

lemma andThen_InrE:
  assumes "andThen r f = Inr y"
  obtains x where "r = Inr x" "f x = Inr y"
  using assms by (cases r) auto

definition c_assert :: "bool \<Rightarrow> 'a \<Rightarrow> 'a res" where
  "c_assert b x = (if b then Inr x else Inl AssertFailed)"

lemma c_assert_Inr [simp]: "c_assert b x = Inr y \<longleftrightarrow> b \<and> y = x"
  by (auto simp: c_assert_def)

text \<open>Left shift and division of 32-bit values.\<close>

definition c_shl :: "u32 \<Rightarrow> nat \<Rightarrow> u32 res" where
  "c_shl x n = (if n < 32 then Inr (push_bit n x) else Inl BadShift)"

definition c_div :: "u32 \<Rightarrow> u32 \<Rightarrow> u32 res" where
  "c_div x y = (if y = 0 then Inl DivByZero else Inr (x div y))"

lemma c_shl_Inr [simp]: "c_shl x n = Inr y \<longleftrightarrow> n < 32 \<and> y = push_bit n x"
  by (auto simp: c_shl_def)

lemma c_div_Inr [simp]: "c_div x y = Inr z \<longleftrightarrow> y \<noteq> 0 \<and> z = x div y"
  by (auto simp: c_div_def)

subsection \<open>Word arithmetic\<close>

lemma unat_add_eq [word_nat]: "unat (a + b :: 'a::len word) = (unat a + unat b) mod 2 ^ LENGTH('a)"
  by (rule unat_word_ariths(1))

lemma unat_sub_eq [word_nat]:
  "unat (a - b :: 'a::len word) =
     (if unat b \<le> unat a then unat a - unat b else 2 ^ LENGTH('a) + unat a - unat b)"
  using unat_sub_if' [of a b] by (simp add: add.commute)

lemma unat_ucast_u32_u64 [simp]: "unat (ucast (w :: u32) :: u64) = unat w"
  by (simp add: unsigned_ucast_eq take_bit_eq_mod) (use unsigned_less [where ?'a = nat, of w] in simp)

lemma unat_ucast_u64_u32: "unat (ucast (w :: u64) :: u32) = unat w mod 2 ^ 32"
  by (simp add: unsigned_ucast_eq take_bit_eq_mod)

lemma ucast_add_u64_u32: "ucast (a + b :: u64) = (ucast a + ucast b :: u32)"
  by (simp add: word_unat_eq_iff unat_ucast_u64_u32 unat_add_eq mod_mod_cancel mod_add_eq)

lemma unat_u32_less: "unat (w :: u32) < 4294967296"
  using unsigned_less [where ?'a = nat, of w] by simp

lemma unat_u64_less: "unat (w :: u64) < 18446744073709551616"
  using unsigned_less [where ?'a = nat, of w] by simp

lemma unat_add_no_wrap: "unat a + unat b < 2 ^ LENGTH('a) \<Longrightarrow> unat (a + b :: 'a::len word) = unat a + unat b"
  by (simp add: unat_add_eq)

lemma unat_sub_no_wrap: "unat b \<le> unat a \<Longrightarrow> unat (a - b :: 'a::len word) = unat a - unat b"
  by (simp add: unat_sub_eq)

lemma unat_mono_le_aux: "(a :: 'a::len word) \<le> b \<longleftrightarrow> unat a \<le> unat b"
  by (rule word_le_nat_alt)

lemma unat_min: "unat (min a b) = min (unat a) (unat b)"
  by (simp add: min_def unat_mono_le_aux)

lemma unat_mono_le: "(a :: 'a::len word) \<le> b \<longleftrightarrow> unat a \<le> unat b"
  by (rule word_le_nat_alt)

lemma unat_mono_less: "(a :: 'a::len word) < b \<longleftrightarrow> unat a < unat b"
  by (rule word_less_nat_alt)

lemma sint_small:
  assumes "unat (w :: u32) < 2 ^ 31"
  shows "sint w = int (unat w)"
proof -
  have u: "uint w = int (unat w)" by simp
  have "int (unat w) < 2 ^ 31" using assms by (metis of_nat_less_iff of_nat_numeral of_nat_power)
  moreover have "- (2 ^ 31) \<le> int (unat w)" by (rule order_trans [OF _ of_nat_0_le_iff]) simp
  ultimately have "signed_take_bit 31 (int (unat w)) = int (unat w)"
    by (rule signed_take_bit_int_eq_self [rotated])
  then show ?thesis unfolding sint_uint u by simp
qed

subsection \<open>Lists\<close>

lemma remove1_snoc_notin: "x \<notin> set xs \<Longrightarrow> remove1 x (xs @ [x]) = xs"
  by (simp add: remove1_append)

lemma distinct_remove1_set: "distinct xs \<Longrightarrow> y \<in> set (remove1 x xs) \<longleftrightarrow> y \<noteq> x \<and> y \<in> set xs"
  by auto

end
