(* ===== verification/Checksum.thy ===== *)
theory Checksum
  imports Prelude
begin

text \<open>
  The Internet checksums: \<open>cmt_tcp_calculate_checksum\<close> and its copy
  \<open>cmt_calculate_chksum\<close> of \<open>src/tcp.c\<close>, and \<open>ICMP_check_sum\<close> of
  \<open>src/icmp.c\<close>. The lemmas compute the fold of the 32-bit sum as the remainder modulo
  65535, from which the checksum of a segment that carries its own checksum is zero.
\<close>

subsection \<open>Definitions\<close>

definition word_le :: "u8 \<Rightarrow> u8 \<Rightarrow> u32" where
  "word_le lo hi = ucast lo + 256 * ucast hi"

text \<open>
  The loop over the 16-bit words of a list of bytes; a last byte alone is added in a word whose
  other byte is \<open>junk\<close>, as the ICMP code does with a variable of which one byte is not set.
\<close>

fun sum_words :: "u8 \<Rightarrow> u32 \<Rightarrow> u8 list \<Rightarrow> u32" where
  "sum_words junk acc (lo # hi # rest) = sum_words junk (acc + word_le lo hi) rest"
| "sum_words junk acc [b] = acc + word_le b junk"
| "sum_words junk acc [] = acc"

definition fold_sum :: "u32 \<Rightarrow> u16" where
  "fold_sum acc =
     (let acc = drop_bit 16 acc + (acc AND 0xFFFF);
          acc = acc + drop_bit 16 acc
      in ucast (NOT acc))"

text \<open>\<open>proto\<close> is the constant \<open>PROTO_TCP\<close>, which the repository does not define.\<close>

definition pseudo_sum :: "u16 \<Rightarrow> u16 \<Rightarrow> u32 \<Rightarrow> u32 \<Rightarrow> u32" where
  "pseudo_sum proto len saddr daddr =
     ((saddr AND 0xFFFF) + drop_bit 16 saddr) + ((daddr AND 0xFFFF) + drop_bit 16 daddr) +
     ucast (htons len) + ucast (htons proto)"

text \<open>
  For an odd length the TCP code loads the word that begins with the last byte, and so the byte
  behind the buffer, and masks it: \<open>ntohs(0xFF00)\<close> keeps the first byte in memory.
\<close>

definition odd_word :: "u8 list \<Rightarrow> nat \<Rightarrow> u32" where
  "odd_word buf n = (if even n then 0 else word_le (buf ! (n - 1)) (buf ! n) AND ucast (ntohs 0xFF00))"

definition sum_buf :: "u8 list \<Rightarrow> nat \<Rightarrow> u32" where
  "sum_buf buf n = sum_words 0 0 (take (n - n mod 2) buf) + odd_word buf n"

definition cmt_tcp_calculate_checksum :: "u16 \<Rightarrow> u8 list \<Rightarrow> u16 \<Rightarrow> u32 \<Rightarrow> u32 \<Rightarrow> u16 res" where
  "cmt_tcp_calculate_checksum proto buf len saddr daddr =
     (if unat len + unat len mod 2 \<le> length buf
      then Inr (fold_sum (sum_buf buf (unat len) + pseudo_sum proto len saddr daddr))
      else Inl OutOfBounds)"

definition cmt_calculate_chksum :: "u16 \<Rightarrow> u8 list \<Rightarrow> u16 \<Rightarrow> u32 \<Rightarrow> u32 \<Rightarrow> u16 res" where
  "cmt_calculate_chksum proto buf len saddr daddr =
     (if unat len + unat len mod 2 \<le> length buf
      then Inr (fold_sum (sum_buf buf (unat len) + pseudo_sum proto len saddr daddr))
      else Inl OutOfBounds)"

definition ICMP_check_sum :: "u8 \<Rightarrow> u8 list \<Rightarrow> int \<Rightarrow> u16 res" where
  "ICMP_check_sum junk icmph len =
     (if len < 0 then Inl AssertFailed
      else if nat len \<le> length icmph then Inr (fold_sum (sum_words junk 0 (take (nat len) icmph)))
      else Inl OutOfBounds)"

subsection \<open>The sum as a natural number\<close>

fun sum_nat :: "u8 \<Rightarrow> u8 list \<Rightarrow> nat" where
  "sum_nat junk (lo # hi # rest) = unat lo + 256 * unat hi + sum_nat junk rest"
| "sum_nat junk [b] = unat b + 256 * unat junk"
| "sum_nat junk [] = 0"

lemma unat_u8_less: "unat (b :: u8) < 256"
  using unsigned_less [where ?'a = nat, of b] by simp

lemma word_le_nat: "unat (word_le lo hi) = unat lo + 256 * unat hi"
proof -
  have "unat lo < 256" "unat hi < 256" by (rule unat_u8_less)+
  then show ?thesis
    by (simp add: word_le_def unat_word_ariths unsigned_ucast_eq take_bit_eq_mod)
qed

lemma sum_words_of_nat: "sum_words junk acc bs = acc + of_nat (sum_nat junk bs)"
proof (induction junk acc bs rule: sum_words.induct)
  case (1 junk acc lo hi rest)
  have "of_nat (unat lo + 256 * unat hi) = word_le lo hi"
    by (simp only: word_le_nat [symmetric]) simp
  with 1 show ?case by (simp add: algebra_simps)
next
  case (2 junk acc b)
  have "of_nat (unat b + 256 * unat junk) = word_le b junk"
    by (simp only: word_le_nat [symmetric]) simp
  then show ?case by simp
qed simp

lemma sum_nat_bound: "sum_nat junk bs \<le> 32768 * (length bs + 1)"
proof (induction junk bs rule: sum_nat.induct)
  case (1 junk lo hi rest)
  then show ?case using unat_u8_less [of lo] unat_u8_less [of hi] by simp
next
  case (2 junk b)
  then show ?case using unat_u8_less [of b] unat_u8_less [of junk] by simp
qed simp

lemma sum_nat_append:
  "even (length as) \<Longrightarrow> sum_nat junk (as @ bs) = sum_nat junk as + sum_nat junk bs"
proof (induction junk as rule: sum_nat.induct)
  case (1 junk lo hi rest)
  then show ?case by simp
qed simp_all

text \<open>The byte behind the buffer does not count.\<close>

lemma word_le_masked: "word_le b x AND ucast (ntohs 0xFF00) = word_le b 0"
proof -
  have m: "(ucast (ntohs 0xFF00) :: u32) = mask 8" by (simp add: ntohs_def htons_def mask_eq_exp_minus_1)
  have "unat (word_le b x AND mask 8) = unat b"
    using unat_u8_less [of b]
    by (simp add: take_bit_eq_mask [symmetric] take_bit_eq_mod unat_mod word_le_nat)
  then show ?thesis unfolding m by (simp add: word_unat_eq_iff word_le_nat)
qed

lemma sum_words_snoc:
  "even (length bs) \<Longrightarrow> sum_words junk acc (bs @ [b]) = sum_words junk acc bs + word_le b junk"
  by (induction junk acc bs rule: sum_words.induct) simp_all

lemma sum_buf_take: "n + n mod 2 \<le> length buf \<Longrightarrow> sum_buf buf n = sum_words 0 0 (take n buf)"
proof (cases "even n")
  case False
  assume n: "n + n mod 2 \<le> length buf"
  obtain k where k: "n = Suc k" "even k" using False by (cases n) auto
  have "take n buf = take k buf @ [buf ! k]" using n k(1) by (simp add: take_Suc_conv_app_nth)
  moreover have "Suc k mod 2 = 1" using k(2) by presburger
  moreover have "even (length (take k buf))" using n k by simp
  ultimately show ?thesis
    using k sum_words_snoc [of "take k buf" 0 0 "buf ! k"]
    by (simp add: sum_buf_def odd_word_def word_le_masked)
qed (simp add: sum_buf_def odd_word_def)

subsection \<open>Folding is the remainder modulo 65535\<close>

definition fold_nat :: "nat \<Rightarrow> nat" where
  "fold_nat x = (if x = 0 then 0 else if x mod 65535 = 0 then 65535 else x mod 65535)"

lemma fold_twice:
  assumes "x < 4294967296"
  shows "((x div 65536 + x mod 65536) + (x div 65536 + x mod 65536) div 65536) mod 65536 = fold_nat x"
proof -
  define h l where "h = x div 65536" and "l = x mod 65536"
  have hl: "h < 65536" "l < 65536" "x = 65536 * h + l"
    using assms by (auto simp: h_def l_def less_mult_imp_div_less)
  have x: "x mod 65535 = (h + l) mod 65535"
  proof -
    have "x = 65535 * h + (h + l)" using hl(3) by simp
    then show ?thesis by (simp only: mod_mult_self4)
  qed
  consider "h + l < 65535" | "h + l = 65535" | "65535 < h + l" "h + l < 131070" | "h + l = 131070"
    using hl by linarith
  then have "((h + l) + (h + l) div 65536) mod 65536 = fold_nat x"
  proof cases
    case 1
    then show ?thesis using hl x by (auto simp: fold_nat_def)
  next
    case 2
    then show ?thesis using hl x by (auto simp: fold_nat_def)
  next
    case 3
    then have d: "(h + l) div 65536 = 1" by (intro div_nat_eqI) simp_all
    have "(h + l) mod 65535 = h + l - 65535" using 3 by (simp add: mod_if)
    moreover have "(h + l + 1) mod 65536 = h + l + 1 - 65536" using 3 by (simp add: mod_if)
    ultimately show ?thesis using 3 x hl by (simp add: d fold_nat_def)
  next
    case 4
    then show ?thesis using hl x by (auto simp: fold_nat_def)
  qed
  then show ?thesis by (simp add: h_def l_def)
qed

lemma unat_and_ffff: "unat (w AND 0xFFFF :: u32) = unat w mod 65536"
proof -
  have "w AND 0xFFFF = take_bit 16 w" by (simp add: take_bit_eq_mask mask_eq_exp_minus_1)
  then show ?thesis by (simp add: take_bit_eq_mod unat_mod)
qed

lemma unat_fold_sum: "unat (fold_sum w) = 65535 - fold_nat (unat w)"
proof -
  define s where "s = drop_bit 16 w + (w AND 0xFFFF)"
  have lt: "unat w < 4294967296" by (rule unat_u32_less)
  have d: "unat (drop_bit 16 v :: u32) = unat v div 65536" for v
    by (simp add: drop_bit_eq_div unat_div)
  have s: "unat s = unat w div 65536 + unat w mod 65536"
  proof -
    have "unat w div 65536 < 65536" "unat w mod 65536 < 65536" using lt by simp_all
    then have "unat (drop_bit 16 w) + unat (w AND 0xFFFF) < 2 ^ LENGTH(32)"
      unfolding d unat_and_ffff by simp
    from unat_add_no_wrap [OF this] show ?thesis unfolding s_def d unat_and_ffff .
  qed
  have s2: "unat (s + drop_bit 16 s) = unat s + unat s div 65536"
  proof -
    have "unat w div 65536 < 65536" using lt by simp
    moreover have "unat w mod 65536 < 65536" by simp
    ultimately have "unat s < 131072" unfolding s by linarith
    then show ?thesis by (subst unat_add_no_wrap) (simp_all add: d)
  qed
  have "unat (ucast (NOT (s + drop_bit 16 s)) :: u16) = 65535 - unat (ucast (s + drop_bit 16 s) :: u16)"
  proof -
    have "(ucast (NOT v) :: u16) = NOT (ucast v)" for v :: u32
      by (rule bit_word_eqI) (simp add: bit_simps)
    from this [of "s + drop_bit 16 s"]
    have "(ucast (NOT (s + drop_bit 16 s)) :: u16) = - 1 - ucast (s + drop_bit 16 s)"
      by (simp only: not_eq_complement) simp
    moreover have "unat (- 1 :: u16) = 65535" by (simp add: unsigned_minus_1_eq_mask mask_eq_exp_minus_1)
    ultimately show ?thesis
      using unsigned_less [where ?'a = nat, of "ucast (s + drop_bit 16 s) :: u16"]
      by (simp add: unat_sub_eq)
  qed
  also have "unat (ucast (s + drop_bit 16 s) :: u16) = (unat s + unat s div 65536) mod 65536"
    unfolding s2 [symmetric] by (simp add: unsigned_ucast_eq take_bit_eq_mod)
  also have "\<dots> = fold_nat (unat w)" unfolding s using fold_twice [OF lt] .
  finally show ?thesis by (simp add: fold_sum_def Let_def s_def)
qed

text \<open>The folded sum of all words of a segment, pseudo header included, as a number.\<close>

definition pseudo_nat :: "u16 \<Rightarrow> u16 \<Rightarrow> u32 \<Rightarrow> u32 \<Rightarrow> nat" where
  "pseudo_nat proto len saddr daddr =
     unat saddr mod 65536 + unat saddr div 65536 + (unat daddr mod 65536 + unat daddr div 65536) +
     unat (htons len) + unat (htons proto)"

lemma unat_u16_less: "unat (w :: u16) < 65536"
  using unsigned_less [where ?'a = nat, of w] by simp

lemma pseudo_bound: "pseudo_nat proto len saddr daddr < 393216"
proof -
  have "unat w mod 65536 < 65536 \<and> unat w div 65536 < 65536" for w :: u32
    using unat_u32_less [of w] by simp
  from this [of saddr] this [of daddr] unat_u16_less [of "htons len"] unat_u16_less [of "htons proto"]
  show ?thesis unfolding pseudo_nat_def by linarith
qed

lemma pseudo_sum_of_nat: "pseudo_sum proto len saddr daddr = of_nat (pseudo_nat proto len saddr daddr)"
proof -
  have a: "w AND 0xFFFF = of_nat (unat w mod 65536)" "drop_bit 16 w = of_nat (unat w div 65536)" for w :: u32
    using unat_u32_less [of w]
    by (simp_all add: unat_and_ffff [symmetric])
      (simp add: drop_bit_eq_div unat_div word_unat_eq_iff unat_of_nat)
  have "ucast v = of_nat (unat v)" for v :: u16 by simp
  then show ?thesis unfolding pseudo_sum_def pseudo_nat_def a by simp
qed

lemma total_nat:
  assumes "length bs < 65536"
  shows "unat (sum_words 0 0 bs + pseudo_sum proto len saddr daddr) =
    sum_nat 0 bs + pseudo_nat proto len saddr daddr"
proof -
  have "sum_nat 0 bs + pseudo_nat proto len saddr daddr < 4294967296"
    using sum_nat_bound [of 0 bs] pseudo_bound [of proto len saddr daddr] assms by simp
  then show ?thesis
    by (simp add: sum_words_of_nat pseudo_sum_of_nat unat_of_nat flip: of_nat_add)
qed

lemma fold_complement:
  assumes "c = 65535 - fold_nat x" "0 < x + c"
  shows "fold_nat (x + c) = 65535"
proof (cases "x mod 65535 = 0")
  case True
  then show ?thesis using assms by (auto simp: fold_nat_def split: if_splits)
next
  case False
  then have f: "fold_nat x = x mod 65535" by (auto simp: fold_nat_def)
  have "x + c = x div 65535 * 65535 + 65535" using assms(1) f mod_less_divisor [of 65535 x] 
    by (metis add.assoc div_mult_mod_eq le_add_diff_inverse less_imp_le_nat zero_less_numeral)
  then have "(x + c) mod 65535 = 0" by simp
  then show ?thesis using assms(2) by (simp add: fold_nat_def)
qed

subsection \<open>Properties\<close>

text \<open>The segment with the checksum field, bytes 16 and 17, set to \<open>c\<close>.\<close>

definition put_check :: "u8 list \<Rightarrow> u16 \<Rightarrow> u8 list" where
  "put_check seg c = take 16 seg @ [ucast c, ucast (drop_bit 8 c)] @ drop 18 seg"

lemma sum_put_check:
  assumes "18 \<le> length seg"
  shows "sum_nat junk (put_check seg c) = sum_nat junk (put_check seg 0) + unat c"
proof -
  have e: "even (length (take 16 seg))" using assms by simp
  have "unat (ucast c :: u8) + 256 * unat (ucast (drop_bit 8 c) :: u8) = unat c"
  proof -
    have "unat c div 256 < 256" using unat_u16_less [of c] by (simp add: less_mult_imp_div_less)
    then show ?thesis
      by (simp add: unsigned_ucast_eq take_bit_eq_mod drop_bit_eq_div unat_div)
  qed
  then show ?thesis unfolding put_check_def sum_nat_append [OF e] by simp
qed

text \<open>
  C31: A segment whose checksum field holds the checksum computed over the segment with that field
  zero verifies: computed over the whole segment the receiver gets zero, the value the input
  routine tests for. This holds for every even or odd length a segment can have. What lies behind
  the segment in memory does not matter, but for an odd length the code loads one byte of it.
\<close>

theorem tcp_checksum_verifies:
  assumes "18 \<le> length seg" "length seg < 65536" "len = of_nat (length seg)"
    and "cmt_tcp_calculate_checksum proto (put_check seg 0 @ rest) len saddr daddr = Inr c"
    and "0 < sum_nat 0 (put_check seg 0) + pseudo_nat proto len saddr daddr"
    and "length seg mod 2 \<le> length rest'"
  shows "cmt_tcp_calculate_checksum proto (put_check seg c @ rest') len saddr daddr = Inr 0"
proof -
  have l: "length (put_check seg d) = length seg" for d using assms(1) by (simp add: put_check_def)
  have len: "unat len = length seg" using assms(2,3) by (simp add: unat_of_nat)
  have buf: "sum_buf (put_check seg d @ r) (unat len) = sum_words 0 0 (put_check seg d)"
    if "length seg mod 2 \<le> length r" for d r
    using that by (subst sum_buf_take) (simp_all add: l len)
  define x where "x = sum_nat 0 (put_check seg 0) + pseudo_nat proto len saddr daddr"
  have tot: "unat (sum_words 0 0 (put_check seg d) + pseudo_sum proto len saddr daddr) =
      sum_nat 0 (put_check seg d) + pseudo_nat proto len saddr daddr" for d
    using assms(2) by (intro total_nat) (simp add: l)
  have c: "unat c = 65535 - fold_nat x"
  proof -
    have rl: "length seg mod 2 \<le> length rest"
      using assms(4) by (simp add: cmt_tcp_calculate_checksum_def len l split: if_splits)
    have "fold_sum (sum_words 0 0 (put_check seg 0) + pseudo_sum proto len saddr daddr) = c"
      using assms(4) rl unfolding cmt_tcp_calculate_checksum_def buf [OF rl] by (simp add: len l)
    then show ?thesis by (auto simp: unat_fold_sum tot x_def)
  qed
  have "sum_nat 0 (put_check seg c) + pseudo_nat proto len saddr daddr = x + unat c"
    using sum_put_check [OF assms(1), of 0 c] by (simp add: x_def)
  then have "unat (fold_sum (sum_words 0 0 (put_check seg c) + pseudo_sum proto len saddr daddr)) = 65535 - fold_nat (x + unat c)"
    by (simp add: unat_fold_sum tot)
  also have "0 < x + unat c" using assms(5) by (simp only: x_def)
  then have "65535 - fold_nat (x + unat c) = 0" by (simp only: fold_complement [OF c])
  finally show ?thesis
    unfolding cmt_tcp_calculate_checksum_def buf [OF assms(6)] using assms(6) by (simp add: len l unat_eq_zero)
qed

theorem tcp_checksum_verifies_witness:
  "\<exists>c. cmt_tcp_calculate_checksum 6 (put_check (replicate 21 3) 0 @ [7]) 21 0x0100007F 0x0200007F = Inr c \<and>
     cmt_tcp_calculate_checksum 6 (put_check (replicate 21 3) c @ [9, 9]) 21 0x0100007F 0x0200007F = Inr 0"
proof -
  let ?seg = "replicate 21 3 :: u8 list"
  have l: "length (put_check ?seg 0) = 21" by (simp add: put_check_def)
  then obtain c where c: "cmt_tcp_calculate_checksum 6 (put_check ?seg 0 @ [7]) 21 0x0100007F 0x0200007F = Inr c"
    by (simp add: cmt_tcp_calculate_checksum_def)
  have "0 < pseudo_nat 6 21 0x0100007F 0x0200007F" by (simp add: pseudo_nat_def)
  then show ?thesis using tcp_checksum_verifies [of ?seg 21 6 "[7]" "0x0100007F" "0x0200007F" c "[9, 9]"] c by simp
qed

text \<open>
  The two checksum routines of the TCP code compute the same function, and the ICMP routine
  computes it without pseudo header on data of even length, whatever the unset byte holds.
\<close>

theorem checksums_agree:
  "cmt_calculate_chksum = cmt_tcp_calculate_checksum \<and>
   (even len \<longrightarrow> int len \<le> int (length data) \<longrightarrow>
     ICMP_check_sum junk data (int len) = Inr (fold_sum (sum_words 0 0 (take len data))))"
proof -
  have "sum_words junk acc bs = sum_words 0 acc bs" if "even (length bs)" for acc bs
    using that by (induction "0 :: u8" acc bs rule: sum_words.induct) auto
  then show ?thesis
    by (auto simp: fun_eq_iff cmt_calculate_chksum_def cmt_tcp_calculate_checksum_def ICMP_check_sum_def)
qed

theorem checksums_agree_witness:
  "ICMP_check_sum 9 [8, 0, 1, 2, 5] (int 4) = Inr (fold_sum (sum_words 0 0 (take 4 [8, 0, 1, 2, 5])))"
  using checksums_agree [of 4 "[8, 0, 1, 2, 5]" 9] by simp

end
