(* ===== verification/Tcp_Seq.thy ===== *)
theory Tcp_Seq
  imports Prelude
begin

text \<open>
  Sequence number arithmetic modulo \<open>2 ^ 32\<close>: the macros \<open>TCP_SEQ_*\<close> of
  \<open>include/tcp.h\<close>, and \<open>GetMinSeq\<close>, \<open>GetMaxSeq\<close>, \<open>CanMerge\<close> of
  \<open>src/tcp_buffer.c\<close>. The macros cast the 32-bit difference to a signed integer, which is
  \<open>sint\<close>; the functions of the receive buffer compare unsigned values. The lemmas relate the
  two, reduce both to the unsigned distance, and give the order laws that hold inside a half
  of the sequence space.
\<close>

subsection \<open>Definitions\<close>

definition TCP_SEQ_LT :: "u32 \<Rightarrow> u32 \<Rightarrow> bool" where
  "TCP_SEQ_LT a b \<longleftrightarrow> sint (a - b) < 0"

definition TCP_SEQ_LEQ :: "u32 \<Rightarrow> u32 \<Rightarrow> bool" where
  "TCP_SEQ_LEQ a b \<longleftrightarrow> sint (a - b) \<le> 0"

definition TCP_SEQ_GT :: "u32 \<Rightarrow> u32 \<Rightarrow> bool" where
  "TCP_SEQ_GT a b \<longleftrightarrow> sint (a - b) > 0"

definition TCP_SEQ_GEQ :: "u32 \<Rightarrow> u32 \<Rightarrow> bool" where
  "TCP_SEQ_GEQ a b \<longleftrightarrow> sint (a - b) \<ge> 0"

definition TCP_SEQ_BETWEEN :: "u32 \<Rightarrow> u32 \<Rightarrow> u32 \<Rightarrow> bool" where
  "TCP_SEQ_BETWEEN a b c \<longleftrightarrow> TCP_SEQ_GEQ a b \<and> TCP_SEQ_LEQ a c"

definition MAXSEQ :: u32 where
  "MAXSEQ = 0xFFFFFFFF"

definition GetMinSeq :: "u32 \<Rightarrow> u32 \<Rightarrow> u32" where
  "GetMinSeq a b =
     (if a = b then a
      else if a < b then (if b - a \<le> MAXSEQ div 2 then a else b)
      else (if a - b \<le> MAXSEQ div 2 then b else a))"

definition GetMaxSeq :: "u32 \<Rightarrow> u32 \<Rightarrow> u32" where
  "GetMaxSeq a b =
     (if a = b then a
      else if a < b then (if b - a \<le> MAXSEQ div 2 then b else a)
      else (if a - b \<le> MAXSEQ div 2 then a else b))"

text \<open>\<open>CanMerge\<close> reads the start and length of two fragments.\<close>

definition CanMerge :: "u32 \<Rightarrow> u32 \<Rightarrow> u32 \<Rightarrow> u32 \<Rightarrow> bool" where
  "CanMerge a_seq a_len b_seq b_len =
     (let a_end = a_seq + a_len + 1; b_end = b_seq + b_len + 1
      in \<not> (GetMinSeq a_end b_seq = a_end \<or> GetMinSeq b_end a_seq = b_end))"

subsection \<open>The macros as unsigned distances\<close>

lemma uint_u32: "uint (w :: u32) < 4294967296" "0 \<le> uint w"
  using uint_lt2p [of w] by simp_all

lemma sint_u32: "sint (w :: u32) = (if uint w < 2147483648 then uint w else uint w - 4294967296)"
proof (cases "uint w < 2147483648")
  case True
  then have "(uint w + 2147483648) mod 4294967296 = uint w + 2147483648"
    using uint_u32 [of w] by (intro mod_pos_pos_trivial) simp_all
  with True show ?thesis
    by (simp add: sint_uint signed_take_bit_eq_take_bit_shift take_bit_eq_mod)
next
  case False
  have "(uint w + 2147483648) mod 4294967296 = (uint w - 2147483648 + 1 * 4294967296) mod 4294967296"
    by (simp add: algebra_simps)
  also have "\<dots> = (uint w - 2147483648) mod 4294967296" by (rule mod_mult_self1)
  also have "\<dots> = uint w - 2147483648"
    by (rule mod_pos_pos_trivial) (use False uint_u32 [of w] in linarith)+
  finally show ?thesis using False
    by (simp add: sint_uint signed_take_bit_eq_take_bit_shift take_bit_eq_mod)
qed

lemma unat_lt_half: "unat (w :: u32) < 2147483648 \<longleftrightarrow> uint w < 2147483648"
proof -
  have "int (unat w) < int 2147483648 \<longleftrightarrow> unat w < 2147483648" by (rule of_nat_less_iff)
  then show ?thesis by simp
qed

lemma SEQ_GEQ_iff: "TCP_SEQ_GEQ a b \<longleftrightarrow> unat (a - b) < 2147483648"
  using uint_u32 [of "a - b"] by (simp add: TCP_SEQ_GEQ_def sint_u32 unat_lt_half)

lemma SEQ_LT_iff: "TCP_SEQ_LT a b \<longleftrightarrow> \<not> unat (a - b) < 2147483648"
  using uint_u32 [of "a - b"] by (simp add: TCP_SEQ_LT_def sint_u32 unat_lt_half)

lemma SEQ_LEQ_iff: "TCP_SEQ_LEQ a b \<longleftrightarrow> a = b \<or> \<not> unat (a - b) < 2147483648"
proof -
  have "uint (a - b) \<le> 0 \<longleftrightarrow> a = b"
    using uint_u32 [of "a - b"] by (metis eq_iff_diff_eq_0 order_antisym_conv uint_0_iff order_refl)
  then show ?thesis
    using uint_u32 [of "a - b"] by (simp add: TCP_SEQ_LEQ_def sint_u32 unat_lt_half)
qed

lemma SEQ_GT_iff: "TCP_SEQ_GT a b \<longleftrightarrow> a \<noteq> b \<and> unat (a - b) < 2147483648"
  using SEQ_LEQ_iff [of a b] by (auto simp: TCP_SEQ_GT_def TCP_SEQ_LEQ_def)

lemmas seq_iffs = SEQ_LT_iff SEQ_LEQ_iff SEQ_GT_iff SEQ_GEQ_iff

lemma SEQ_LEQ_not_GT: "TCP_SEQ_LEQ a b \<longleftrightarrow> \<not> TCP_SEQ_GT a b"
  by (auto simp: seq_iffs)

lemma SEQ_GEQ_not_LT: "TCP_SEQ_GEQ a b \<longleftrightarrow> \<not> TCP_SEQ_LT a b"
  by (auto simp: seq_iffs)

lemma SEQ_LT_irrefl [simp]: "\<not> TCP_SEQ_LT a a"
  by (simp add: seq_iffs)

lemma SEQ_GT_irrefl [simp]: "\<not> TCP_SEQ_GT a a"
  by (simp add: seq_iffs)

lemma SEQ_LT_shift: "TCP_SEQ_LT (a + k) (b + k) \<longleftrightarrow> TCP_SEQ_LT a b"
  by (simp add: seq_iffs)

subsection \<open>Offsets from a base\<close>

text \<open>
  Inside one half of the sequence space the macros compare offsets: the sequence numbers
  \<open>base + word_of_nat p\<close> for \<open>p\<close> below \<open>2 ^ 31\<close> are ordered like \<open>p\<close>.
\<close>

lemma unat_diff_offset:
  assumes "p < 2 ^ 31" "q < 2 ^ 31"
  shows "unat ((base + word_of_nat p) - (base + word_of_nat q) :: u32) =
           (if q \<le> p then p - q else 2 ^ 32 + p - q)"
proof -
  have "unat (word_of_nat p :: u32) = p" "unat (word_of_nat q :: u32) = q"
    using assms by (simp_all add: unat_of_nat)
  then show ?thesis by (simp add: word_nat)
qed

lemma SEQ_LT_offset:
  "p < 2 ^ 31 \<Longrightarrow> q < 2 ^ 31 \<Longrightarrow>
    TCP_SEQ_LT (base + word_of_nat p) (base + word_of_nat q) \<longleftrightarrow> p < q"
  unfolding SEQ_LT_iff by (subst unat_diff_offset) auto

lemma offset_inj: "p < 2 ^ 31 \<Longrightarrow> q < 2 ^ 31 \<Longrightarrow>
    base + word_of_nat p = (base + word_of_nat q :: u32) \<longleftrightarrow> p = q"
  by (simp add: word_of_nat_eq_iff take_bit_eq_mod)

lemma MAXSEQ_half: "unat (MAXSEQ div 2) = 2 ^ 31 - 1"
  by (simp add: MAXSEQ_def unat_div)

lemma GetMinSeq_alt:
  "GetMinSeq a b = (if unat (b - a) < 2147483648 \<or> (unat (b - a) = 2147483648 \<and> b < a) then a else b)"
proof (cases "a = b")
  case False
  then have "unat a \<noteq> unat b" by (simp add: word_unat_eq_iff)
  then show ?thesis
    using unsigned_less [where ?'a = nat, of a] unsigned_less [where ?'a = nat, of b] False
    by (simp add: GetMinSeq_def unat_mono_le unat_mono_less MAXSEQ_half word_nat; linarith)
qed (simp add: GetMinSeq_def)

lemma GetMaxSeq_alt:
  "GetMaxSeq a b = (if unat (b - a) < 2147483648 \<or> (unat (b - a) = 2147483648 \<and> b < a) then b else a)"
proof (cases "a = b")
  case False
  then have "unat a \<noteq> unat b" by (simp add: word_unat_eq_iff)
  then show ?thesis
    using unsigned_less [where ?'a = nat, of a] unsigned_less [where ?'a = nat, of b] False
    by (simp add: GetMaxSeq_def unat_mono_le unat_mono_less MAXSEQ_half word_nat; linarith)
qed (simp add: GetMaxSeq_def)

lemma GetMinSeq_offset:
  assumes "p < 2 ^ 31" "q < 2 ^ 31"
  shows "GetMinSeq (base + word_of_nat p) (base + word_of_nat q) = base + word_of_nat (min p q)"
  unfolding GetMinSeq_alt unat_diff_offset [OF assms(2,1)] using assms by (auto simp: min_def)

lemma GetMaxSeq_offset:
  assumes "p < 2 ^ 31" "q < 2 ^ 31"
  shows "GetMaxSeq (base + word_of_nat p) (base + word_of_nat q) = base + word_of_nat (max p q)"
  unfolding GetMaxSeq_alt unat_diff_offset [OF assms(2,1)] using assms by (auto simp: max_def)

subsection \<open>Window membership and merging\<close>

lemma BETWEEN_window_aux:
  fixes d w :: u32
  assumes "unat w < 2147483648"
  shows "unat d < 2147483648 \<and> (d = w \<or> \<not> unat (d - w) < 2147483648) \<longleftrightarrow> unat d \<le> unat w"
proof (cases "unat d < unat w")
  case True
  then show ?thesis using assms by (auto simp: word_nat)
next
  case False
  then show ?thesis using assms by (auto simp: word_nat word_unat_eq_iff)
qed

lemma BETWEEN_window:
  assumes "unat w < 2 ^ 31"
  shows "TCP_SEQ_BETWEEN a b (b + w) \<longleftrightarrow> unat (a - b) \<le> unat w"
proof -
  have e: "a - (b + w) = (a - b) - w" "a = b + w \<longleftrightarrow> a - b = w" by (auto simp: algebra_simps)
  show ?thesis
    using BETWEEN_window_aux [of w "a - b"] assms
    by (simp only: TCP_SEQ_BETWEEN_def SEQ_GEQ_iff SEQ_LEQ_iff e) simp
qed

lemma GetMinSeq_eq_first:
  "p < 2 ^ 31 \<Longrightarrow> q < 2 ^ 31 \<Longrightarrow>
    GetMinSeq (base + word_of_nat p) (base + word_of_nat q) = base + word_of_nat p \<longleftrightarrow> p \<le> q"
  by (subst GetMinSeq_offset, assumption, assumption, subst offset_inj) (auto simp: min_def)

lemma CanMerge_offset:
  assumes "p + la + 1 < 2 ^ 31" "q + lb + 1 < 2 ^ 31"
  shows "CanMerge (base + word_of_nat p) (word_of_nat la) (base + word_of_nat q) (word_of_nat lb)
           \<longleftrightarrow> q \<le> p + la \<and> p \<le> q + lb"
proof -
  have e: "base + word_of_nat p + word_of_nat la + 1 = base + word_of_nat (p + la + 1)"
    "base + word_of_nat q + word_of_nat lb + 1 = base + word_of_nat (q + lb + 1)"
    by (simp_all add: algebra_simps)
  have "CanMerge (base + word_of_nat p) (word_of_nat la) (base + word_of_nat q) (word_of_nat lb)
          \<longleftrightarrow> \<not> (p + la + 1 \<le> q \<or> q + lb + 1 \<le> p)"
    unfolding CanMerge_def Let_def e
    by (subst GetMinSeq_eq_first, use assms in simp, use assms in simp)+ (rule refl)
  then show ?thesis by auto
qed

text \<open>
  The order is transitive inside a half of the sequence space; numbers exactly \<open>2 ^ 31\<close>
  apart are each before the other, hence the hypothesis that the ends differ.
\<close>

lemma unat_flip: "a \<noteq> c \<Longrightarrow> unat (a - c :: u32) = 2 ^ 32 - unat (c - a)"
proof -
  assume "a \<noteq> c"
  then have "unat a \<noteq> unat c" by (simp add: word_unat_eq_iff)
  then show ?thesis
    using unsigned_less [where ?'a = nat, of a] unsigned_less [where ?'a = nat, of c]
    by (auto simp: word_nat)
qed

lemma SEQ_LT_intro:
  assumes "a \<noteq> c" "unat (c - a) < 2 ^ 31"
  shows "TCP_SEQ_LT a c"
  using unat_flip [OF assms(1)] assms(2) unfolding SEQ_LT_iff by simp

lemma SEQ_LT_asym:
  assumes "TCP_SEQ_LT a b" "unat (b - a) \<noteq> 2 ^ 31"
  shows "\<not> TCP_SEQ_LT b a"
proof -
  have ab: "a \<noteq> b" using assms(1) by auto
  show ?thesis using assms unat_flip [OF ab] unfolding SEQ_LT_iff by simp
qed

subsection \<open>Properties\<close>

text \<open>
  Two fragments of the receive buffer whose ends are less than \<open>2 ^ 31\<close> apart are found
  mergeable exactly when the intervals they cover overlap or touch, wherever the sequence numbers
  lie and also when they wrap around.
\<close>

theorem can_merge_intervals:
  assumes "p + la + 1 < 2 ^ 31" "q + lb + 1 < 2 ^ 31"
  shows "CanMerge (base + word_of_nat p) (word_of_nat la) (base + word_of_nat q) (word_of_nat lb) \<longleftrightarrow>
    q \<le> p + la \<and> p \<le> q + lb"
  using assms by (rule CanMerge_offset)

theorem can_merge_intervals_witness:
  "CanMerge (0xFFFFFFFE + word_of_nat 0) (word_of_nat 4) (0xFFFFFFFE + word_of_nat 4) (word_of_nat 1)"
  using can_merge_intervals [of 0 4 4 1 "0xFFFFFFFE"] by simp

end
