(* ===== verification/Fifo.thy ===== *)
theory Fifo
  imports Prelude
begin

text \<open>
  The contract of a bounded first-in first-out buffer: bytes of the send buffer, streams of
  the accept queue, objects of the packet ring. \<open>put\<close> accepts a prefix of what it is given
  and says how long it is, \<open>get\<close> drops a prefix of what is stored. The locale proves once
  that no run of operations loses, duplicates or reorders an element; each buffer of the
  program interprets it on its own operations. Its extension \<open>serving_fifo\<close> is for the buffers
  that hand their elements out: \<open>serve\<close> returns them, and a run behaves like the list of the
  specification, which says how many elements every single call moves.
\<close>

datatype 'a fifo_op = Put "'a list" | Get nat

text \<open>A run collects the elements accepted and the elements handed out.\<close>

fun fifo_run ::
  "('q \<Rightarrow> 'a list) \<Rightarrow> ('q \<Rightarrow> 'a list \<Rightarrow> (nat \<times> 'q) res) \<Rightarrow> ('q \<Rightarrow> nat \<Rightarrow> (nat \<times> 'q) res) \<Rightarrow>
    'q \<Rightarrow> 'a fifo_op list \<Rightarrow> ('a list \<times> 'a list \<times> 'q) res" where
  "fifo_run contents put get q [] = Inr ([], [], q)"
| "fifo_run contents put get q (Put xs # ops) =
     andThen (put q xs) (\<lambda>(n, q').
     andThen (fifo_run contents put get q' ops) (\<lambda>(ins, outs, r).
     Inr (take n xs @ ins, outs, r)))"
| "fifo_run contents put get q (Get k # ops) =
     andThen (get q k) (\<lambda>(n, q').
     andThen (fifo_run contents put get q' ops) (\<lambda>(ins, outs, r).
     Inr (ins, take n (contents q) @ outs, r)))"

fun op_fits :: "('a list \<Rightarrow> bool) \<Rightarrow> 'a fifo_op \<Rightarrow> bool" where
  "op_fits fits (Put xs) = fits xs"
| "op_fits fits (Get k) = True"

locale bounded_fifo =
  fixes inv :: "'q \<Rightarrow> bool"
    and fits :: "'a list \<Rightarrow> bool"
    and contents :: "'q \<Rightarrow> 'a list"
    and cap :: "'q \<Rightarrow> nat"
    and put :: "'q \<Rightarrow> 'a list \<Rightarrow> (nat \<times> 'q) res"
    and get :: "'q \<Rightarrow> nat \<Rightarrow> (nat \<times> 'q) res"
  assumes put_law: "inv q \<Longrightarrow> fits xs \<Longrightarrow>
      \<exists>n q'. put q xs = Inr (n, q') \<and> inv q' \<and> n \<le> length xs \<and> cap q' = cap q \<and>
             contents q' = contents q @ take n xs"
    and get_law: "inv q \<Longrightarrow>
      \<exists>n q'. get q k = Inr (n, q') \<and> inv q' \<and> n \<le> length (contents q) \<and> cap q' = cap q \<and>
             contents q' = drop n (contents q)"
    and cap_law: "inv q \<Longrightarrow> length (contents q) \<le> cap q"
begin

lemma run_fifo:
  "inv q \<Longrightarrow> \<forall>p\<in>set ops. op_fits fits p \<Longrightarrow>
   \<exists>ins outs q'. fifo_run contents put get q ops = Inr (ins, outs, q') \<and> inv q' \<and>
     cap q' = cap q \<and> contents q @ ins = outs @ contents q'"
proof (induction ops arbitrary: q)
  case Nil
  then show ?case by simp
next
  case (Cons p ops)
  show ?case
  proof (cases p)
    case (Put xs)
    from Cons.prems Put obtain n q1 where p: "put q xs = Inr (n, q1)" "inv q1" "cap q1 = cap q"
      "contents q1 = contents q @ take n xs"
      using put_law [of q xs] by auto
    from Cons.IH [OF p(2)] Cons.prems obtain ins outs q2 where
      "fifo_run contents put get q1 ops = Inr (ins, outs, q2)" "inv q2" "cap q2 = cap q1"
      "contents q1 @ ins = outs @ contents q2" by auto
    with p Put show ?thesis by simp
  next
    case (Get k)
    from Cons.prems obtain n q1 where p: "get q k = Inr (n, q1)" "inv q1" "cap q1 = cap q"
      "contents q1 = drop n (contents q)"
      using get_law [of q k] by auto
    from Cons.IH [OF p(2)] Cons.prems obtain ins outs q2 where
      r: "fifo_run contents put get q1 ops = Inr (ins, outs, q2)" "inv q2" "cap q2 = cap q1"
      "contents q1 @ ins = outs @ contents q2" by auto
    have "contents q @ ins = (take n (contents q) @ outs) @ contents q2"
      using p(4) r(4) by (metis append.assoc append_take_drop_id)
    with p r Get show ?thesis by simp
  qed
qed

lemma run_bounded:
  assumes "inv q" "\<forall>p\<in>set ops. op_fits fits p"
    and "fifo_run contents put get q ops = Inr (ins, outs, q')"
  shows "length (contents q) + length ins \<le> length outs + cap q"
proof -
  from run_fifo [OF assms(1,2)] assms(3)
  have "inv q'" "cap q' = cap q" "contents q @ ins = outs @ contents q'" by auto
  then show ?thesis using cap_law [of q'] by (metis add_le_cancel_left length_append)
qed

end

subsection \<open>Buffers that hand their elements out\<close>

text \<open>A run collects what the calls accept and what they return.\<close>

fun serve_run ::
  "('q \<Rightarrow> 'a list \<Rightarrow> (nat \<times> 'q) res) \<Rightarrow> ('q \<Rightarrow> nat \<Rightarrow> ('a list \<times> 'q) res) \<Rightarrow>
    'q \<Rightarrow> 'a fifo_op list \<Rightarrow> ('a list \<times> 'a list \<times> 'q) res" where
  "serve_run put serve q [] = Inr ([], [], q)"
| "serve_run put serve q (Put xs # ops) =
     andThen (put q xs) (\<lambda>(n, q').
     andThen (serve_run put serve q' ops) (\<lambda>(ins, outs, r).
     Inr (take n xs @ ins, outs, r)))"
| "serve_run put serve q (Get k # ops) =
     andThen (serve q k) (\<lambda>(ys, q').
     andThen (serve_run put serve q' ops) (\<lambda>(ins, outs, r).
     Inr (ins, ys @ outs, r)))"

text \<open>The same run on a list with room for \<open>cap\<close> elements; \<open>amount k n\<close> of \<open>n\<close> elements are handed out.\<close>

fun spec_run :: "nat \<Rightarrow> (nat \<Rightarrow> nat \<Rightarrow> nat) \<Rightarrow> 'a list \<Rightarrow> 'a fifo_op list \<Rightarrow> 'a list \<times> 'a list \<times> 'a list" where
  "spec_run cap amount q [] = ([], [], q)"
| "spec_run cap amount q (Put xs # ops) =
     (let acc = take (cap - length q) xs; (ins, outs, r) = spec_run cap amount (q @ acc) ops
      in (acc @ ins, outs, r))"
| "spec_run cap amount q (Get k # ops) =
     (let n = amount k (length q); (ins, outs, r) = spec_run cap amount (drop n q) ops
      in (ins, take n q @ outs, r))"

locale serving_fifo =
  fixes inv :: "'q \<Rightarrow> bool"
    and fits :: "'a list \<Rightarrow> bool"
    and contents :: "'q \<Rightarrow> 'a list"
    and cap :: "'q \<Rightarrow> nat"
    and amount :: "nat \<Rightarrow> nat \<Rightarrow> nat"
    and put :: "'q \<Rightarrow> 'a list \<Rightarrow> (nat \<times> 'q) res"
    and serve :: "'q \<Rightarrow> nat \<Rightarrow> ('a list \<times> 'q) res"
  assumes fill_law: "inv q \<Longrightarrow> fits xs \<Longrightarrow>
      \<exists>q'. put q xs = Inr (min (length xs) (cap q - length (contents q)), q') \<and> inv q' \<and> cap q' = cap q \<and>
           contents q' = contents q @ take (cap q - length (contents q)) xs"
    and serve_law: "inv q \<Longrightarrow>
      \<exists>q'. serve q k = Inr (take (amount k (length (contents q))) (contents q), q') \<and> inv q' \<and> cap q' = cap q \<and>
           contents q' = drop (amount k (length (contents q))) (contents q)"
    and room_law: "inv q \<Longrightarrow> length (contents q) \<le> cap q"
begin

definition count :: "'q \<Rightarrow> nat \<Rightarrow> (nat \<times> 'q) res" where
  "count q k = andThen (serve q k) (\<lambda>(ys, q). Inr (length ys, q))"

lemma serve_refines:
  "inv q \<Longrightarrow> \<forall>p\<in>set ops. op_fits fits p \<Longrightarrow>
   \<exists>ins outs q'. serve_run put serve q ops = Inr (ins, outs, q') \<and> inv q' \<and>
     spec_run (cap q) amount (contents q) ops = (ins, outs, contents q')"
proof (induction ops arbitrary: q)
  case (Cons p ops)
  show ?case
  proof (cases p)
    case (Put xs)
    then obtain q1 where q1: "put q xs = Inr (min (length xs) (cap q - length (contents q)), q1)" "inv q1" "cap q1 = cap q"
      "contents q1 = contents q @ take (cap q - length (contents q)) xs"
      using fill_law [of q xs] Cons.prems by auto
    moreover obtain ins outs q2 where "serve_run put serve q1 ops = Inr (ins, outs, q2)" "inv q2"
      "spec_run (cap q1) amount (contents q1) ops = (ins, outs, contents q2)"
      using Cons.IH [OF q1(2)] Cons.prems by auto
    ultimately show ?thesis using Put by (simp add: Let_def min_def)
  next
    case (Get k)
    obtain q1 where q1: "serve q k = Inr (take (amount k (length (contents q))) (contents q), q1)" "inv q1" "cap q1 = cap q"
      "contents q1 = drop (amount k (length (contents q))) (contents q)"
      using serve_law Cons.prems by blast
    moreover obtain ins outs q2 where "serve_run put serve q1 ops = Inr (ins, outs, q2)" "inv q2"
      "spec_run (cap q1) amount (contents q1) ops = (ins, outs, contents q2)"
      using Cons.IH [OF q1(2)] Cons.prems by auto
    ultimately show ?thesis using Get by (simp add: Let_def)
  qed
qed simp

end

text \<open>Counting what is served gives the weaker contract.\<close>

sublocale serving_fifo \<subseteq> counted: bounded_fifo inv fits contents cap put count
proof unfold_locales
  fix q xs assume "inv q" "fits xs"
  then obtain q' where "put q xs = Inr (min (length xs) (cap q - length (contents q)), q')" "inv q'" "cap q' = cap q"
    "contents q' = contents q @ take (cap q - length (contents q)) xs" using fill_law by blast
  then show "\<exists>n q'. put q xs = Inr (n, q') \<and> inv q' \<and> n \<le> length xs \<and> cap q' = cap q \<and>
      contents q' = contents q @ take n xs" by (simp add: min_def)
next
  fix q k assume "inv q"
  then show "\<exists>n q'. count q k = Inr (n, q') \<and> inv q' \<and> n \<le> length (contents q) \<and> cap q' = cap q \<and>
      contents q' = drop n (contents q)"
    using serve_law [of q k] by (auto simp: count_def min_def)
qed (rule room_law)

text \<open>What the specification gives: nothing is lost, doubled or reordered, and the room suffices.\<close>

lemma spec_run_fifo:
  "spec_run cap amount q ops = (ins, outs, r) \<Longrightarrow> q @ ins = outs @ r"
proof (induction ops arbitrary: q ins outs)
  case (Cons p ops)
  show ?case
  proof (cases p)
    case (Put xs)
    obtain i ou r' where e: "spec_run cap amount (q @ take (cap - length q) xs) ops = (i, ou, r')"
      by (metis surj_pair)
    show ?thesis using Cons.prems Put e Cons.IH [of "q @ take (cap - length q) xs" i ou] by (auto simp: Let_def)
  next
    case (Get k)
    obtain i ou r' where e: "spec_run cap amount (drop (amount k (length q)) q) ops = (i, ou, r')"
      by (metis surj_pair)
    then have f: "ins = i" "outs = take (amount k (length q)) q @ ou" "r = r'" using Cons.prems Get by (simp_all add: Let_def)
    then have "drop (amount k (length q)) q @ i = ou @ r" using Cons.IH e by blast
    then show ?thesis using f by (metis append.assoc append_take_drop_id)
  qed
qed simp

lemma spec_run_bounded:
  "spec_run cap amount q ops = (ins, outs, r) \<Longrightarrow> length q \<le> cap \<Longrightarrow> length r \<le> cap"
proof (induction ops arbitrary: q ins outs)
  case (Cons p ops)
  show ?case
  proof (cases p)
    case (Put xs)
    then show ?thesis using Cons.prems Cons.IH [of "q @ take (cap - length q) xs"] by (auto simp: Let_def split: prod.splits)
  next
    case (Get k)
    then show ?thesis using Cons.prems Cons.IH [of "drop (amount k (length q)) q"] by (auto simp: Let_def split: prod.splits)
  qed
qed simp

lemma spec_run_room:
  "spec_run cap amount q ops = (ins, outs, r) \<Longrightarrow> length q \<le> cap \<Longrightarrow> length q + length ins \<le> length outs + cap"
  by (metis spec_run_fifo spec_run_bounded add_le_cancel_left length_append)

subsection \<open>Cyclic slices of an array\<close>

text \<open>
  The accept queue and the packet ring store their elements in an array whose indices wrap
  around. A slice is \<open>n\<close> cells from position \<open>h\<close>, modulo the length of the array.
\<close>

definition cyc_slice :: "'a list \<Rightarrow> nat \<Rightarrow> nat \<Rightarrow> 'a list" where
  "cyc_slice mem h n = map (\<lambda>k. mem ! ((h + k) mod length mem)) [0..<n]"

lemma length_cyc_slice [simp]: "length (cyc_slice mem h n) = n"
  by (simp add: cyc_slice_def)

lemma cyc_slice_0 [simp]: "cyc_slice mem h 0 = []"
  by (simp add: cyc_slice_def)

lemma cyc_inj:
  assumes "(h + k) mod N = (h + n) mod N" "k < N" "n < (N :: nat)"
  shows "k = n"
proof -
  have "N dvd (h + n) - (h + k) \<and> N dvd (h + k) - (h + n)"
    using assms(1) by (metis dvd_0_right diff_is_0_eq mod_eq_dvd_iff_nat nat_le_linear)
  then have "N dvd n - k" "N dvd k - n" by simp_all
  then show ?thesis using assms(2,3) by (metis diff_is_0_eq dvd_imp_le less_imp_diff_less linorder_not_le nat_le_linear order_antisym zero_less_diff)
qed

lemma cyc_slice_push:
  assumes "n < length mem"
  shows "cyc_slice (mem[(h + n) mod length mem := x]) h (Suc n) = cyc_slice mem h n @ [x]"
proof -
  have N: "0 < length mem" using assms by linarith
  have "mem[(h + n) mod length mem := x] ! ((h + k) mod length mem) = mem ! ((h + k) mod length mem)"
    if "k < n" for k
    using cyc_inj [of h k "length mem" n] that assms by (metis less_trans nat_neq_iff nth_list_update_neq)
  then show ?thesis using N assms by (auto simp: cyc_slice_def)
qed

lemma cyc_slice_pop:
  "cyc_slice mem h (Suc n) = mem ! (h mod length mem) # cyc_slice mem (Suc h mod length mem) n"
  by (simp add: cyc_slice_def map_upt_Suc mod_add_left_eq del: upt_Suc)

lemma cyc_slice_mod: "cyc_slice mem (h mod length mem) n = cyc_slice mem h n"
  by (simp add: cyc_slice_def mod_add_left_eq)

end
