(* ===== verification/Send_Buffer.thy ===== *)
theory Send_Buffer
  imports Fifo
begin

text \<open>
  The send buffer of \<open>src/tcp_buffer.c\<close> (\<open>SBInit\<close>, \<open>SBFree\<close>, \<open>SBPut\<close>,
  \<open>SBRemove\<close>; \<open>include/tcp_buffer.h\<close> declares the last two as \<open>sb_put\<close> and
  \<open>sb_remove\<close>, the names \<open>tcp.c\<close> calls). The memory \<open>data\<close> points to is a list of
  bytes, and the pointer \<open>head\<close> is its offset in that memory. Copies that leave the memory
  are the error \<open>OutOfBounds\<close>. The invariant ties pointer, offsets and length together and
  the sequence numbers to the bytes ever put.
\<close>

subsection \<open>State\<close>

record send_buffer =
  sb_data :: "u8 list"
  sb_head :: nat
  head_off :: u32
  tail_off :: u32
  sb_len :: u32
  sb_cum_len :: u64
  sb_size :: u32
  sb_head_seq :: u32
  sb_init_seq :: u32

record sb_manager =
  sb_chunk_size :: u64
  cur_num :: u32

subsection \<open>Operations\<close>

text \<open>\<open>memcpy\<close> to, and a block read from, the chunk.\<close>

definition write_at :: "u8 list \<Rightarrow> nat \<Rightarrow> u8 list \<Rightarrow> u8 list res" where
  "write_at mem off bs =
     (if off + length bs \<le> length mem
      then Inr (take off mem @ bs @ drop (off + length bs) mem) else Inl OutOfBounds)"

definition read_at :: "u8 list \<Rightarrow> nat \<Rightarrow> nat \<Rightarrow> u8 list res" where
  "read_at mem off n = (if off + n \<le> length mem then Inr (take n (drop off mem)) else Inl OutOfBounds)"

text \<open>
  \<open>SBInit\<close> takes an object from the pool. \<open>obj\<close> is what the pool returns, with the
  memory its \<open>data\<close> field points to; \<open>None\<close> is a pool that is exhausted.
\<close>

definition SBInit :: "sb_manager \<Rightarrow> send_buffer option \<Rightarrow> u32 \<Rightarrow> send_buffer option \<times> sb_manager" where
  "SBInit sbm obj init_seq =
     (case obj of
        None \<Rightarrow> (None, sbm)
      | Some buf \<Rightarrow>
          (Some (buf\<lparr>sb_head := 0, head_off := 0, tail_off := 0, sb_len := 0, sb_cum_len := 0,
                     sb_size := ucast (sb_chunk_size sbm),
                     sb_init_seq := init_seq, sb_head_seq := init_seq\<rparr>),
           sbm\<lparr>cur_num := cur_num sbm + 1\<rparr>))"

definition SBFree :: "sb_manager \<Rightarrow> send_buffer option \<Rightarrow> sb_manager" where
  "SBFree sbm buf = (case buf of None \<Rightarrow> sbm | Some _ \<Rightarrow> sbm\<lparr>cur_num := cur_num sbm - 1\<rparr>)"

definition SBPut :: "send_buffer \<Rightarrow> u8 list \<Rightarrow> u64 \<Rightarrow> (u64 \<times> send_buffer) res" where
  "SBPut buf src len =
     (if len \<le> 0 then Inr (0, buf)
      else
        let to_put = min len (ucast (sb_size buf - sb_len buf)) in
        if to_put \<le> 0 then Inr (- 2, buf)
        else if ucast (tail_off buf) + to_put < ucast (sb_size buf)
        then
          andThen (read_at src 0 (unat to_put)) (\<lambda>bytes.
          andThen (write_at (sb_data buf) (unat (tail_off buf)) bytes) (\<lambda>mem.
          Inr (to_put,
               buf\<lparr>sb_data := mem, tail_off := tail_off buf + ucast to_put,
                   sb_len := sb_len buf + ucast to_put,
                   sb_cum_len := sb_cum_len buf + to_put\<rparr>)))
        else
          andThen (read_at (sb_data buf) (sb_head buf) (unat (sb_len buf))) (\<lambda>old.
          andThen (write_at (sb_data buf) 0 old) (\<lambda>moved.
          andThen (read_at src 0 (unat to_put)) (\<lambda>bytes.
          andThen (write_at moved (unat (sb_len buf)) bytes) (\<lambda>mem.
          Inr (to_put,
               buf\<lparr>sb_data := mem, sb_head := 0, head_off := 0,
                   tail_off := sb_len buf + ucast to_put,
                   sb_len := sb_len buf + ucast to_put,
                   sb_cum_len := sb_cum_len buf + to_put\<rparr>))))))"

definition SBRemove :: "send_buffer \<Rightarrow> u64 \<Rightarrow> u64 \<times> send_buffer" where
  "SBRemove buf len =
     (if len \<le> 0 then (0, buf)
      else
        let to_remove = min len (ucast (sb_len buf)) in
        if to_remove \<le> 0 then (- 2, buf)
        else
          let head_off' = head_off buf + ucast to_remove;
              buf1 = buf\<lparr>head_off := head_off', sb_head := unat head_off',
                         sb_head_seq := sb_head_seq buf + ucast to_remove,
                         sb_len := sb_len buf - ucast to_remove\<rparr>
          in (to_remove,
              if sb_len buf1 = 0 \<and> head_off buf1 > 0
              then buf1\<lparr>sb_head := 0, head_off := 0, tail_off := 0\<rparr> else buf1))"

subsection \<open>Invariant and contents\<close>

definition sb_inv :: "send_buffer \<Rightarrow> bool" where
  "sb_inv b \<longleftrightarrow>
     length (sb_data b) = unat (sb_size b) \<and> sb_head b = unat (head_off b) \<and>
     unat (head_off b) + unat (sb_len b) = unat (tail_off b) \<and>
     unat (tail_off b) \<le> unat (sb_size b) \<and>
     sb_head_seq b + sb_len b = sb_init_seq b + ucast (sb_cum_len b)"

definition sb_contents :: "send_buffer \<Rightarrow> u8 list" where
  "sb_contents b = take (unat (sb_len b)) (drop (sb_head b) (sb_data b))"

lemma length_sb_contents: "sb_inv b \<Longrightarrow> length (sb_contents b) = unat (sb_len b)"
  by (auto simp: sb_inv_def sb_contents_def)

lemma sb_inv_SBInit:
  assumes "fst (SBInit sbm (Some obj) iss) = Some b"
    and "length (sb_data obj) = unat (sb_chunk_size sbm)" "unat (sb_chunk_size sbm) < 2 ^ 32"
  shows "sb_inv b \<and> sb_contents b = [] \<and> sb_head_seq b = iss"
proof -
  have "unat (ucast (sb_chunk_size sbm) :: u32) = unat (sb_chunk_size sbm)"
    using assms(3) by (simp add: unat_ucast_u64_u32)
  then show ?thesis using assms by (auto simp: SBInit_def sb_inv_def sb_contents_def)
qed

lemma write_at_ok:
  "off + length bs \<le> length mem \<Longrightarrow>
    write_at mem off bs = Inr (take off mem @ bs @ drop (off + length bs) mem)"
  by (simp add: write_at_def)

lemma read_at_ok: "off + n \<le> length mem \<Longrightarrow> read_at mem off n = Inr (take n (drop off mem))"
  by (simp add: read_at_def)

lemma SBPut_tail:
  assumes inv: "sb_inv b" and n: "n = unat to_put" "unat (tail_off b) + n < unat (sb_size b)"
    and src: "n \<le> length src" "take n src = bytes"
  defines "b' \<equiv> b\<lparr>sb_data := take (unat (tail_off b)) (sb_data b) @ bytes @
                           drop (unat (tail_off b) + n) (sb_data b),
                  tail_off := tail_off b + ucast to_put, sb_len := sb_len b + ucast to_put,
                  sb_cum_len := sb_cum_len b + to_put\<rparr>"
  shows "sb_inv b' \<and> sb_contents b' = sb_contents b @ bytes"
proof -
  have lens: "unat (ucast to_put :: u32) = n" "length bytes = n"
    using n src unat_u32_less [of "sb_size b"] by (auto simp: unat_ucast_u64_u32)
  have i: "length (sb_data b) = unat (sb_size b)" "sb_head b = unat (head_off b)"
    "unat (head_off b) + unat (sb_len b) = unat (tail_off b)"
    "sb_head_seq b + sb_len b = sb_init_seq b + ucast (sb_cum_len b)"
    using inv by (auto simp: sb_inv_def)
  have u: "unat (tail_off b + ucast to_put) = unat (tail_off b) + n"
    "unat (sb_len b + ucast to_put) = unat (sb_len b) + n"
    using lens n i unat_u32_less [of "sb_size b"] by (simp_all add: unat_add_no_wrap)
  have c: "ucast (sb_cum_len b + to_put) = (ucast (sb_cum_len b) + ucast to_put :: u32)"
    by (rule ucast_add_u64_u32)
  have "sb_inv b'" using i u lens n c by (simp add: sb_inv_def b'_def algebra_simps)
  moreover have "sb_contents b' = sb_contents b @ bytes"
    using i(1,2) i(3) [symmetric] u lens n by (simp add: sb_contents_def b'_def drop_take)
  ultimately show ?thesis by simp
qed

lemma SBPut_merge:
  assumes inv: "sb_inv b" and n: "n = unat to_put" "unat (sb_len b) + n \<le> unat (sb_size b)"
    and src: "n \<le> length src" "take n src = bytes"
  defines "b' \<equiv> b\<lparr>sb_data := sb_contents b @ bytes @
                           drop (unat (sb_len b) + n) (sb_data b),
                  sb_head := 0, head_off := 0,
                  tail_off := sb_len b + ucast to_put, sb_len := sb_len b + ucast to_put,
                  sb_cum_len := sb_cum_len b + to_put\<rparr>"
  shows "sb_inv b' \<and> sb_contents b' = sb_contents b @ bytes"
proof -
  have lens: "unat (ucast to_put :: u32) = n" "length bytes = n" "length (sb_contents b) = unat (sb_len b)"
    using n src unat_u32_less [of "sb_size b"] length_sb_contents [OF inv]
    by (auto simp: unat_ucast_u64_u32)
  have i: "length (sb_data b) = unat (sb_size b)"
    "sb_head_seq b + sb_len b = sb_init_seq b + ucast (sb_cum_len b)"
    using inv by (auto simp: sb_inv_def)
  have u: "unat (sb_len b + ucast to_put) = unat (sb_len b) + n"
    using lens n unat_u32_less [of "sb_size b"] by (simp add: unat_add_no_wrap)
  have c: "ucast (sb_cum_len b + to_put) = (ucast (sb_cum_len b) + ucast to_put :: u32)"
    by (rule ucast_add_u64_u32)
  have "sb_inv b'" using i u lens n c by (simp add: sb_inv_def b'_def algebra_simps)
  moreover have "sb_contents b' = sb_contents b @ bytes"
    by (subst sb_contents_def) (simp add: b'_def u lens)
  ultimately show ?thesis by simp
qed

definition sb_room :: "send_buffer \<Rightarrow> u64 \<Rightarrow> nat" where
  "sb_room b len = min (unat len) (unat (sb_size b) - unat (sb_len b))"

lemma SBPut_spec:
  assumes inv: "sb_inv b" and src: "unat len \<le> length src"
  shows "\<exists>b'. SBPut b src len =
             Inr (if len = 0 then 0 else if sb_room b len = 0 then - 2 else of_nat (sb_room b len), b') \<and>
           sb_inv b' \<and> sb_contents b' = sb_contents b @ take (sb_room b len) src \<and>
           sb_size b' = sb_size b \<and> sb_head_seq b' = sb_head_seq b \<and>
           sb_head_seq b' + sb_len b' = sb_head_seq b + sb_len b + of_nat (sb_room b len)"
proof -
  define to_put where "to_put = min len (ucast (sb_size b - sb_len b))"
  have le: "unat (sb_len b) \<le> unat (sb_size b)" using inv by (auto simp: sb_inv_def)
  have tp: "unat to_put = sb_room b len"
    using le by (simp add: to_put_def unat_min sb_room_def unat_sub_no_wrap)
  have tpw: "of_nat (sb_room b len) = to_put" "(of_nat (sb_room b len) :: u32) = ucast to_put"
    by (simp_all flip: tp add: word_unat_eq_iff unat_of_nat unat_ucast_u64_u32)
  show ?thesis
  proof (cases "len = 0 \<or> sb_room b len = 0")
    case True
    then have "len = 0 \<or> to_put = 0" using tp by (metis unat_eq_zero)
    moreover have "sb_room b len = 0" using True by (auto simp: sb_room_def)
    ultimately show ?thesis using inv by (auto simp: SBPut_def Let_def to_put_def [symmetric])
  next
    case False
    then have nz: "len \<noteq> 0" "to_put \<noteq> 0" using tp by auto
    have room: "sb_room b len \<le> length src" "unat (sb_len b) + sb_room b len \<le> unat (sb_size b)"
      using src le by (auto simp: sb_room_def)
    have t64: "unat (ucast (tail_off b) + to_put) = unat (tail_off b) + sb_room b len"
      using room(2) tp unat_u32_less [of "tail_off b"] unat_u32_less [of "sb_size b"]
      by (subst unat_add_no_wrap) simp_all
    have fits: "ucast (tail_off b) + to_put < ucast (sb_size b) \<longleftrightarrow>
        unat (tail_off b) + sb_room b len < unat (sb_size b)"
      by (simp add: unat_mono_less t64)
    have i: "length (sb_data b) = unat (sb_size b)" "sb_head b + unat (sb_len b) \<le> length (sb_data b)"
      using inv by (auto simp: sb_inv_def)
    note red = SBPut_def Let_def to_put_def [symmetric] nz write_at_ok read_at_ok tp
    show ?thesis
    proof (cases "unat (tail_off b) + sb_room b len < unat (sb_size b)")
      case True
      with SBPut_tail [OF inv tp [symmetric] True room(1) refl] room i nz False fits
      show ?thesis by (simp add: red tpw algebra_simps)
    next
      case merge: False
      with SBPut_merge [OF inv tp [symmetric] room(2,1) refl] room i nz False fits
      show ?thesis
        by (simp add: red tpw algebra_simps sb_contents_def [of b] min_absorb1)
    qed
  qed
qed

definition sb_taken :: "send_buffer \<Rightarrow> u64 \<Rightarrow> nat" where
  "sb_taken b len = min (unat len) (unat (sb_len b))"

lemma SBRemove_spec:
  assumes inv: "sb_inv b"
  shows "\<exists>b'. SBRemove b len =
             (if len = 0 then 0 else if sb_taken b len = 0 then - 2 else of_nat (sb_taken b len), b') \<and>
           sb_inv b' \<and> sb_contents b' = drop (sb_taken b len) (sb_contents b) \<and>
           sb_size b' = sb_size b \<and> sb_head_seq b' = sb_head_seq b + of_nat (sb_taken b len) \<and>
           sb_head_seq b' + sb_len b' = sb_head_seq b + sb_len b"
proof -
  define k where "k = min len (ucast (sb_len b))"
  have k: "unat k = sb_taken b len" by (simp add: k_def unat_min sb_taken_def)
  have kw: "of_nat (sb_taken b len) = k" "(of_nat (sb_taken b len) :: u32) = ucast k"
    by (simp_all flip: k add: word_unat_eq_iff unat_of_nat unat_ucast_u64_u32)
  show ?thesis
  proof (cases "len = 0 \<or> sb_taken b len = 0")
    case True
    then have "len = 0 \<or> k = 0" using k by (metis unat_eq_zero)
    moreover have "sb_taken b len = 0" using True by (auto simp: sb_taken_def)
    ultimately show ?thesis using inv by (auto simp: SBRemove_def Let_def k_def [symmetric])
  next
    case False
    then have nz: "len \<noteq> 0" "k \<noteq> 0" using k by auto
    have i: "length (sb_data b) = unat (sb_size b)" "sb_head b = unat (head_off b)"
      "unat (head_off b) + unat (sb_len b) = unat (tail_off b)" "unat (tail_off b) \<le> unat (sb_size b)"
      "sb_head_seq b + sb_len b = sb_init_seq b + ucast (sb_cum_len b)"
      using inv by (auto simp: sb_inv_def)
    have le: "sb_taken b len \<le> unat (sb_len b)" by (simp add: sb_taken_def)
    have uk: "unat (ucast k :: u32) = sb_taken b len"
      using le k unat_u32_less [of "sb_len b"] by (simp add: unat_ucast_u64_u32)
    have h: "unat (head_off b + ucast k) = unat (head_off b) + sb_taken b len"
      using le i uk unat_u32_less [of "tail_off b"] by (subst unat_add_no_wrap) simp_all
    have l: "unat (sb_len b - ucast k) = unat (sb_len b) - sb_taken b len"
      using le uk by (simp add: unat_sub_no_wrap)
    have "unat (head_off b + ucast k) \<noteq> 0" using h False by simp
    then have "head_off b + ucast k \<noteq> 0" by (metis unat_0)
    then have hz: "head_off b + ucast k > 0" by (simp add: word_greater_zero_iff)
    have lz: "sb_len b = ucast k \<longleftrightarrow> unat (sb_len b) = sb_taken b len"
      using uk by (metis word_unat_eq_iff)
    have "sb_inv (snd (SBRemove b len))"
      using i h l le lz by (auto simp: SBRemove_def Let_def k_def [symmetric] nz hz sb_inv_def algebra_simps)
    moreover have "sb_contents (snd (SBRemove b len)) = drop (sb_taken b len) (sb_contents b)"
      using i h l le lz
      by (auto simp: SBRemove_def Let_def k_def [symmetric] nz hz sb_contents_def drop_take add.commute)
    ultimately show ?thesis
      using nz False by (auto simp: SBRemove_def Let_def k_def [symmetric] kw)
  qed
qed

subsection \<open>The send buffer is a bounded first-in first-out buffer\<close>

definition sb_fits :: "u8 list \<Rightarrow> bool" where
  "sb_fits xs \<longleftrightarrow> length xs < 2 ^ 64"

definition sb_put_op :: "send_buffer \<Rightarrow> u8 list \<Rightarrow> (nat \<times> send_buffer) res" where
  "sb_put_op b xs =
     andThen (SBPut b xs (of_nat (length xs))) (\<lambda>(r, b'). Inr (if r = - 2 then 0 else unat r, b'))"

definition sb_get_op :: "send_buffer \<Rightarrow> nat \<Rightarrow> (nat \<times> send_buffer) res" where
  "sb_get_op b k = (let (r, b') = SBRemove b (of_nat k) in Inr (if r = - 2 then 0 else unat r, b'))"

lemma room_result:
  assumes "n < 4294967296"
  shows "(if (if z then 0 else if n = 0 then - 2 else of_nat n :: u64) = - 2 then 0
          else unat (if z then 0 else if n = 0 then - 2 else of_nat n :: u64)) = (if z then 0 else n)"
proof -
  have u: "unat (of_nat n :: u64) = n" using assms by (simp add: unat_of_nat)
  have "(of_nat n :: u64) \<noteq> - 2"
  proof
    assume "(of_nat n :: u64) = - 2"
    then have "unat (of_nat n :: u64) = 18446744073709551614" by simp
    with u assms show False by simp
  qed
  then show ?thesis using u by simp
qed

lemma sb_put_law:
  assumes "sb_inv b" "sb_fits xs"
  shows "\<exists>n b'. sb_put_op b xs = Inr (n, b') \<and> sb_inv b' \<and> n \<le> length xs \<and>
           unat (sb_size b') = unat (sb_size b) \<and> sb_contents b' = sb_contents b @ take n xs"
proof -
  let ?len = "of_nat (length xs) :: u64"
  have len: "unat ?len = length xs" using assms(2) by (simp add: sb_fits_def unat_of_nat)
  from SBPut_spec [OF assms(1), of ?len xs] len obtain b' where b':
    "SBPut b xs ?len = Inr (if ?len = 0 then 0 else if sb_room b ?len = 0 then - 2
                            else of_nat (sb_room b ?len), b')"
    "sb_inv b'" "sb_contents b' = sb_contents b @ take (sb_room b ?len) xs" "sb_size b' = sb_size b"
    by auto
  have r: "sb_room b ?len < 4294967296" "sb_room b ?len \<le> length xs"
    using len unat_u32_less [of "sb_size b"] by (auto simp: sb_room_def)
  have z: "?len = 0 \<Longrightarrow> sb_room b ?len = 0" by (simp add: sb_room_def)
  have "sb_put_op b xs = Inr (sb_room b ?len, b')"
    using room_result [OF r(1), of "?len = 0"] z by (simp add: sb_put_op_def b'(1))
  with b' r show ?thesis by simp
qed

lemma sb_get_law:
  assumes "sb_inv b"
  shows "\<exists>n b'. sb_get_op b k = Inr (n, b') \<and> sb_inv b' \<and> n \<le> length (sb_contents b) \<and>
           unat (sb_size b') = unat (sb_size b) \<and> sb_contents b' = drop n (sb_contents b)"
proof -
  let ?len = "of_nat k :: u64"
  from SBRemove_spec [OF assms, of ?len] obtain b' where b':
    "SBRemove b ?len = (if ?len = 0 then 0 else if sb_taken b ?len = 0 then - 2
                        else of_nat (sb_taken b ?len), b')"
    "sb_inv b'" "sb_contents b' = drop (sb_taken b ?len) (sb_contents b)" "sb_size b' = sb_size b"
    by auto
  have r: "sb_taken b ?len < 4294967296" "sb_taken b ?len \<le> length (sb_contents b)"
    using unat_u32_less [of "sb_len b"] length_sb_contents [OF assms] by (auto simp: sb_taken_def)
  have z: "?len = 0 \<Longrightarrow> sb_taken b ?len = 0" by (simp add: sb_taken_def)
  have "sb_get_op b k = Inr (sb_taken b ?len, b')"
    using room_result [OF r(1), of "?len = 0"] z by (simp add: sb_get_op_def b'(1))
  with b' r show ?thesis by simp
qed

interpretation sbq: bounded_fifo sb_inv sb_fits sb_contents "\<lambda>b. unat (sb_size b)" sb_put_op sb_get_op
proof unfold_locales
  fix b xs assume "sb_inv b" "sb_fits xs"
  then show "\<exists>n q'. sb_put_op b xs = Inr (n, q') \<and> sb_inv q' \<and> n \<le> length xs \<and>
      unat (sb_size q') = unat (sb_size b) \<and> sb_contents q' = sb_contents b @ take n xs"
    by (rule sb_put_law)
next
  fix b k assume "sb_inv b"
  then show "\<exists>n q'. sb_get_op b k = Inr (n, q') \<and> sb_inv q' \<and> n \<le> length (sb_contents b) \<and>
      unat (sb_size q') = unat (sb_size b) \<and> sb_contents q' = drop n (sb_contents b)"
    by (rule sb_get_law)
next
  fix b assume "sb_inv b"
  then show "length (sb_contents b) \<le> unat (sb_size b)"
    by (auto simp: length_sb_contents) (auto simp: sb_inv_def)
qed

subsection \<open>Properties\<close>

text \<open>
  C6: The send buffer is a bounded first-in first-out byte buffer. Under every sequence of
  \<open>SBPut\<close> and \<open>SBRemove\<close> calls no call aborts, the bytes it held and the bytes accepted,
  in order, are the bytes released followed by the bytes it holds, and it never holds more than
  its size: data is neither lost, duplicated nor reordered by the moves inside the block.
\<close>

theorem send_buffer_fifo:
  assumes "sb_inv b" "\<forall>p\<in>set ops. op_fits sb_fits p"
  shows "\<exists>ins outs b'. fifo_run sb_contents sb_put_op sb_get_op b ops = Inr (ins, outs, b') \<and> sb_inv b' \<and>
    sb_contents b @ ins = outs @ sb_contents b' \<and>
    length (sb_contents b) + length ins \<le> length outs + unat (sb_size b)"
  using sbq.run_fifo [OF assms] sbq.run_bounded [OF assms] by blast

definition small_buf :: send_buffer where
  "small_buf = \<lparr>sb_data = [1, 2, 3, 0], sb_head = 0, head_off = 0, tail_off = 3, sb_len = 3,
     sb_cum_len = 6, sb_size = 4, sb_head_seq = 10, sb_init_seq = 7\<rparr>"

theorem send_buffer_fifo_witness:
  "\<exists>ins outs b'. fifo_run sb_contents sb_put_op sb_get_op small_buf [Get 2, Put [4, 5, 6], Get 1] =
      Inr (ins, outs, b') \<and> sb_inv b' \<and> sb_contents small_buf @ ins = outs @ sb_contents b'"
proof -
  have "sb_inv small_buf" "\<forall>p\<in>set [Get 2, Put [4, 5, 6], Get 1]. op_fits sb_fits p"
    by (simp_all add: sb_inv_def small_buf_def sb_fits_def)
  from send_buffer_fifo [OF this] show ?thesis by blast
qed

end
