(* ===== verification/Stream_Queue.thy ===== *)
theory Stream_Queue
  imports Fifo
begin

text \<open>
  The accept queue of a listening socket (\<open>cmt_stream_queue_t\<close>, \<open>create_stream_queue\<close>,
  \<open>stream_queue_is_empty\<close>, \<open>stream_enqueue\<close>, \<open>stream_dequeue\<close> of
  \<open>src/tcp_buffer.c\<close> and \<open>include/tcp_buffer.h\<close>): an array of \<open>_capacity + 1\<close>
  stream pointers with a head and a tail index. \<open>NextIndex\<close> is called by the code and
  defined nowhere in the repository, so it is a parameter; the locale \<open>next_index\<close> states
  the behaviour the code relies on, the cyclic successor up to the capacity.
\<close>

record 'a stream_queue =
  sq_capacity :: u32
  sq_head :: u32
  sq_tail :: u32
  sq_q :: "'a option list"

text \<open>A null pointer is \<open>None\<close>; \<open>mem\<close> is the uninitialised array the pool returns.\<close>

definition create_stream_queue :: "u32 \<Rightarrow> 'a option list option \<Rightarrow> 'a stream_queue option" where
  "create_stream_queue capacity mem =
     (case mem of
        None \<Rightarrow> None
      | Some q \<Rightarrow> Some \<lparr>sq_capacity = capacity, sq_head = 0, sq_tail = 0, sq_q = q\<rparr>)"

definition stream_queue_is_empty :: "'a stream_queue \<Rightarrow> bool" where
  "stream_queue_is_empty sq \<longleftrightarrow> sq_head sq = sq_tail sq"

definition stream_enqueue ::
  "(u32 \<Rightarrow> u32 \<Rightarrow> u32) \<Rightarrow> 'a stream_queue \<Rightarrow> 'a \<Rightarrow> (int \<times> 'a stream_queue) res" where
  "stream_enqueue NextIndex sq stream =
     (let h = sq_head sq; t = sq_tail sq; nt = NextIndex (sq_capacity sq) t in
      if nt \<noteq> h then
        (if unat t < length (sq_q sq)
         then Inr (0, sq\<lparr>sq_q := (sq_q sq)[unat t := Some stream], sq_tail := nt\<rparr>)
         else Inl OutOfBounds)
      else Inr (- 1, sq))"

definition stream_dequeue ::
  "(u32 \<Rightarrow> u32 \<Rightarrow> u32) \<Rightarrow> 'a stream_queue \<Rightarrow> ('a option \<times> 'a stream_queue) res" where
  "stream_dequeue NextIndex sq =
     (let h = sq_head sq; t = sq_tail sq in
      if h \<noteq> t then
        (if unat h < length (sq_q sq)
         then (let stream = sq_q sq ! unat h
               in c_assert (stream \<noteq> None) (stream, sq\<lparr>sq_head := NextIndex (sq_capacity sq) h\<rparr>))
         else Inl OutOfBounds)
      else Inr (None, sq))"

subsection \<open>Contents and invariant\<close>

definition sq_slots :: "'a stream_queue \<Rightarrow> nat" where
  "sq_slots sq = Suc (unat (sq_capacity sq))"

definition sq_count :: "'a stream_queue \<Rightarrow> nat" where
  "sq_count sq = (unat (sq_tail sq) + sq_slots sq - unat (sq_head sq)) mod sq_slots sq"

definition sq_cells :: "'a stream_queue \<Rightarrow> 'a option list" where
  "sq_cells sq = cyc_slice (sq_q sq) (unat (sq_head sq)) (sq_count sq)"

definition sq_contents :: "'a stream_queue \<Rightarrow> 'a list" where
  "sq_contents sq = map the (sq_cells sq)"

definition sq_inv :: "'a stream_queue \<Rightarrow> bool" where
  "sq_inv sq \<longleftrightarrow> length (sq_q sq) = sq_slots sq \<and> unat (sq_head sq) < sq_slots sq \<and>
     unat (sq_tail sq) < sq_slots sq \<and> None \<notin> set (sq_cells sq)"

lemma sq_count_less: "sq_count sq < sq_slots sq"
  by (simp add: sq_count_def sq_slots_def)

lemma create_stream_queue_inv:
  "create_stream_queue capacity mem = Some sq \<Longrightarrow> length (the mem) = Suc (unat capacity) \<Longrightarrow>
    sq_inv sq \<and> sq_contents sq = []"
  by (auto simp: create_stream_queue_def sq_inv_def sq_slots_def sq_contents_def sq_cells_def
      sq_count_def split: option.splits)

lemma cyc_dist_if:
  assumes "h < N" "t < (N :: nat)"
  shows "(t + N - h) mod N = (if h \<le> t then t - h else t + N - h)"
proof (cases "h \<le> t")
  case True
  then have "t + N - h = (t - h) + N" by simp
  then have "(t + N - h) mod N = (t - h) mod N" by simp
  with True assms show ?thesis by simp
next
  case False
  with assms show ?thesis by simp
qed

lemma suc_mod_if: "t < N \<Longrightarrow> Suc t mod N = (if Suc t = N then 0 else Suc t)"
  by (cases "Suc t = N") simp_all

lemma cyc_distance:
  assumes "h < N" "t < (N :: nat)"
  shows "(h + (t + N - h) mod N) mod N = t"
    and "Suc ((t + N - h) mod N) < N \<Longrightarrow> (Suc t mod N + N - h) mod N = Suc ((t + N - h) mod N)"
    and "Suc t mod N = h \<longleftrightarrow> Suc ((t + N - h) mod N) = N"
    and "h \<noteq> t \<Longrightarrow> (t + N - h) mod N = Suc ((t + N - Suc h mod N) mod N)"
proof -
  have l: "Suc t mod N < N" "Suc h mod N < N" using assms by simp_all
  note d = cyc_dist_if [OF assms] cyc_dist_if [OF assms(1) l(1)] cyc_dist_if [OF l(2) assms(2)]
    suc_mod_if [OF assms(1)] suc_mod_if [OF assms(2)]
  show "(h + (t + N - h) mod N) mod N = t"
    using assms unfolding d(1) by (cases "h \<le> t") simp_all
  show "Suc ((t + N - h) mod N) < N \<Longrightarrow> (Suc t mod N + N - h) mod N = Suc ((t + N - h) mod N)"
    using assms unfolding d(1,2) unfolding d(5) by (auto split: if_splits)
  show "Suc t mod N = h \<longleftrightarrow> Suc ((t + N - h) mod N) = N"
    using assms unfolding d(1) unfolding d(5) by auto
  show "h \<noteq> t \<Longrightarrow> (t + N - h) mod N = Suc ((t + N - Suc h mod N) mod N)"
    using assms unfolding d(1,3) unfolding d(4) by auto
qed

lemma sq_empty_iff:
  assumes "sq_inv sq"
  shows "stream_queue_is_empty sq \<longleftrightarrow> sq_contents sq = []"
proof -
  have l: "unat (sq_head sq) < sq_slots sq" "unat (sq_tail sq) < sq_slots sq"
    using assms by (auto simp: sq_inv_def)
  have "sq_contents sq = [] \<longleftrightarrow> sq_count sq = 0"
    by (simp add: sq_contents_def sq_cells_def cyc_slice_def)
  also have "\<dots> \<longleftrightarrow> unat (sq_head sq) = unat (sq_tail sq)"
    using l unfolding sq_count_def cyc_dist_if [OF l] by auto
  finally show ?thesis by (simp add: stream_queue_is_empty_def word_unat_eq_iff)
qed

subsection \<open>The laws of the queue\<close>

locale next_index =
  fixes NextIndex :: "u32 \<Rightarrow> u32 \<Rightarrow> u32"
  assumes next_law: "unat i \<le> unat cap \<Longrightarrow> unat (NextIndex cap i) = Suc (unat i) mod Suc (unat cap)"
begin

lemma enqueue_full_iff:
  "sq_inv sq \<Longrightarrow> NextIndex (sq_capacity sq) (sq_tail sq) = sq_head sq \<longleftrightarrow>
    Suc (sq_count sq) = sq_slots sq"
  using next_law [of "sq_tail sq" "sq_capacity sq"] cyc_distance(3) [of "unat (sq_head sq)" "sq_slots sq" "unat (sq_tail sq)"]
  by (simp add: sq_inv_def sq_slots_def sq_count_def word_unat_eq_iff)

lemma enqueue_spec:
  assumes inv: "sq_inv sq"
  shows "\<exists>sq'. stream_enqueue NextIndex sq x =
             Inr (if length (sq_contents sq) < unat (sq_capacity sq) then 0 else - 1, sq') \<and>
           sq_inv sq' \<and> sq_capacity sq' = sq_capacity sq \<and>
           sq_contents sq' = (if length (sq_contents sq) < unat (sq_capacity sq)
                              then sq_contents sq @ [x] else sq_contents sq)"
proof (cases "Suc (sq_count sq) = sq_slots sq")
  case True
  with enqueue_full_iff [OF inv] inv show ?thesis
    by (simp add: stream_enqueue_def Let_def sq_contents_def sq_cells_def sq_slots_def)
next
  case False
  define N where "N = sq_slots sq"
  define sq' where "sq' = sq\<lparr>sq_q := (sq_q sq)[unat (sq_tail sq) := Some x],
                              sq_tail := NextIndex (sq_capacity sq) (sq_tail sq)\<rparr>"
  have i: "length (sq_q sq) = N" "unat (sq_head sq) < N" "unat (sq_tail sq) < N"
    using inv by (auto simp: sq_inv_def N_def)
  have c: "Suc (sq_count sq) < N" using False sq_count_less [of sq] by (simp add: N_def)
  have t': "unat (sq_tail sq') = Suc (unat (sq_tail sq)) mod N"
    using next_law [of "sq_tail sq" "sq_capacity sq"] i(3) by (simp add: sq'_def N_def sq_slots_def)
  have slots': "sq_slots sq' = N" "sq_head sq' = sq_head sq"
    by (simp_all add: sq'_def sq_slots_def N_def)
  have cnt': "sq_count sq' = Suc (sq_count sq)"
    using cyc_distance(2) [OF i(2,3)] c by (simp add: sq_count_def slots' t' flip: N_def)
  have tail: "unat (sq_tail sq) = (unat (sq_head sq) + sq_count sq) mod N"
    using cyc_distance(1) [OF i(2,3)] by (simp add: sq_count_def N_def)
  have cells: "sq_cells sq' = sq_cells sq @ [Some x]"
    using cyc_slice_push [of "sq_count sq" "sq_q sq" "unat (sq_head sq)" "Some x"] c i(1)
    by (simp add: sq_cells_def cnt' slots'(2)) (simp add: sq'_def tail i(1))
  have "sq_inv sq'"
    using inv cells i t' c by (simp add: sq_inv_def slots') (simp add: sq'_def)
  moreover have "stream_enqueue NextIndex sq x = Inr (0, sq')"
    using enqueue_full_iff [OF inv] False i by (simp add: stream_enqueue_def Let_def sq'_def)
  moreover have "length (sq_contents sq) < unat (sq_capacity sq)"
    using c by (simp add: sq_contents_def sq_cells_def N_def sq_slots_def)
  ultimately show ?thesis using cells by (simp add: sq_contents_def) (simp add: sq'_def)
qed

lemma dequeue_spec:
  assumes inv: "sq_inv sq"
  shows "\<exists>sq'. stream_dequeue NextIndex sq =
             Inr (if sq_contents sq = [] then None else Some (hd (sq_contents sq)), sq') \<and>
           sq_inv sq' \<and> sq_capacity sq' = sq_capacity sq \<and> sq_contents sq' = tl (sq_contents sq)"
proof (cases "sq_head sq = sq_tail sq")
  case True
  then show ?thesis using inv sq_empty_iff [OF inv]
    by (simp add: stream_dequeue_def Let_def stream_queue_is_empty_def)
next
  case False
  define N where "N = sq_slots sq"
  define sq' where "sq' = sq\<lparr>sq_head := NextIndex (sq_capacity sq) (sq_head sq)\<rparr>"
  have i: "length (sq_q sq) = N" "unat (sq_head sq) < N" "unat (sq_tail sq) < N"
    using inv by (auto simp: sq_inv_def N_def)
  have ne: "unat (sq_head sq) \<noteq> unat (sq_tail sq)" using False by (simp add: word_unat_eq_iff)
  have h': "unat (sq_head sq') = Suc (unat (sq_head sq)) mod N"
    using next_law [of "sq_head sq" "sq_capacity sq"] i(2) by (simp add: sq'_def N_def sq_slots_def)
  have same: "sq_slots sq' = N" "sq_tail sq' = sq_tail sq" "sq_q sq' = sq_q sq"
    by (simp_all add: sq'_def sq_slots_def N_def)
  have cnt: "sq_count sq = Suc (sq_count sq')"
    using cyc_distance(4) [OF i(2,3) ne] by (simp add: sq_count_def same h' flip: N_def)
  have cells: "sq_cells sq = sq_q sq ! unat (sq_head sq) # sq_cells sq'"
    using i by (simp add: sq_cells_def cnt cyc_slice_pop same h')
  have "sq_inv sq'"
    using inv cells i h' by (auto simp: sq_inv_def same N_def)
  moreover have "sq_q sq ! unat (sq_head sq) \<noteq> None"
    using inv cells unfolding sq_inv_def by (metis list.set_intros(1))
  moreover have "stream_dequeue NextIndex sq = Inr (sq_q sq ! unat (sq_head sq), sq')"
    using calculation False i by (simp add: stream_dequeue_def Let_def sq'_def c_assert_def)
  ultimately show ?thesis using cells by (auto simp: sq_contents_def) (simp add: sq'_def)
qed

end

subsection \<open>The accept queue as a bounded first-in first-out buffer\<close>

definition sq_fits :: "'a list \<Rightarrow> bool" where
  "sq_fits xs \<longleftrightarrow> length xs \<le> 1"

definition sq_put_op ::
  "(u32 \<Rightarrow> u32 \<Rightarrow> u32) \<Rightarrow> 'a stream_queue \<Rightarrow> 'a list \<Rightarrow> (nat \<times> 'a stream_queue) res" where
  "sq_put_op NextIndex sq xs =
     (case xs of
        [] \<Rightarrow> Inr (0, sq)
      | x # _ \<Rightarrow> andThen (stream_enqueue NextIndex sq x) (\<lambda>(r, sq'). Inr (if r = 0 then 1 else 0, sq')))"

text \<open>A call with \<open>0\<close> is no call at all; the stream a call returns is what it hands out.\<close>

definition sq_serve_op ::
  "(u32 \<Rightarrow> u32 \<Rightarrow> u32) \<Rightarrow> 'a stream_queue \<Rightarrow> nat \<Rightarrow> ('a list \<times> 'a stream_queue) res" where
  "sq_serve_op NextIndex sq k =
     (if k = 0 then Inr ([], sq)
      else andThen (stream_dequeue NextIndex sq) (\<lambda>(stream, sq').
        Inr (case stream of None \<Rightarrow> [] | Some x \<Rightarrow> [x], sq')))"

definition one_at_a_time :: "nat \<Rightarrow> nat \<Rightarrow> nat" where
  "one_at_a_time k n = (if k = 0 then 0 else min 1 n)"

sublocale next_index \<subseteq> accept: serving_fifo sq_inv sq_fits sq_contents
  "\<lambda>sq. unat (sq_capacity sq)" one_at_a_time "sq_put_op NextIndex" "sq_serve_op NextIndex"
proof unfold_locales
  fix sq :: "'a stream_queue" and xs :: "'a list"
  assume inv: "sq_inv sq" and fits: "sq_fits xs"
  let ?room = "unat (sq_capacity sq) - length (sq_contents sq)"
  show "\<exists>q'. sq_put_op NextIndex sq xs = Inr (min (length xs) ?room, q') \<and> sq_inv q' \<and>
      unat (sq_capacity q') = unat (sq_capacity sq) \<and> sq_contents q' = sq_contents sq @ take ?room xs"
  proof (cases xs)
    case Nil
    then show ?thesis using inv by (simp add: sq_put_op_def)
  next
    case (Cons x ys)
    then have xs: "xs = [x]" using fits by (simp add: sq_fits_def)
    from enqueue_spec [OF inv, of x] obtain sq' where
      "stream_enqueue NextIndex sq x =
         Inr (if length (sq_contents sq) < unat (sq_capacity sq) then 0 else - 1, sq')"
      "sq_inv sq'" "sq_capacity sq' = sq_capacity sq"
      "sq_contents sq' = (if length (sq_contents sq) < unat (sq_capacity sq)
                          then sq_contents sq @ [x] else sq_contents sq)" by blast
    then show ?thesis
      by (cases "length (sq_contents sq) < unat (sq_capacity sq)") (simp_all add: sq_put_op_def xs min_def take_Cons')
  qed
next
  fix sq :: "'a stream_queue" and k :: nat
  assume inv: "sq_inv sq"
  from dequeue_spec [OF inv] obtain sq' where
    "stream_dequeue NextIndex sq =
       Inr (if sq_contents sq = [] then None else Some (hd (sq_contents sq)), sq')"
    "sq_inv sq'" "sq_capacity sq' = sq_capacity sq" "sq_contents sq' = tl (sq_contents sq)" by blast
  with inv show "\<exists>q'. sq_serve_op NextIndex sq k =
      Inr (take (one_at_a_time k (length (sq_contents sq))) (sq_contents sq), q') \<and> sq_inv q' \<and>
      unat (sq_capacity q') = unat (sq_capacity sq) \<and>
      sq_contents q' = drop (one_at_a_time k (length (sq_contents sq))) (sq_contents sq)"
    by (cases "sq_contents sq") (auto simp: sq_serve_op_def one_at_a_time_def min_def)
next
  fix sq :: "'a stream_queue"
  assume "sq_inv sq"
  then show "length (sq_contents sq) \<le> unat (sq_capacity sq)"
    using sq_count_less [of sq] by (simp add: sq_contents_def sq_cells_def sq_slots_def)
qed

context next_index
begin

lemmas accept_run = accept.serve_refines accept.room_law

end

text \<open>The hypothesis can hold: the cyclic successor.\<close>

definition cyclic_succ :: "u32 \<Rightarrow> u32 \<Rightarrow> u32" where
  "cyclic_succ cap i = (if i = cap then 0 else i + 1)"

interpretation cyc: next_index cyclic_succ
proof
  fix i cap :: u32
  assume le: "unat i \<le> unat cap"
  show "unat (cyclic_succ cap i) = Suc (unat i) mod Suc (unat cap)"
  proof (cases "i = cap")
    case False
    with le have "unat i < unat cap" by (metis nat_less_le word_unat_eq_iff)
    with False show ?thesis
      using unat_u32_less [of cap] by (simp add: cyclic_succ_def unat_add_no_wrap)
  qed (simp add: cyclic_succ_def)
qed

subsection \<open>Properties\<close>

text \<open>
  C23: The accept queue is a bounded first-in first-out queue, for every \<open>NextIndex\<close> that is
  the cyclic successor on the slots: under every sequence of enqueues and dequeues no access
  leaves the array and no assertion fails, an enqueue is refused exactly when \<open>_capacity\<close> streams
  are stored, every dequeue returns the oldest stored stream, and null exactly when there is none:
  the streams accepted and the streams returned are those of the same calls on a list.
\<close>

theorem accept_queue_fifo:
  assumes "\<forall>cap i. unat i \<le> unat cap \<longrightarrow> unat (NextIndex cap i) = Suc (unat i) mod Suc (unat cap)"
    and "sq_inv q" "\<forall>p\<in>set ops. op_fits sq_fits p"
  shows "\<exists>ins outs q'. serve_run (sq_put_op NextIndex) (sq_serve_op NextIndex) q ops = Inr (ins, outs, q') \<and>
    sq_inv q' \<and> spec_run (unat (sq_capacity q)) one_at_a_time (sq_contents q) ops = (ins, outs, sq_contents q') \<and>
    sq_contents q @ ins = outs @ sq_contents q' \<and>
    length (sq_contents q) + length ins \<le> length outs + unat (sq_capacity q)"
proof -
  have n: "next_index NextIndex" using assms(1) by unfold_locales blast
  obtain ins outs q' where "serve_run (sq_put_op NextIndex) (sq_serve_op NextIndex) q ops = Inr (ins, outs, q')"
    "sq_inv q'" and s: "spec_run (unat (sq_capacity q)) one_at_a_time (sq_contents q) ops = (ins, outs, sq_contents q')"
    using next_index.accept_run(1) [OF n assms(2,3)] by blast
  then show ?thesis
    using spec_run_fifo [OF s] spec_run_room [OF s next_index.accept_run(2) [OF n assms(2)]] by blast
qed

theorem accept_queue_fifo_witness:
  "\<exists>q'. serve_run (sq_put_op cyclic_succ) (sq_serve_op cyclic_succ)
      \<lparr>sq_capacity = 1, sq_head = 0, sq_tail = 0, sq_q = [None, None]\<rparr> [Put [7 :: nat], Put [8], Get 1, Put [9]] =
      Inr ([7, 9], [7], q') \<and> sq_inv q' \<and> sq_contents q' = [9]"
proof -
  let ?q = "\<lparr>sq_capacity = 1, sq_head = 0, sq_tail = 0, sq_q = [None, None :: nat option]\<rparr>"
  have q: "sq_inv ?q" "sq_contents ?q = []"
    by (simp_all add: sq_inv_def sq_slots_def sq_cells_def sq_count_def sq_contents_def)
  have n: "\<forall>cap i. unat i \<le> unat cap \<longrightarrow> unat (cyclic_succ cap i) = Suc (unat i) mod Suc (unat cap)"
    using cyc.next_law by blast
  have f: "\<forall>p\<in>set [Put [7], Put [8], Get 1, Put [9 :: nat]]. op_fits sq_fits p" by (simp add: sq_fits_def)
  have "spec_run (unat (sq_capacity ?q)) one_at_a_time (sq_contents ?q) [Put [7], Put [8], Get 1, Put [9]] = ([7, 9], [7], [9])"
    unfolding q(2) by code_simp
  then show ?thesis using accept_queue_fifo [OF n q(1) f] by auto
qed

end
