(* ===== verification/Stream_Hash.thy ===== *)
theory Stream_Hash
  imports Prelude
begin

text \<open>
  The hash tables of \<open>src/tcp_stream_hash.c\<close> and \<open>include/tcp_stream_hash.h\<close>: the
  generic table (\<open>ht_search\<close>, \<open>ht_insert\<close>, \<open>ht_remove\<close>), the tables of streams and
  listeners, and the hash and equality functions the tables are created with. A bucket is the
  list of the pointers it chains, first to last; \<open>key\<close> reads the object a pointer points to. A
  pointer is inserted at most once: linking a cell that is in the chain would make it a cycle,
  which no list is.
\<close>

subsection \<open>Keys, hashes, equality\<close>

record flow =
  saddr :: u32
  daddr :: u32
  sport :: u16
  dport :: u16

definition NUM_BINS_FLOWS :: nat where "NUM_BINS_FLOWS = 131072"
definition NUM_BINS_LISTENER :: nat where "NUM_BINS_LISTENER = 1024"

text \<open>The twelve bytes from \<open>saddr\<close> on, in the memory order of a little-endian host.\<close>

definition le_bytes32 :: "u32 \<Rightarrow> u8 list" where
  "le_bytes32 w = [ucast w, ucast (drop_bit 8 w), ucast (drop_bit 16 w), ucast (drop_bit 24 w)]"

definition le_bytes16 :: "u16 \<Rightarrow> u8 list" where
  "le_bytes16 w = [ucast w, ucast (drop_bit 8 w)]"

definition flow_bytes :: "'a flow_scheme \<Rightarrow> u8 list" where
  "flow_bytes f = le_bytes32 (saddr f) @ le_bytes32 (daddr f) @ le_bytes16 (sport f) @ le_bytes16 (dport f)"

text \<open>\<open>key[i]\<close> is a \<open>char\<close>, signed on the host, so it is sign-extended before it is added.\<close>

definition hash_byte :: "u32 \<Rightarrow> u8 \<Rightarrow> u32" where
  "hash_byte hash b =
     (let h1 = hash + scast b; h2 = h1 + push_bit 10 h1 in h2 XOR drop_bit 6 h2)"

definition hash_flow :: "'a flow_scheme \<Rightarrow> u32" where
  "hash_flow f =
     (let h0 = foldl hash_byte 0 (flow_bytes f);
          h1 = h0 + push_bit 3 h0;
          h2 = h1 XOR drop_bit 11 h1;
          h3 = h2 + push_bit 15 h2
      in h3 AND (of_nat NUM_BINS_FLOWS - 1))"

definition equal_flow :: "'a flow_scheme \<Rightarrow> 'b flow_scheme \<Rightarrow> bool" where
  "equal_flow f1 f2 \<longleftrightarrow> saddr f1 = saddr f2 \<and> sport f1 = sport f2 \<and> daddr f1 = daddr f2 \<and> dport f1 = dport f2"

text \<open>Listeners are hashed by the port their socket is bound to.\<close>

definition hash_listener :: "u16 \<Rightarrow> u32" where
  "hash_listener port = ucast port AND (of_nat NUM_BINS_LISTENER - 1)"

definition equal_listener :: "u16 \<Rightarrow> u16 \<Rightarrow> bool" where
  "equal_listener p1 p2 \<longleftrightarrow> p1 = p2"

subsection \<open>The tables\<close>

record 'p hashtable =
  ht_count :: u8
  bins :: u8
  table :: "nat \<Rightarrow> 'p list"

text \<open>
  \<open>create\<close> is given the two blocks its calls of \<open>cmt_palloc\<close> return, the header and the
  bucket array. The second test is \<open>if (unlikely(ht))\<close>, on the header that was just
  checked to be there, and not on the array.
\<close>

definition create_tcp_hashtable :: "unit option \<Rightarrow> unit option \<Rightarrow> nat \<Rightarrow> 'p hashtable option" where
  "create_tcp_hashtable hdr arr nbins =
     (case hdr of
        None \<Rightarrow> None
      | Some _ \<Rightarrow>
          if hdr \<noteq> None then None
          else Some \<lparr>ht_count = 0, bins = of_nat nbins, table = (\<lambda>_. [])\<rparr>)"

definition ht_search ::
  "('k \<Rightarrow> u32) \<Rightarrow> ('k \<Rightarrow> 'k \<Rightarrow> bool) \<Rightarrow> ('p \<Rightarrow> 'k) \<Rightarrow> 'p hashtable \<Rightarrow> 'k \<Rightarrow> 'p option" where
  "ht_search hash eq key ht it = find (\<lambda>walk. eq it (key walk)) (table ht (unat (hash it)))"

definition ht_insert ::
  "('k \<Rightarrow> u32) \<Rightarrow> ('p \<Rightarrow> 'k) \<Rightarrow> 'p hashtable \<Rightarrow> 'p \<Rightarrow> 'p hashtable" where
  "ht_insert hash key ht it =
     (let idx = unat (hash (key it))
      in ht\<lparr>table := (table ht)(idx := it # table ht idx), ht_count := ht_count ht + 1\<rparr>)"

definition ht_remove ::
  "('k \<Rightarrow> u32) \<Rightarrow> ('k \<Rightarrow> 'k \<Rightarrow> bool) \<Rightarrow> ('p \<Rightarrow> 'k) \<Rightarrow> 'p hashtable \<Rightarrow> 'k \<Rightarrow>
    'p option \<times> 'p hashtable" where
  "ht_remove hash eq key ht it =
     (let idx = unat (hash it) in
      case find (\<lambda>walk. eq it (key walk)) (table ht idx) of
        None \<Rightarrow> (None, ht)
      | Some walk \<Rightarrow> (Some walk, ht\<lparr>table := (table ht)(idx := remove1 walk (table ht idx))\<rparr>))"

text \<open>
  \<open>listen_ht_remove\<close>. The first cell of the chain is compared before it is known to exist; when
  it matches it is unlinked (\<open>ht->tqh_first\<close>, a member the table does not have, is read as the
  bucket's), and the loop still runs from it, looking one cell ahead. \<open>scan\<close> is that loop: it
  gives the cell before the match (which is what the function returns) and the chain after the
  unlinking. \<open>stream_ht_remove\<close> is the same text on a link \<open>ht_next\<close> that streams do not have.
\<close>

fun scan_remove :: "('p \<Rightarrow> bool) \<Rightarrow> 'p \<Rightarrow> 'p list \<Rightarrow> 'p option \<times> 'p list" where
  "scan_remove m walk [] = (None, [])"
| "scan_remove m walk (n # rest) =
     (if m n then (Some walk, rest)
      else let (r, chain) = scan_remove m n rest in (r, n # chain))"

definition listen_ht_remove :: "('p \<Rightarrow> u16) \<Rightarrow> 'p hashtable \<Rightarrow> u16 \<Rightarrow> ('p option \<times> 'p hashtable) res" where
  "listen_ht_remove key ht it =
     (let idx = unat (hash_listener it); m = (\<lambda>p. equal_listener (key p) it) in
      case table ht idx of
        [] \<Rightarrow> Inl NullDeref
      | w # ws \<Rightarrow>
          if m w then
            (case ws of
               [] \<Rightarrow> Inr (None, ht\<lparr>table := (table ht)(idx := [])\<rparr>)
             | n # rest \<Rightarrow>
                 if m n then Inr (Some w, ht\<lparr>table := (table ht)(idx := n # rest)\<rparr>)
                 else let (r, chain) = scan_remove m n rest
                      in Inr (r, ht\<lparr>table := (table ht)(idx := n # chain)\<rparr>))
          else let (r, chain) = scan_remove m w ws
               in Inr (r, ht\<lparr>table := (table ht)(idx := w # chain)\<rparr>))"

text \<open>
  \<open>stream_ht_insert\<close> and \<open>listen_ht_insert\<close> push at the front of the chain as
  \<open>ht_insert\<close> does. \<open>listen_ht_search\<close> walks the chain of the bucket. \<open>stream_ht_search\<close> computes
  the index and does not use it: it walks the chain of \<open>head\<close>, which is never assigned, so that
  chain, or the abort of reading it, is an argument.
\<close>

definition stream_ht_insert :: "('p \<Rightarrow> 'a flow_scheme) \<Rightarrow> 'p hashtable \<Rightarrow> 'p \<Rightarrow> 'p hashtable" where
  "stream_ht_insert key ht it =
     (let idx = unat (hash_flow (key it))
      in ht\<lparr>table := (table ht)(idx := it # table ht idx), ht_count := ht_count ht + 1\<rparr>)"

definition listen_ht_insert :: "('p \<Rightarrow> u16) \<Rightarrow> 'p hashtable \<Rightarrow> 'p \<Rightarrow> 'p hashtable" where
  "listen_ht_insert key ht it =
     (let idx = unat (hash_listener (key it))
      in ht\<lparr>table := (table ht)(idx := it # table ht idx), ht_count := ht_count ht + 1\<rparr>)"

definition stream_ht_search ::
  "('p \<Rightarrow> 'a flow_scheme) \<Rightarrow> 'p list res \<Rightarrow> 'b flow_scheme \<Rightarrow> 'p option res" where
  "stream_ht_search key head it =
     andThen head (\<lambda>chain. Inr (find (\<lambda>walk. equal_flow (key walk) it) chain))"

definition listen_ht_search :: "('p \<Rightarrow> u16) \<Rightarrow> 'p hashtable \<Rightarrow> u16 \<Rightarrow> 'p option" where
  "listen_ht_search key ht it =
     find (\<lambda>walk. equal_listener (key walk) it) (table ht (unat (hash_listener it)))"

subsection \<open>The contract of a table\<close>

text \<open>
  What the tables need of the functions they are created with: equality is an equivalence and
  equal keys have equal hashes. \<open>ht_ok\<close> says that every pointer sits in the bucket of its
  key, once, and that no two pointers have equal keys.
\<close>

definition ht_ok :: "('k \<Rightarrow> u32) \<Rightarrow> ('k \<Rightarrow> 'k \<Rightarrow> bool) \<Rightarrow> ('p \<Rightarrow> 'k) \<Rightarrow> 'p hashtable \<Rightarrow> bool" where
  "ht_ok hash eq key ht \<longleftrightarrow>
     (\<forall>i. distinct (table ht i)) \<and>
     (\<forall>i. \<forall>p\<in>set (table ht i). unat (hash (key p)) = i) \<and>
     (\<forall>i. \<forall>p\<in>set (table ht i). \<forall>q\<in>set (table ht i). eq (key p) (key q) \<longrightarrow> p = q)"

definition ht_members :: "'p hashtable \<Rightarrow> 'p set" where
  "ht_members ht = (\<Union>i. set (table ht i))"

definition ht_others :: "'p hashtable \<Rightarrow> nat \<Rightarrow> 'p set" where
  "ht_others ht i = {p. \<exists>j. j \<noteq> i \<and> p \<in> set (table ht j)}"

lemma in_ht_members: "p \<in> ht_members ht \<longleftrightarrow> (\<exists>i. p \<in> set (table ht i))"
  by (simp add: ht_members_def)

lemma members_split: "p \<in> ht_members ht \<longleftrightarrow> p \<in> set (table ht i) \<or> p \<in> ht_others ht i"
  by (auto simp: in_ht_members ht_others_def)

lemma members_update:
  "table ht' = (table ht)(i := xs) \<Longrightarrow> p \<in> ht_members ht' \<longleftrightarrow> p \<in> set xs \<or> p \<in> ht_others ht i"
  by (auto simp: in_ht_members ht_others_def split: if_splits)

lemma find_Some_iff_ex: "find P xs = Some x \<Longrightarrow> x \<in> set xs \<and> P x"
  by (induction xs) (auto split: if_splits)

lemma find_None_all: "find P xs = None \<longleftrightarrow> (\<forall>x\<in>set xs. \<not> P x)"
  by (induction xs) auto

lemma find_unique:
  assumes "x \<in> set xs" "P x" "\<forall>y\<in>set xs. P y \<longrightarrow> y = x"
  shows "find P xs = Some x"
proof (cases "find P xs")
  case None
  with assms show ?thesis unfolding find_None_all by blast
next
  case (Some y)
  with assms(3) show ?thesis by (blast dest: find_Some_iff_ex)
qed

locale hash_key =
  fixes hash :: "'k \<Rightarrow> u32" and eq :: "'k \<Rightarrow> 'k \<Rightarrow> bool" and nbins :: nat
  assumes eq_refl: "eq a a"
    and eq_sym: "eq a b \<Longrightarrow> eq b a"
    and eq_trans: "eq a b \<Longrightarrow> eq b c \<Longrightarrow> eq a c"
    and hash_cong: "eq a b \<Longrightarrow> hash a = hash b"
    and hash_bound: "unat (hash a) < nbins"
begin

lemma search_sound:
  "ht_search hash eq key ht it = Some p \<Longrightarrow> p \<in> ht_members ht \<and> eq it (key p)"
  by (auto simp: ht_search_def in_ht_members dest: find_Some_iff_ex)

lemma search_complete:
  assumes ok: "ht_ok hash eq key ht" and p: "p \<in> ht_members ht" "eq it (key p)"
  shows "ht_search hash eq key ht it = Some p"
proof -
  from p(1) obtain i where i: "p \<in> set (table ht i)" by (auto simp: in_ht_members)
  with ok have "unat (hash (key p)) = i" by (auto simp: ht_ok_def)
  with hash_cong [OF p(2)] i have b: "p \<in> set (table ht (unat (hash it)))" by simp
  have "\<forall>q\<in>set (table ht (unat (hash it))). eq it (key q) \<longrightarrow> q = p"
    using ok b p(2) unfolding ht_ok_def by (meson eq_sym eq_trans)
  with b p(2) show ?thesis unfolding ht_search_def
    by (intro find_unique [where P = "\<lambda>walk. eq it (key walk)"])
qed

lemma search_iff:
  assumes "ht_ok hash eq key ht"
  shows "ht_search hash eq key ht it = Some p \<longleftrightarrow> p \<in> ht_members ht \<and> eq it (key p)"
  by (auto dest: search_sound intro: search_complete [OF assms])

lemma insert_ok:
  assumes ok: "ht_ok hash eq key ht" and fresh: "ht_search hash eq key ht (key it) = None"
  shows "ht_ok hash eq key (ht_insert hash key ht it)"
proof -
  have none: "\<not> eq (key it) (key q)" if "q \<in> set (table ht (unat (hash (key it))))" for q
    using fresh that by (auto simp: ht_search_def find_None_all)
  then have "it \<notin> set (table ht (unat (hash (key it))))" using eq_refl by blast
  moreover have "\<not> eq (key q) (key it)" if "q \<in> set (table ht (unat (hash (key it))))" for q
    using none [OF that] eq_sym by blast
  ultimately show ?thesis using ok none by (simp add: ht_ok_def ht_insert_def Let_def)
qed

lemma insert_members:
  "p \<in> ht_members (ht_insert hash key ht it) \<longleftrightarrow> p = it \<or> p \<in> ht_members ht"
  using members_update [of "ht_insert hash key ht it" ht "unat (hash (key it))"]
    members_split [of p ht "unat (hash (key it))"]
  by (simp add: ht_insert_def Let_def)

lemma remove_ok:
  "ht_ok hash eq key ht \<Longrightarrow> ht_ok hash eq key (snd (ht_remove hash eq key ht it))"
  by (auto simp: ht_ok_def ht_remove_def Let_def split: option.splits)

lemma remove_spec:
  assumes ok: "ht_ok hash eq key ht"
  shows "fst (ht_remove hash eq key ht it) = ht_search hash eq key ht it"
    and "p \<in> ht_members (snd (ht_remove hash eq key ht it)) \<longleftrightarrow>
           p \<in> ht_members ht \<and> ht_search hash eq key ht it \<noteq> Some p"
proof -
  show "fst (ht_remove hash eq key ht it) = ht_search hash eq key ht it"
    by (auto simp: ht_remove_def ht_search_def Let_def split: option.splits)
  show "p \<in> ht_members (snd (ht_remove hash eq key ht it)) \<longleftrightarrow>
           p \<in> ht_members ht \<and> ht_search hash eq key ht it \<noteq> Some p"
  proof (cases "ht_search hash eq key ht it")
    case None
    then show ?thesis by (simp add: ht_remove_def ht_search_def Let_def)
  next
    case (Some w)
    let ?i = "unat (hash it)"
    have w: "w \<in> set (table ht ?i)" using Some by (auto simp: ht_search_def dest: find_Some_iff_ex)
    have only: "w \<notin> set (table ht i)" if "i \<noteq> ?i" for i
      using ok w that unfolding ht_ok_def by metis
    have d: "distinct (table ht ?i)" using ok by (simp add: ht_ok_def)
    have t: "table (snd (ht_remove hash eq key ht it)) = (table ht)(?i := remove1 w (table ht ?i))"
      using Some by (simp add: ht_remove_def ht_search_def Let_def)
    have "w \<notin> ht_others ht ?i" using only by (auto simp: ht_others_def)
    then show ?thesis
      using Some d unfolding members_update [OF t] members_split [of p ht ?i] by auto
  qed
qed

lemma search_after_remove:
  assumes ok: "ht_ok hash eq key ht"
  shows "ht_search hash eq key (snd (ht_remove hash eq key ht it)) it' =
           (if eq it it' then None else ht_search hash eq key ht it')"
proof -
  let ?ht' = "snd (ht_remove hash eq key ht it)"
  have ok': "ht_ok hash eq key ?ht'" by (rule remove_ok [OF ok])
  have "ht_search hash eq key ?ht' it' = Some p \<longleftrightarrow>
      \<not> eq it it' \<and> ht_search hash eq key ht it' = Some p" for p
    unfolding search_iff [OF ok'] remove_spec(2) [OF ok]
    using search_iff [OF ok, of it p] search_iff [OF ok, of it' p] eq_sym eq_trans by blast
  then show ?thesis by (metis not_None_eq)
qed

lemma search_after_insert:
  assumes ok: "ht_ok hash eq key ht" and fresh: "ht_search hash eq key ht (key it) = None"
  shows "ht_search hash eq key (ht_insert hash key ht it) it' =
           (if eq it' (key it) then Some it else ht_search hash eq key ht it')"
proof -
  note ok' = insert_ok [OF ok fresh]
  have "ht_search hash eq key (ht_insert hash key ht it) it' = Some p \<longleftrightarrow>
      (if eq it' (key it) then p = it else ht_search hash eq key ht it' = Some p)" for p
    unfolding search_iff [OF ok'] search_iff [OF ok] insert_members
    using fresh search_complete [OF ok, of p "key it"] eq_refl [of "key it"] eq_sym eq_trans
    by (metis option.distinct(1))
  then show ?thesis by (metis not_None_eq)
qed

end

subsection \<open>The tables of streams and listeners\<close>

lemma hash_flow_bound: "unat (hash_flow f) < NUM_BINS_FLOWS"
proof -
  have "unat (w AND 131071 :: u32) < 131072" for w
  proof -
    have "w AND 131071 \<le> (131071 :: u32)" by (rule word_and_le1)
    then show ?thesis by (simp add: unat_mono_le)
  qed
  then show ?thesis by (simp add: hash_flow_def Let_def NUM_BINS_FLOWS_def)
qed

lemma hash_listener_bound: "unat (hash_listener p) < NUM_BINS_LISTENER"
proof -
  have "ucast p AND 1023 \<le> (1023 :: u32)" by (rule word_and_le1)
  then show ?thesis by (simp add: hash_listener_def NUM_BINS_LISTENER_def unat_mono_le)
qed

lemma hash_flow_cong: "equal_flow f g \<Longrightarrow> hash_flow f = hash_flow g"
  by (simp add: equal_flow_def hash_flow_def flow_bytes_def)

interpretation flows: hash_key "hash_flow :: 'a flow_scheme \<Rightarrow> u32" equal_flow NUM_BINS_FLOWS
  by unfold_locales (auto simp: equal_flow_def hash_flow_bound intro: hash_flow_cong)

interpretation ports: hash_key hash_listener equal_listener NUM_BINS_LISTENER
  by unfold_locales (auto simp: equal_listener_def hash_listener_bound)

text \<open>The typed operations are instances of the generic ones.\<close>

lemma stream_ht_insert_generic: "stream_ht_insert key ht it = ht_insert hash_flow key ht it"
  by (simp add: stream_ht_insert_def ht_insert_def)

lemma listen_ht_insert_generic: "listen_ht_insert key ht it = ht_insert hash_listener key ht it"
  by (simp add: listen_ht_insert_def ht_insert_def)

lemma listen_ht_search_generic: "listen_ht_search key ht it = ht_search hash_listener equal_listener key ht it"
  unfolding listen_ht_search_def ht_search_def
  by (rule arg_cong [where f = "\<lambda>P. find P _"]) (auto simp: equal_listener_def)

text \<open>The scan unlinks the first match after the cell it starts from.\<close>

lemma scan_remove_chain:
  "snd (scan_remove m walk ns) = (case find m ns of None \<Rightarrow> ns | Some x \<Rightarrow> remove1 x ns)"
proof (induction ns arbitrary: walk)
  case (Cons n rest)
  show ?case
  proof (cases "m n")
    case False
    then have "find m rest = Some x \<Longrightarrow> x \<noteq> n" for x by (auto dest: find_Some_iff_ex)
    with False show ?thesis using Cons.IH [of n]
      by (auto simp: case_prod_unfold split: option.splits)
  qed simp
qed simp

lemma scan_remove_result:
  "fst (scan_remove m walk ns) = Some p \<Longrightarrow> p = walk \<or> (p \<in> set ns \<and> \<not> m p)"
  by (induction m walk ns rule: scan_remove.induct) (auto simp: case_prod_unfold Let_def split: if_splits)

lemma scan_none: "\<forall>q\<in>set ns. \<not> m q \<Longrightarrow> scan_remove m walk ns = (None, ns)"
  by (induction ns arbitrary: walk) auto

lemma find_own:
  "p \<in> set xs \<Longrightarrow> (\<And>q. q \<in> set xs \<Longrightarrow> m q \<longleftrightarrow> q = p) \<Longrightarrow> find m xs = Some p"
  by (induction xs) auto

lemma scan_own:
  assumes "\<And>q. q \<in> set ns \<Longrightarrow> m q \<longleftrightarrow> q = p" "p \<in> set ns" "walk \<noteq> p" "distinct ns"
  shows "snd (scan_remove m walk ns) = remove1 p ns" "fst (scan_remove m walk ns) \<noteq> Some p"
proof -
  have "find m ns = Some p" using assms(2,1) by (rule find_own)
  then show "snd (scan_remove m walk ns) = remove1 p ns" by (simp add: scan_remove_chain)
  show "fst (scan_remove m walk ns) \<noteq> Some p"
    using scan_remove_result [of m walk ns p] assms by auto
qed

text \<open>
  What the search of streams finds, wherever \<open>head\<close> points, has the flow it was asked for.
\<close>

lemma stream_search_sound:
  "stream_ht_search key head it = Inr (Some p) \<Longrightarrow> equal_flow (key p) it"
  by (auto simp: stream_ht_search_def andThen_Inr_iff dest: find_Some_iff_ex)

lemma listen_search_insert:
  "listen_ht_search key (listen_ht_insert key ht l) port =
     (if key l = port then Some l else listen_ht_search key ht port)"
  by (simp add: listen_ht_search_def listen_ht_insert_def Let_def equal_listener_def)

subsection \<open>Properties\<close>

text \<open>
  C32: Lookup of listeners. After any listeners that are not in the table are inserted, one after
  the other, the search for a port finds the last of them that is bound to it, and what it found
  before when there is none, whatever other ports share the bucket; every listener sits in the
  bucket of its port, within the array, and the count is the number of insertions modulo 2^8.
\<close>

theorem listener_lookup:
  assumes "distinct ls" "set ls \<inter> ht_members ht = {}"
    and "\<forall>i. \<forall>l\<in>set (table ht i). unat (hash_listener (key l)) = i"
  shows "listen_ht_search key (foldl (listen_ht_insert key) ht ls) port =
      (case filter (\<lambda>l. key l = port) (rev ls) of l # _ \<Rightarrow> Some l | [] \<Rightarrow> listen_ht_search key ht port) \<and>
    ht_members (foldl (listen_ht_insert key) ht ls) = set ls \<union> ht_members ht \<and>
    (\<forall>i. \<forall>l\<in>set (table (foldl (listen_ht_insert key) ht ls) i).
       unat (hash_listener (key l)) = i \<and> i < NUM_BINS_LISTENER) \<and>
    ht_count (foldl (listen_ht_insert key) ht ls) = ht_count ht + of_nat (length ls)"
  using assms
proof (induction ls rule: rev_induct)
  case Nil
  have "i < NUM_BINS_LISTENER" if "l \<in> set (table ht i)" for i l
    using Nil(3) that hash_listener_bound [of "key l"] by auto
  then show ?case using Nil by simp
next
  case (snoc l ls)
  let ?t = "foldl (listen_ht_insert key) ht ls"
  have IH: "listen_ht_search key ?t port =
      (case filter (\<lambda>l. key l = port) (rev ls) of l # _ \<Rightarrow> Some l | [] \<Rightarrow> listen_ht_search key ht port)"
    "ht_members ?t = set ls \<union> ht_members ht"
    "\<forall>i. \<forall>l\<in>set (table ?t i). unat (hash_listener (key l)) = i \<and> i < NUM_BINS_LISTENER"
    "ht_count ?t = ht_count ht + of_nat (length ls)"
    using snoc by auto
  have "ht_members (listen_ht_insert key ?t l) = insert l (ht_members ?t)"
    by (intro set_eqI) (simp add: listen_ht_insert_generic ports.insert_members)
  then have m: "ht_members (listen_ht_insert key ?t l) = set (ls @ [l]) \<union> ht_members ht" using IH(2) by auto
  have t: "table (listen_ht_insert key ?t l) = (table ?t)(unat (hash_listener (key l)) := l # table ?t (unat (hash_listener (key l))))"
    "ht_count (listen_ht_insert key ?t l) = ht_count ?t + 1"
    by (simp_all add: listen_ht_insert_def Let_def)
  have b: "\<forall>i. \<forall>x\<in>set (table (listen_ht_insert key ?t l) i). unat (hash_listener (key x)) = i \<and> i < NUM_BINS_LISTENER"
    unfolding t using IH(3) hash_listener_bound [of "key l"] by auto
  have c: "listen_ht_search key (listen_ht_insert key ?t l) port =
      (case filter (\<lambda>l. key l = port) (rev (ls @ [l])) of l # _ \<Rightarrow> Some l | [] \<Rightarrow> listen_ht_search key ht port)"
    unfolding listen_search_insert IH(1) by simp
  show ?case using m b c t(2) IH(4) by (simp add: add.assoc)
qed

lemma listener_lookup_witness:
  "listen_ht_search (\<lambda>l. word_of_nat (l mod 3)) (foldl (listen_ht_insert (\<lambda>l. word_of_nat (l mod 3)))
     \<lparr>ht_count = 0, bins = 0, table = (\<lambda>_. [])\<rparr> [1, 2, 4]) 1 = Some (4 :: nat)"
  using listener_lookup [of "[1, 2, 4]" "\<lparr>ht_count = 0, bins = 0, table = (\<lambda>_. [])\<rparr>" "\<lambda>l. word_of_nat (l mod 3)" 1]
  by (simp add: ht_members_def)

text \<open>
  The generic table, for the flows as for the ports: in a table whose entries have distinct keys
  and sit in their buckets, after an entry with a new key is inserted a search for its key finds it
  and every other search is unchanged, and after a removal the key is not found and every other
  search is unchanged; both keep the table well formed.
\<close>

theorem generic_table_lookup:
  fixes key :: "'p \<Rightarrow> 'a flow_scheme" and k k' :: "'a flow_scheme"
  assumes "ht_ok hash_flow equal_flow key ht" "ht_search hash_flow equal_flow key ht (key it) = None"
  shows "ht_search hash_flow equal_flow key (ht_insert hash_flow key ht it) k =
      (if equal_flow k (key it) then Some it else ht_search hash_flow equal_flow key ht k) \<and>
    ht_search hash_flow equal_flow key (snd (ht_remove hash_flow equal_flow key ht k')) k =
      (if equal_flow k' k then None else ht_search hash_flow equal_flow key ht k) \<and>
    ht_ok hash_flow equal_flow key (ht_insert hash_flow key ht it) \<and>
    ht_ok hash_flow equal_flow key (snd (ht_remove hash_flow equal_flow key ht k'))"
  using flows.search_after_insert [OF assms, of k] flows.search_after_remove [OF assms(1)]
    flows.insert_ok [OF assms] flows.remove_ok [OF assms(1)] by simp

definition one_flow :: "nat \<Rightarrow> flow" where
  "one_flow p = \<lparr>saddr = 1, daddr = 2, sport = of_nat p, dport = 4\<rparr>"

theorem generic_table_lookup_witness:
  "ht_search hash_flow equal_flow one_flow
     (ht_insert hash_flow one_flow \<lparr>ht_count = 0, bins = 0, table = (\<lambda>_. [])\<rparr> 5) (one_flow 5) = Some 5"
  using generic_table_lookup [of one_flow "\<lparr>ht_count = 0, bins = 0, table = (\<lambda>_. [])\<rparr>" 5 "one_flow 5", THEN conjunct1]
  by (simp add: ht_ok_def ht_search_def equal_flow_def)

text \<open>
  What \<open>listen_ht_remove\<close> does with a listener that is in the table: it is unlinked and no other,
  so that its port is not found and the others are; but the value returned is the listener before
  it in the chain or null, never the removed one, and the counter is not lowered. On an empty
  bucket it dereferences null.
\<close>

theorem listen_ht_remove_unlinks:
  assumes ok: "ht_ok hash_listener equal_listener key ht" and p: "p \<in> ht_members ht"
  shows "(\<exists>r ht'. listen_ht_remove key ht (key p) = Inr (r, ht') \<and> r \<noteq> Some p \<and> ht_count ht' = ht_count ht \<and>
      listen_ht_search key ht' k = (if key p = k then None else listen_ht_search key ht k)) \<and>
    (table ht (unat (hash_listener k)) = [] \<longrightarrow> listen_ht_remove key ht k = Inl NullDeref)"
proof (rule conjI)
  let ?i = "unat (hash_listener (key p))" and ?m = "\<lambda>q. equal_listener (key q) (key p)"
  have inb: "p \<in> set (table ht ?i)" using ok p by (auto simp: ht_ok_def in_ht_members)
  have own: "?m q \<longleftrightarrow> q = p" if "q \<in> set (table ht ?i)" for q
    using ok inb that ports.eq_refl unfolding ht_ok_def by blast
  have d: "distinct (table ht ?i)" using ok by (simp add: ht_ok_def)
  let ?ht' = "ht\<lparr>table := (table ht)(?i := remove1 p (table ht ?i))\<rparr>"
  have "\<exists>r. listen_ht_remove key ht (key p) = Inr (r, ?ht') \<and> r \<noteq> Some p"
  proof (cases "table ht ?i")
    case (Cons w ws)
    show ?thesis
    proof (cases "w = p")
      case True
      have none: "\<forall>q\<in>set ws. \<not> ?m q" using own d True Cons by auto
      show ?thesis
      proof (cases ws)
        case (Cons n rest)
        have "scan_remove ?m n rest = (None, rest)" using none Cons by (intro scan_none) simp
        then show ?thesis using none True Cons \<open>table ht ?i = w # ws\<close>
          by (simp add: listen_ht_remove_def Let_def equal_listener_def)
      qed (use True Cons in \<open>simp add: listen_ht_remove_def Let_def equal_listener_def\<close>)
    next
      case False
      have s: "snd (scan_remove ?m w ws) = remove1 p ws" "fst (scan_remove ?m w ws) \<noteq> Some p"
        using scan_own [of ws ?m p w] own inb d Cons False by auto
      have "\<not> ?m w" using own False Cons by auto
      then show ?thesis using s False Cons by (auto simp: listen_ht_remove_def Let_def split: prod.splits)
    qed
  qed (use inb in simp)
  moreover have "ht_remove hash_listener equal_listener key ht (key p) = (Some p, ?ht')"
  proof -
    have "find (\<lambda>q. equal_listener (key p) (key q)) (table ht ?i) = Some p"
      using find_own [OF inb, of "\<lambda>q. equal_listener (key p) (key q)"] own ports.eq_sym by blast
    then show ?thesis by (simp add: ht_remove_def Let_def)
  qed
  ultimately show "\<exists>r ht'. listen_ht_remove key ht (key p) = Inr (r, ht') \<and> r \<noteq> Some p \<and> ht_count ht' = ht_count ht \<and>
      listen_ht_search key ht' k = (if key p = k then None else listen_ht_search key ht k)"
    using ports.search_after_remove [OF ok, of "key p" k] unfolding listen_ht_search_generic
    by (auto simp: equal_listener_def)
  show "table ht (unat (hash_listener k)) = [] \<longrightarrow> listen_ht_remove key ht k = Inl NullDeref"
    by (simp add: listen_ht_remove_def Let_def)
qed

end
