(* ===== verification/Tcp_Types.thy ===== *)
theory Tcp_Types
  imports Tcp_Seq Send_Buffer Stream_Queue Stream_Hash
begin

text \<open>
  The data of the TCP core: the enumerations, constants and structs of \<open>include/tcp.h\<close>,
  \<open>include/timer.h\<close>, \<open>include/tcp_buffer.h\<close> and the per-core manager of
  \<open>include/cmtTCP.h\<close>. Streams and listeners are objects in a store, named by their
  addresses; the manager's lists hold those addresses, since its linked lists chain the objects
  themselves. The struct members of the name \<open>*_link\<close> and \<open>*_list\<close> that only chain are
  represented by these lists. The code spells the pointers to the send and receive parts of a
  stream both \<open>sndvar\<close>/\<open>rcvvar\<close> and \<open>snd\<close>/\<open>rcv\<close>, the state \<open>CLOSE\<close> both
  so and \<open>CLOSED\<close>, \<open>FIN_CLOSING\<close> both so and \<open>CLOSING\<close>, and the prefix both
  \<open>CMT\<close> and \<open>NTY\<close>; each pair is one name here.
\<close>

subsection \<open>Enumerations and constants\<close>

datatype tcp_state =
    CMT_TCP_CLOSE | CMT_TCP_LISTEN | CMT_TCP_SYN_SENT | CMT_TCP_SYN_RCVD | CMT_TCP_ESTABLISHED
  | CMT_TCP_CLOSE_WAIT | CMT_TCP_FIN_WAIT_1 | CMT_TCP_FIN_CLOSING | CMT_TCP_LAST_ACK
  | CMT_TCP_FIN_WAIT_2 | CMT_TCP_TIME_WAIT

text \<open>The numbers of the C enumeration; the code compares states by them.\<close>

primrec state_num :: "tcp_state \<Rightarrow> nat" where
  "state_num CMT_TCP_CLOSE = 0"
| "state_num CMT_TCP_LISTEN = 1"
| "state_num CMT_TCP_SYN_SENT = 2"
| "state_num CMT_TCP_SYN_RCVD = 3"
| "state_num CMT_TCP_ESTABLISHED = 4"
| "state_num CMT_TCP_CLOSE_WAIT = 5"
| "state_num CMT_TCP_FIN_WAIT_1 = 6"
| "state_num CMT_TCP_FIN_CLOSING = 7"
| "state_num CMT_TCP_LAST_ACK = 8"
| "state_num CMT_TCP_FIN_WAIT_2 = 9"
| "state_num CMT_TCP_TIME_WAIT = 10"

lemma state_num_inj: "state_num s = state_num t \<Longrightarrow> s = t"
  by (cases s; cases t) simp_all

instantiation tcp_state :: linorder
begin

definition less_eq_tcp_state :: "tcp_state \<Rightarrow> tcp_state \<Rightarrow> bool" where
  "s \<le> t \<longleftrightarrow> state_num s \<le> state_num t"

definition less_tcp_state :: "tcp_state \<Rightarrow> tcp_state \<Rightarrow> bool" where
  "s < t \<longleftrightarrow> state_num s < state_num t"

instance
  by standard (auto simp: less_eq_tcp_state_def less_tcp_state_def intro: state_num_inj)

end

lemmas state_order = less_eq_tcp_state_def less_tcp_state_def

datatype close_reason =
    TCP_NOT_CLOSED | TCP_ACTIVE_CLOSE | TCP_PASSIVE_CLOSE | TCP_CONN_FAIL | TCP_CONN_LOST
  | TCP_RESET | TCP_NO_MEM | TCP_NOT_ACCEPTED | TCP_TIMEOUT

datatype ack_opt = ACK_OPT_NOW | ACK_OPT_AGGREGATE | ACK_OPT_WACK

definition TCP_DEFAULT_MSS :: u16 where "TCP_DEFAULT_MSS = 1460"
definition TCP_DEFAULT_WSCALE :: u8 where "TCP_DEFAULT_WSCALE = 7"
definition TCP_INITIAL_WINDOW :: u32 where "TCP_INITIAL_WINDOW = 14600"
definition TCP_MAX_SEQ :: u32 where "TCP_MAX_SEQ = 4294967295"
definition CMT_SEND_BUFFER_SIZE :: u32 where "CMT_SEND_BUFFER_SIZE = 8192"
definition CMT_TCP_TIMEWAIT :: u32 where "CMT_TCP_TIMEWAIT = 0"
definition CMT_TCP_TMEOUT :: u32 where "CMT_TCP_TMEOUT = 30"
definition TCP_MAX_RTX :: u8 where "TCP_MAX_RTX = 16"
definition TCP_MAX_SYN_RETRY :: u8 where "TCP_MAX_SYN_RETRY = 7"
definition TCP_MAX_BACKOFF :: u8 where "TCP_MAX_BACKOFF = 7"
definition TCP_INITIAL_RTO :: u32 where "TCP_INITIAL_RTO = 500"
definition RTO_HASH :: nat where "RTO_HASH = 3000"
definition CMT_TCP_NONBLOCK :: u32 where "CMT_TCP_NONBLOCK = 1"

lemmas tcp_consts = TCP_DEFAULT_MSS_def TCP_DEFAULT_WSCALE_def TCP_INITIAL_WINDOW_def TCP_MAX_SEQ_def
  CMT_SEND_BUFFER_SIZE_def CMT_TCP_TIMEWAIT_def CMT_TCP_TMEOUT_def TCP_MAX_RTX_def
  TCP_MAX_SYN_RETRY_def TCP_MAX_BACKOFF_def TCP_INITIAL_RTO_def RTO_HASH_def CMT_TCP_NONBLOCK_def

subsection \<open>Receive buffer, send part, receive part, stream\<close>

text \<open>
  \<open>cum_len\<close> and \<open>chunk_size\<close> are the members the code also calls \<open>merged_len\<close> and
  \<open>size\<close>.
\<close>

record recv_buffer =
  rb_cum_len :: u64
  rb_last_len :: int
  rb_chunk_size :: int
  rb_head_seq :: u32
  rb_init_seq :: u32
  fctx :: "nat option"

record tcp_recv =
  rcv_wnd :: u32
  irs :: u32
  snd_wl1 :: u32
  snd_wl2 :: u32
  dup_acks :: u8
  last_ack_seq :: u32
  ts_recent :: u32
  ts_lastack_rcvd :: u32
  ts_last_ts_upd :: u32
  ts_tw_expire :: u32
  srtt :: u32
  mdev :: u32
  mdev_max :: u32
  rttvar :: u32
  rtt_seq :: u32
  rcvbuf :: "recv_buffer option"

record tcp_send =
  ip_id :: u16
  mss :: u16
  eff_mss :: u16
  wscale_mine :: u8
  wscale_peer :: u8
  nif_out :: int
  snd_una :: u32
  snd_wnd :: u32
  peer_wnd :: u32
  iss :: u32
  fss :: u32
  nrtx :: u8
  max_nrtx :: u8
  rto :: u32
  ts_rto :: u32
  cwnd :: u32
  ssthresh :: u32
  ts_lastack_sent :: u32
  is_wack :: bool
  ack_cnt :: u8
  on_control_list :: bool
  on_send_list :: bool
  on_ack_list :: bool
  on_sendq :: bool
  on_ackq :: bool
  on_closeq :: bool
  on_resetq :: bool
  on_closeq_int :: bool
  on_resetq_int :: bool
  is_fin_sent :: bool
  is_fin_ackd :: bool
  sndbuf :: "send_buffer option"

text \<open>
  The stream extends the flow its hash key is read from. \<open>sock\<close> is the pointer \<open>s\<close>,
  with the option bits of the socket; \<open>socket\<close> tells whether the pointer of that name is set.
\<close>

record tcp_stream = flow +
  stream_type :: nat
  state :: tcp_state
  close_reason :: close_reason
  on_hash_table :: bool
  on_timewait_list :: bool
  closed :: bool
  is_bound_addr :: bool
  need_wnd_adv :: bool
  on_rto_idx :: int
  on_timeout_list :: bool
  on_rcv_br_list :: bool
  on_snd_br_list :: bool
  saw_timestamp :: bool
  sack_permit :: bool
  control_list_waiting :: bool
  have_reset :: bool
  is_external :: bool
  wait_for_acks :: bool
  snd_nxt :: u32
  rcv_nxt :: u32
  last_active_ts :: u32
  sock :: "u32 option"
  socket :: bool
  sndvar :: tcp_send
  rcvvar :: tcp_recv

subsection \<open>Sender, timers, listeners, manager\<close>

record sender =
  control_list :: "nat list"
  send_list :: "nat list"
  ack_list :: "nat list"
  control_list_cnt :: u32
  send_list_cnt :: u32
  ack_list_cnt :: u32

record rto_hashstore =
  rto_now_idx :: u32
  rto_now_ts :: u32
  rto_list :: "nat \<Rightarrow> nat list"

record listener =
  l_port :: u16
  l_addr :: u32
  acceptq :: "nat stream_queue"

text \<open>
  Two functions the handlers call have empty bodies in the repository: \<open>cmt_tcppkt_alone\<close>
  and \<open>stream_destroy\<close> (which \<open>timer.c\<close> calls \<open>destroy_tcp_stream\<close>). They change
  nothing; the field \<open>calls\<close> is a ghost that records them with their arguments, in order.
\<close>

datatype call =
    PktAlone (pa_saddr: u32) (pa_sport: u16) (pa_daddr: u32) (pa_dport: u16)
      (pa_seq: u32) (pa_ack: u32) (pa_flags: u8)
  | StreamDestroy nat

record mgr =
  streams :: "nat \<Rightarrow> tcp_stream"
  snder :: sender
  rto_store :: rto_hashstore
  timewait_list :: "nat list"
  timeout_list :: "nat list"
  rto_list_cnt :: int
  timewait_list_cnt :: int
  timeout_list_cnt :: int
  flow_table :: "nat hashtable"
  lsnrs :: "nat \<Rightarrow> listener"
  listen_table :: "nat hashtable"
  calls :: "call list"

subsection \<open>Updating one stream of the store\<close>

definition upd :: "nat \<Rightarrow> (tcp_stream \<Rightarrow> tcp_stream) \<Rightarrow> mgr \<Rightarrow> mgr" where
  "upd sid f m = m\<lparr>streams := (streams m)(sid := f (streams m sid))\<rparr>"

definition upd_snd :: "nat \<Rightarrow> (tcp_send \<Rightarrow> tcp_send) \<Rightarrow> mgr \<Rightarrow> mgr" where
  "upd_snd sid f = upd sid (sndvar_update f)"

definition upd_rcv :: "nat \<Rightarrow> (tcp_recv \<Rightarrow> tcp_recv) \<Rightarrow> mgr \<Rightarrow> mgr" where
  "upd_rcv sid f = upd sid (rcvvar_update f)"

definition set_state :: "nat \<Rightarrow> tcp_state \<Rightarrow> mgr \<Rightarrow> mgr" where
  "set_state sid st = upd sid (\<lambda>s. s\<lparr>state := st\<rparr>)"

definition set_reason :: "nat \<Rightarrow> close_reason \<Rightarrow> mgr \<Rightarrow> mgr" where
  "set_reason sid r = upd sid (\<lambda>s. s\<lparr>close_reason := r\<rparr>)"

definition log_call :: "call \<Rightarrow> mgr \<Rightarrow> mgr" where
  "log_call c m = m\<lparr>calls := calls m @ [c]\<rparr>"

definition stream_destroy :: "nat \<Rightarrow> mgr \<Rightarrow> mgr" where
  "stream_destroy sid = log_call (StreamDestroy sid)"

text \<open>Arguments in the order of the call: addresses and ports, sequence, acknowledgement, flags.\<close>

definition cmt_tcppkt_alone :: "u32 \<Rightarrow> u16 \<Rightarrow> u32 \<Rightarrow> u16 \<Rightarrow> u32 \<Rightarrow> u32 \<Rightarrow> u8 \<Rightarrow> mgr \<Rightarrow> mgr" where
  "cmt_tcppkt_alone sa sp da dp seq ack flags = log_call (PktAlone sa sp da dp seq ack flags)"

lemmas upd_defs = upd_snd_def upd_rcv_def set_state_def set_reason_def upd_def
  stream_destroy_def cmt_tcppkt_alone_def log_call_def

lemma streams_upd [simp]: "streams (upd sid f m) = (streams m)(sid := f (streams m sid))"
  by (simp add: upd_def)

lemma streams_upd_snd [simp]:
  "streams (upd_snd sid f m) = (streams m)(sid := sndvar_update f (streams m sid))"
  by (simp add: upd_snd_def)

lemma streams_upd_rcv [simp]:
  "streams (upd_rcv sid f m) = (streams m)(sid := rcvvar_update f (streams m sid))"
  by (simp add: upd_rcv_def)

lemma streams_set_state [simp]:
  "streams (set_state sid st m) = (streams m)(sid := (streams m sid)\<lparr>state := st\<rparr>)"
  by (simp add: set_state_def)

lemma streams_set_reason [simp]:
  "streams (set_reason sid r m) = (streams m)(sid := (streams m sid)\<lparr>close_reason := r\<rparr>)"
  by (simp add: set_reason_def)

lemma streams_log_call [simp]:
  "streams (log_call c m) = streams m" "streams (stream_destroy sid m) = streams m"
  "streams (cmt_tcppkt_alone sa sp da dp sq ak fl m) = streams m"
  by (simp_all add: log_call_def stream_destroy_def cmt_tcppkt_alone_def)

lemma sndvar_update_cong: "f (sndvar s) = g (sndvar s) \<Longrightarrow> sndvar_update f s = sndvar_update g s"
  by (cases s) simp

lemma rcvvar_update_cong: "f (rcvvar s) = g (rcvvar s) \<Longrightarrow> rcvvar_update f s = rcvvar_update g s"
  by (cases s) simp

lemma sndvar_update_id: "f (sndvar s) = sndvar s \<Longrightarrow> sndvar_update f s = s"
  by (cases s) simp

lemma upd_snd_cong:
  "f (sndvar (streams m sid)) = g (sndvar (streams m sid)) \<Longrightarrow> upd_snd sid f m = upd_snd sid g m"
  by (simp only: upd_snd_def upd_def sndvar_update_cong [of f "streams m sid" g])

lemma upd_snd_id: "f (sndvar (streams m sid)) = sndvar (streams m sid) \<Longrightarrow> upd_snd sid f m = m"
  by (simp only: upd_snd_def upd_def sndvar_update_id [of f "streams m sid"]) simp

lemma upd_other [simp]:
  "snder (upd sid f m) = snder m"
  "rto_store (upd sid f m) = rto_store m"
  "timewait_list (upd sid f m) = timewait_list m"
  "timeout_list (upd sid f m) = timeout_list m"
  "rto_list_cnt (upd sid f m) = rto_list_cnt m"
  "timewait_list_cnt (upd sid f m) = timewait_list_cnt m"
  "timeout_list_cnt (upd sid f m) = timeout_list_cnt m"
  "flow_table (upd sid f m) = flow_table m"
  "lsnrs (upd sid f m) = lsnrs m"
  "listen_table (upd sid f m) = listen_table m"
  "calls (upd sid f m) = calls m"
  by (simp_all add: upd_def)

lemma upd_snd_other [simp]:
  "snder (upd_snd sid v m) = snder m"
  "rto_store (upd_snd sid v m) = rto_store m"
  "timewait_list (upd_snd sid v m) = timewait_list m"
  "timeout_list (upd_snd sid v m) = timeout_list m"
  "rto_list_cnt (upd_snd sid v m) = rto_list_cnt m"
  "timewait_list_cnt (upd_snd sid v m) = timewait_list_cnt m"
  "timeout_list_cnt (upd_snd sid v m) = timeout_list_cnt m"
  "flow_table (upd_snd sid v m) = flow_table m"
  "lsnrs (upd_snd sid v m) = lsnrs m"
  "listen_table (upd_snd sid v m) = listen_table m"
  "calls (upd_snd sid v m) = calls m"
  by (simp_all add: upd_snd_def)

lemma upd_rcv_other [simp]:
  "snder (upd_rcv sid r m) = snder m"
  "rto_store (upd_rcv sid r m) = rto_store m"
  "timewait_list (upd_rcv sid r m) = timewait_list m"
  "timeout_list (upd_rcv sid r m) = timeout_list m"
  "rto_list_cnt (upd_rcv sid r m) = rto_list_cnt m"
  "timewait_list_cnt (upd_rcv sid r m) = timewait_list_cnt m"
  "timeout_list_cnt (upd_rcv sid r m) = timeout_list_cnt m"
  "flow_table (upd_rcv sid r m) = flow_table m"
  "lsnrs (upd_rcv sid r m) = lsnrs m"
  "listen_table (upd_rcv sid r m) = listen_table m"
  "calls (upd_rcv sid r m) = calls m"
  by (simp_all add: upd_rcv_def)

lemma set_state_other [simp]:
  "snder (set_state sid st m) = snder m"
  "rto_store (set_state sid st m) = rto_store m"
  "timewait_list (set_state sid st m) = timewait_list m"
  "timeout_list (set_state sid st m) = timeout_list m"
  "rto_list_cnt (set_state sid st m) = rto_list_cnt m"
  "timewait_list_cnt (set_state sid st m) = timewait_list_cnt m"
  "timeout_list_cnt (set_state sid st m) = timeout_list_cnt m"
  "flow_table (set_state sid st m) = flow_table m"
  "lsnrs (set_state sid st m) = lsnrs m"
  "listen_table (set_state sid st m) = listen_table m"
  "calls (set_state sid st m) = calls m"
  by (simp_all add: set_state_def)

lemma set_reason_other [simp]:
  "snder (set_reason sid cr m) = snder m"
  "rto_store (set_reason sid cr m) = rto_store m"
  "timewait_list (set_reason sid cr m) = timewait_list m"
  "timeout_list (set_reason sid cr m) = timeout_list m"
  "rto_list_cnt (set_reason sid cr m) = rto_list_cnt m"
  "timewait_list_cnt (set_reason sid cr m) = timewait_list_cnt m"
  "timeout_list_cnt (set_reason sid cr m) = timeout_list_cnt m"
  "flow_table (set_reason sid cr m) = flow_table m"
  "lsnrs (set_reason sid cr m) = lsnrs m"
  "listen_table (set_reason sid cr m) = listen_table m"
  "calls (set_reason sid cr m) = calls m"
  by (simp_all add: set_reason_def)

lemma log_call_other [simp]:
  "snder (log_call c m) = snder m"
  "snder (stream_destroy sid m) = snder m"
  "snder (cmt_tcppkt_alone sa sp da dp sq ak fl m) = snder m"
  "rto_store (log_call c m) = rto_store m"
  "rto_store (stream_destroy sid m) = rto_store m"
  "rto_store (cmt_tcppkt_alone sa sp da dp sq ak fl m) = rto_store m"
  "timewait_list (log_call c m) = timewait_list m"
  "timewait_list (stream_destroy sid m) = timewait_list m"
  "timewait_list (cmt_tcppkt_alone sa sp da dp sq ak fl m) = timewait_list m"
  "timeout_list (log_call c m) = timeout_list m"
  "timeout_list (stream_destroy sid m) = timeout_list m"
  "timeout_list (cmt_tcppkt_alone sa sp da dp sq ak fl m) = timeout_list m"
  "rto_list_cnt (log_call c m) = rto_list_cnt m"
  "rto_list_cnt (stream_destroy sid m) = rto_list_cnt m"
  "rto_list_cnt (cmt_tcppkt_alone sa sp da dp sq ak fl m) = rto_list_cnt m"
  "timewait_list_cnt (log_call c m) = timewait_list_cnt m"
  "timewait_list_cnt (stream_destroy sid m) = timewait_list_cnt m"
  "timewait_list_cnt (cmt_tcppkt_alone sa sp da dp sq ak fl m) = timewait_list_cnt m"
  "timeout_list_cnt (log_call c m) = timeout_list_cnt m"
  "timeout_list_cnt (stream_destroy sid m) = timeout_list_cnt m"
  "timeout_list_cnt (cmt_tcppkt_alone sa sp da dp sq ak fl m) = timeout_list_cnt m"
  "flow_table (log_call c m) = flow_table m"
  "flow_table (stream_destroy sid m) = flow_table m"
  "flow_table (cmt_tcppkt_alone sa sp da dp sq ak fl m) = flow_table m"
  "lsnrs (log_call c m) = lsnrs m"
  "lsnrs (stream_destroy sid m) = lsnrs m"
  "lsnrs (cmt_tcppkt_alone sa sp da dp sq ak fl m) = lsnrs m"
  "listen_table (log_call c m) = listen_table m"
  "listen_table (stream_destroy sid m) = listen_table m"
  "listen_table (cmt_tcppkt_alone sa sp da dp sq ak fl m) = listen_table m"
  by (simp_all add: log_call_def stream_destroy_def cmt_tcppkt_alone_def)

lemma calls_log_call [simp]:
  "calls (log_call c m) = calls m @ [c]"
  "calls (stream_destroy sid m) = calls m @ [StreamDestroy sid]"
  "calls (cmt_tcppkt_alone sa sp da dp sq ak fl m) = calls m @ [PktAlone sa sp da dp sq ak fl]"
  by (simp_all add: log_call_def stream_destroy_def cmt_tcppkt_alone_def)

subsection \<open>Blank objects\<close>

text \<open>A stream object with every field zero but the timer index, which is on no list.\<close>

definition blank_send :: tcp_send where
  "blank_send = \<lparr>ip_id = 0, mss = 0, eff_mss = 0, wscale_mine = 0, wscale_peer = 0, nif_out = 0,
     snd_una = 0, snd_wnd = 0, peer_wnd = 0, iss = 0, fss = 0, nrtx = 0, max_nrtx = 0, rto = 0,
     ts_rto = 0, cwnd = 0, ssthresh = 0, ts_lastack_sent = 0, is_wack = False, ack_cnt = 0,
     on_control_list = False, on_send_list = False, on_ack_list = False, on_sendq = False,
     on_ackq = False, on_closeq = False, on_resetq = False, on_closeq_int = False,
     on_resetq_int = False, is_fin_sent = False, is_fin_ackd = False, sndbuf = None\<rparr>"

definition blank_recv :: tcp_recv where
  "blank_recv = \<lparr>rcv_wnd = 0, irs = 0, snd_wl1 = 0, snd_wl2 = 0, dup_acks = 0, last_ack_seq = 0,
     ts_recent = 0, ts_lastack_rcvd = 0, ts_last_ts_upd = 0, ts_tw_expire = 0, srtt = 0, mdev = 0,
     mdev_max = 0, rttvar = 0, rtt_seq = 0, rcvbuf = None\<rparr>"

definition blank_stream :: tcp_stream where
  "blank_stream = \<lparr>saddr = 0, daddr = 0, sport = 0, dport = 0, stream_type = 0,
     state = CMT_TCP_CLOSE, close_reason = TCP_NOT_CLOSED, on_hash_table = False,
     on_timewait_list = False, closed = False, is_bound_addr = False, need_wnd_adv = False,
     on_rto_idx = - 1, on_timeout_list = False, on_rcv_br_list = False, on_snd_br_list = False,
     saw_timestamp = False, sack_permit = False, control_list_waiting = False, have_reset = False,
     is_external = False, wait_for_acks = False, snd_nxt = 0, rcv_nxt = 0, last_active_ts = 0,
     sock = None, socket = False, sndvar = blank_send, rcvvar = blank_recv\<rparr>"

end
