(* ===== verification/Sender_Lists.thy ===== *)
theory Sender_Lists
  imports Tcp_Types
begin

text \<open>
  The lists of the sender (\<open>cmt_tcp_addto_acklist\<close>, \<open>cmt_tcp_addto_controllist\<close>,
  \<open>cmt_tcp_addto_sendlist\<close>, the three \<open>cmt_tcp_remove_*\<close> and \<open>cmt_tcp_enqueue_acklist\<close>
  of \<open>src/tcp.c\<close>). A stream carries a flag for each list, which the code tests instead of
  walking the list. The locale \<open>member_set\<close> is the contract of such a list: its lemmas
  say that flag, list and counter never disagree. Its extension \<open>member_list\<close> adds that a
  stream keeps its place. They are interpreted for the three lists here and for the time-wait
  and timeout lists in the theory of the timers.
\<close>

subsection \<open>The contract of a list with membership flags\<close>

definition list_ok :: "('m \<Rightarrow> nat \<Rightarrow> bool) \<Rightarrow> ('m \<Rightarrow> nat list) \<Rightarrow> ('m \<Rightarrow> 'c::ring_1) \<Rightarrow> 'm \<Rightarrow> bool" where
  "list_ok flag lst cnt m \<longleftrightarrow>
     distinct (lst m) \<and> (\<forall>s. flag m s \<longleftrightarrow> s \<in> set (lst m)) \<and> cnt m = of_nat (length (lst m))"

lemma list_ok_frame:
  "list_ok flag lst cnt m \<Longrightarrow> (\<And>s. flag m' s = flag m s) \<Longrightarrow> lst m' = lst m \<Longrightarrow> cnt m' = cnt m \<Longrightarrow>
    list_ok flag lst cnt m'"
  by (simp add: list_ok_def)

lemma remove1_to_tail:
  assumes "distinct l" "s \<in> set l"
  shows "distinct (remove1 s l @ [s])" "set (remove1 s l @ [s]) = set l"
    "length (remove1 s l @ [s]) = length l"
proof -
  have "0 < length l" using assms(2) by (rule length_pos_if_in_set)
  then show "length (remove1 s l @ [s]) = length l" using assms(2) by (simp add: length_remove1)
qed (use assms in auto)

lemma list_ok_to_tail:
  assumes "list_ok flag lst cnt m" "s \<in> set (lst m)"
    and "flag m' = flag m" "lst m' = remove1 s (lst m) @ [s]" "cnt m' = cnt m"
  shows "list_ok flag lst cnt m'"
  using assms remove1_to_tail [of "lst m" s] unfolding list_ok_def by metis

lemma list_ok_snoc:
  assumes "list_ok flag lst cnt m" "s \<notin> set (lst m)"
    and "flag m' = (flag m)(s := True)" "lst m' = lst m @ [s]" "cnt m' = cnt m + 1"
  shows "list_ok flag lst cnt m'"
  using assms by (auto simp: list_ok_def)

datatype list_op = LAdd nat | LRem nat

fun list_run :: "(nat \<Rightarrow> 'm \<Rightarrow> 'm res) \<Rightarrow> (nat \<Rightarrow> 'm \<Rightarrow> 'm res) \<Rightarrow> list_op list \<Rightarrow> 'm \<Rightarrow> 'm res" where
  "list_run add rem [] m = Inr m"
| "list_run add rem (LAdd s # ops) m = andThen (add s m) (list_run add rem ops)"
| "list_run add rem (LRem s # ops) m = andThen (rem s m) (list_run add rem ops)"

text \<open>The abstract list: entering is at the tail and only for absent streams.\<close>

fun list_spec :: "list_op list \<Rightarrow> nat list \<Rightarrow> nat list" where
  "list_spec [] l = l"
| "list_spec (LAdd s # ops) l = list_spec ops (if s \<in> set l then l else l @ [s])"
| "list_spec (LRem s # ops) l = list_spec ops (removeAll s l)"

locale member_set =
  fixes flag :: "'m \<Rightarrow> nat \<Rightarrow> bool" and lst :: "'m \<Rightarrow> nat list" and cnt :: "'m \<Rightarrow> 'c::ring_1"
    and add :: "nat \<Rightarrow> 'm \<Rightarrow> 'm res" and rem :: "nat \<Rightarrow> 'm \<Rightarrow> 'm res"
  assumes add_law: "add s m = Inr m' \<Longrightarrow> list_ok flag lst cnt m \<Longrightarrow>
      flag m' = (flag m)(s := True) \<and>
      (if flag m s then lst m' \<in> {lst m, remove1 s (lst m) @ [s]} \<and> cnt m' = cnt m
       else lst m' = lst m @ [s] \<and> cnt m' = cnt m + 1)"
    and rem_law: "rem s m = Inr m' \<Longrightarrow> list_ok flag lst cnt m \<Longrightarrow>
      flag m' = (flag m)(s := False) \<and>
      (if flag m s then lst m' = remove1 s (lst m) \<and> cnt m' = cnt m - 1
       else lst m' = lst m \<and> cnt m' = cnt m)"
begin

lemma add_ok:
  assumes "add s m = Inr m'" "list_ok flag lst cnt m"
  shows "list_ok flag lst cnt m'"
proof (cases "flag m s")
  case True
  then have "(flag m)(s := True) = flag m" "s \<in> set (lst m)"
    using assms(2) by (auto simp: list_ok_def fun_eq_iff)
  with add_law [OF assms] True have f: "flag m' = flag m" "cnt m' = cnt m"
    "lst m' = lst m \<or> lst m' = remove1 s (lst m) @ [s]" by auto
  from f(3) show ?thesis
  proof
    assume "lst m' = lst m"
    with f assms(2) show ?thesis by (auto intro: list_ok_frame)
  next
    assume "lst m' = remove1 s (lst m) @ [s]"
    with f \<open>s \<in> set (lst m)\<close> show ?thesis by (intro list_ok_to_tail [OF assms(2)]) simp_all
  qed
next
  case False
  with assms(2) have "s \<notin> set (lst m)" by (simp add: list_ok_def)
  with add_law [OF assms] False show ?thesis by (intro list_ok_snoc [OF assms(2)]) simp_all
qed

lemma rem_ok:
  assumes "rem s m = Inr m'" "list_ok flag lst cnt m"
  shows "list_ok flag lst cnt m'"
proof (cases "flag m s")
  case True
  with assms(2) have "s \<in> set (lst m)" by (simp add: list_ok_def)
  then have "length (lst m) = Suc (length (remove1 s (lst m)))"
    by (metis One_nat_def Suc_pred length_pos_if_in_set length_remove1)
  with True rem_law [OF assms] assms(2) show ?thesis by (auto simp: list_ok_def)
next
  case False
  with rem_law [OF assms] assms(2) show ?thesis by (auto simp: list_ok_def)
qed

end

locale member_list = member_set +
  assumes keep_law: "add s m = Inr m' \<Longrightarrow> flag m s \<Longrightarrow> lst m' = lst m"
begin

lemma run_spec:
  "list_run add rem ops m = Inr m' \<Longrightarrow> list_ok flag lst cnt m \<Longrightarrow>
    list_ok flag lst cnt m' \<and> lst m' = list_spec ops (lst m)"
proof (induction ops arbitrary: m)
  case Nil
  then show ?case by simp
next
  case (Cons p ops)
  show ?case
  proof (cases p)
    case (LAdd s)
    with Cons.prems obtain m1 where m1: "add s m = Inr m1" "list_run add rem ops m1 = Inr m'"
      by (auto elim: andThen_InrE)
    have "lst m1 = (if s \<in> set (lst m) then lst m else lst m @ [s])"
      using add_law [OF m1(1) Cons.prems(2)] keep_law [OF m1(1)] Cons.prems(2)
      by (auto simp: list_ok_def)
    then show ?thesis
      using Cons.IH [OF m1(2) add_ok [OF m1(1) Cons.prems(2)]] LAdd by simp
  next
    case (LRem s)
    with Cons.prems obtain m1 where m1: "rem s m = Inr m1" "list_run add rem ops m1 = Inr m'"
      by (auto elim: andThen_InrE)
    have "lst m1 = removeAll s (lst m)"
      using rem_law [OF m1(1) Cons.prems(2)] Cons.prems(2)
      by (auto simp: list_ok_def distinct_remove1_removeAll split: if_splits)
    then show ?thesis
      using Cons.IH [OF m1(2) rem_ok [OF m1(1) Cons.prems(2)]] LRem by simp
  qed
qed

end

subsection \<open>The lists of the sender\<close>

text \<open>
  The counters are changed with the lists, so both are parts of one update. In each operation
  \<open>cmt_tcp_getsender\<close> reads the sender of the manager.
\<close>

definition cmt_tcp_getsender :: "mgr \<Rightarrow> nat \<Rightarrow> sender" where
  "cmt_tcp_getsender m sid = snder m"

definition cmt_tcp_addto_acklist :: "nat \<Rightarrow> mgr \<Rightarrow> mgr" where
  "cmt_tcp_addto_acklist sid m =
     (let sender = cmt_tcp_getsender m sid in
      if \<not> on_ack_list (sndvar (streams m sid)) then
        (upd_snd sid (\<lambda>v. v\<lparr>on_ack_list := True\<rparr>) m)
          \<lparr>snder := sender\<lparr>ack_list := ack_list sender @ [sid],
                           ack_list_cnt := ack_list_cnt sender + 1\<rparr>\<rparr>
      else m)"

definition cmt_tcp_addto_controllist :: "nat \<Rightarrow> mgr \<Rightarrow> mgr" where
  "cmt_tcp_addto_controllist sid m =
     (let sender = cmt_tcp_getsender m sid in
      if \<not> on_control_list (sndvar (streams m sid)) then
        (upd_snd sid (\<lambda>v. v\<lparr>on_control_list := True\<rparr>) m)
          \<lparr>snder := sender\<lparr>control_list := control_list sender @ [sid],
                           control_list_cnt := control_list_cnt sender + 1\<rparr>\<rparr>
      else m)"

definition cmt_tcp_addto_sendlist :: "nat \<Rightarrow> mgr \<Rightarrow> mgr res" where
  "cmt_tcp_addto_sendlist sid m =
     (let sender = cmt_tcp_getsender m sid in
      if sndbuf (sndvar (streams m sid)) = None then Inl AssertFailed
      else if \<not> on_send_list (sndvar (streams m sid)) then
        Inr ((upd_snd sid (\<lambda>v. v\<lparr>on_send_list := True\<rparr>) m)
          \<lparr>snder := sender\<lparr>send_list := send_list sender @ [sid],
                           send_list_cnt := send_list_cnt sender + 1\<rparr>\<rparr>)
      else Inr m)"

definition cmt_tcp_remove_acklist :: "nat \<Rightarrow> mgr \<Rightarrow> mgr" where
  "cmt_tcp_remove_acklist sid m =
     (let sender = cmt_tcp_getsender m sid in
      if on_ack_list (sndvar (streams m sid)) then
        (upd_snd sid (\<lambda>v. v\<lparr>on_ack_list := False\<rparr>) m)
          \<lparr>snder := sender\<lparr>ack_list := remove1 sid (ack_list sender),
                           ack_list_cnt := ack_list_cnt sender - 1\<rparr>\<rparr>
      else m)"

definition cmt_tcp_remove_controllist :: "nat \<Rightarrow> mgr \<Rightarrow> mgr" where
  "cmt_tcp_remove_controllist sid m =
     (let sender = cmt_tcp_getsender m sid in
      if on_control_list (sndvar (streams m sid)) then
        (upd_snd sid (\<lambda>v. v\<lparr>on_control_list := False\<rparr>) m)
          \<lparr>snder := sender\<lparr>control_list := remove1 sid (control_list sender),
                           control_list_cnt := control_list_cnt sender - 1\<rparr>\<rparr>
      else m)"

definition cmt_tcp_remove_sendlist :: "nat \<Rightarrow> mgr \<Rightarrow> mgr" where
  "cmt_tcp_remove_sendlist sid m =
     (let sender = cmt_tcp_getsender m sid in
      if on_send_list (sndvar (streams m sid)) then
        (upd_snd sid (\<lambda>v. v\<lparr>on_send_list := False\<rparr>) m)
          \<lparr>snder := sender\<lparr>send_list := remove1 sid (send_list sender),
                           send_list_cnt := send_list_cnt sender - 1\<rparr>\<rparr>
      else m)"

text \<open>
  The state is only reported in a trace message. \<open>ack_cnt\<close> is eight bits wide and its
  increment wraps.
\<close>

definition cmt_tcp_enqueue_acklist :: "nat \<Rightarrow> ack_opt \<Rightarrow> mgr \<Rightarrow> mgr" where
  "cmt_tcp_enqueue_acklist sid opt m =
     cmt_tcp_addto_acklist sid
      (case opt of
         ACK_OPT_NOW \<Rightarrow> upd_snd sid (\<lambda>v. v\<lparr>ack_cnt := ack_cnt v + 1\<rparr>) m
       | ACK_OPT_AGGREGATE \<Rightarrow>
           (if ack_cnt (sndvar (streams m sid)) = 0
            then upd_snd sid (\<lambda>v. v\<lparr>ack_cnt := 1\<rparr>) m else m)
       | ACK_OPT_WACK \<Rightarrow> upd_snd sid (\<lambda>v. v\<lparr>is_wack := True\<rparr>) m)"

lemmas sender_list_defs = cmt_tcp_getsender_def cmt_tcp_addto_acklist_def cmt_tcp_addto_controllist_def
  cmt_tcp_addto_sendlist_def cmt_tcp_remove_acklist_def cmt_tcp_remove_controllist_def
  cmt_tcp_remove_sendlist_def

subsection \<open>Effect on the stream\<close>

text \<open>On the streams an operation only sets its flag, whatever the flag was.\<close>

lemma streams_sender_lists [simp]:
  "streams (cmt_tcp_addto_acklist sid m) =
     (streams m)(sid := sndvar_update (on_ack_list_update (\<lambda>_. True)) (streams m sid))"
  "streams (cmt_tcp_addto_controllist sid m) =
     (streams m)(sid := sndvar_update (on_control_list_update (\<lambda>_. True)) (streams m sid))"
  "streams (cmt_tcp_remove_acklist sid m) =
     (streams m)(sid := sndvar_update (on_ack_list_update (\<lambda>_. False)) (streams m sid))"
  "streams (cmt_tcp_remove_controllist sid m) =
     (streams m)(sid := sndvar_update (on_control_list_update (\<lambda>_. False)) (streams m sid))"
  "streams (cmt_tcp_remove_sendlist sid m) =
     (streams m)(sid := sndvar_update (on_send_list_update (\<lambda>_. False)) (streams m sid))"
  by (auto simp: sender_list_defs Let_def fun_eq_iff)

lemma streams_addto_sendlist:
  "cmt_tcp_addto_sendlist sid m = Inr m' \<Longrightarrow>
    sndbuf (sndvar (streams m sid)) \<noteq> None \<and>
    streams m' = (streams m)(sid := sndvar_update (on_send_list_update (\<lambda>_. True)) (streams m sid))"
  by (auto simp: sender_list_defs Let_def fun_eq_iff split: if_splits)

lemma addto_sendlist_defined:
  "sndbuf (sndvar (streams m sid)) \<noteq> None \<Longrightarrow> \<exists>m'. cmt_tcp_addto_sendlist sid m = Inr m'"
  by (simp add: cmt_tcp_addto_sendlist_def Let_def)

definition ack_mark :: "ack_opt \<Rightarrow> tcp_send \<Rightarrow> tcp_send" where
  "ack_mark opt v =
     (case opt of
        ACK_OPT_NOW \<Rightarrow> v\<lparr>ack_cnt := ack_cnt v + 1\<rparr>
      | ACK_OPT_AGGREGATE \<Rightarrow> v\<lparr>ack_cnt := (if ack_cnt v = 0 then 1 else ack_cnt v)\<rparr>
      | ACK_OPT_WACK \<Rightarrow> v\<lparr>is_wack := True\<rparr>)"

lemma enqueue_acklist_alt:
  "cmt_tcp_enqueue_acklist sid opt m = cmt_tcp_addto_acklist sid (upd_snd sid (ack_mark opt) m)"
  unfolding cmt_tcp_enqueue_acklist_def
  by (cases opt)
    (auto simp: ack_mark_def upd_snd_id [symmetric] intro!: arg_cong [where f = "cmt_tcp_addto_acklist sid"] upd_snd_cong)

lemma streams_enqueue_acklist [simp]:
  "streams (cmt_tcp_enqueue_acklist sid opt m) =
     (streams m)(sid := sndvar_update (\<lambda>v. (ack_mark opt v)\<lparr>on_ack_list := True\<rparr>) (streams m sid))"
  by (simp add: enqueue_acklist_alt comp_def)

lemma ack_mark_simps [simp]:
  "sndbuf (ack_mark opt v) = sndbuf v" "on_control_list (ack_mark opt v) = on_control_list v"
  "on_send_list (ack_mark opt v) = on_send_list v" "on_ack_list (ack_mark opt v) = on_ack_list v"
  "snd_una (ack_mark opt v) = snd_una v" "cwnd (ack_mark opt v) = cwnd v"
  "ssthresh (ack_mark opt v) = ssthresh v" "mss (ack_mark opt v) = mss v" "iss (ack_mark opt v) = iss v"
  "fss (ack_mark opt v) = fss v" "rto (ack_mark opt v) = rto v" "is_fin_sent (ack_mark opt v) = is_fin_sent v"
  "peer_wnd (ack_mark opt v) = peer_wnd v" "eff_mss (ack_mark opt v) = eff_mss v"
  by (cases opt; simp add: ack_mark_def)+

subsection \<open>The flags of the sender lists agree with the lists\<close>

definition on_ctl :: "mgr \<Rightarrow> nat \<Rightarrow> bool" where "on_ctl m s = on_control_list (sndvar (streams m s))"
definition on_snd :: "mgr \<Rightarrow> nat \<Rightarrow> bool" where "on_snd m s = on_send_list (sndvar (streams m s))"
definition on_ack :: "mgr \<Rightarrow> nat \<Rightarrow> bool" where "on_ack m s = on_ack_list (sndvar (streams m s))"

lemmas on_defs = on_ctl_def on_snd_def on_ack_def

interpretation ctl: member_list on_ctl "\<lambda>m. control_list (snder m)" "\<lambda>m. control_list_cnt (snder m)"
  "\<lambda>s m. Inr (cmt_tcp_addto_controllist s m)" "\<lambda>s m. Inr (cmt_tcp_remove_controllist s m)"
  by unfold_locales (auto simp: on_defs fun_eq_iff sender_list_defs Let_def)

interpretation snd: member_list on_snd "\<lambda>m. send_list (snder m)" "\<lambda>m. send_list_cnt (snder m)"
  cmt_tcp_addto_sendlist "\<lambda>s m. Inr (cmt_tcp_remove_sendlist s m)"
  by unfold_locales (auto simp: on_defs fun_eq_iff sender_list_defs Let_def split: if_splits)

interpretation ack: member_list on_ack "\<lambda>m. ack_list (snder m)" "\<lambda>m. ack_list_cnt (snder m)"
  "\<lambda>s m. Inr (cmt_tcp_addto_acklist s m)" "\<lambda>s m. Inr (cmt_tcp_remove_acklist s m)"
  by unfold_locales (auto simp: on_defs fun_eq_iff sender_list_defs Let_def)

definition sender_ok :: "mgr \<Rightarrow> bool" where
  "sender_ok m \<longleftrightarrow>
     list_ok on_ctl (\<lambda>m. control_list (snder m)) (\<lambda>m. control_list_cnt (snder m)) m \<and>
     list_ok on_snd (\<lambda>m. send_list (snder m)) (\<lambda>m. send_list_cnt (snder m)) m \<and>
     list_ok on_ack (\<lambda>m. ack_list (snder m)) (\<lambda>m. ack_list_cnt (snder m)) m"

lemma sender_ok_frame:
  assumes "sender_ok m" "snder m' = snder m"
    "\<And>s. on_control_list (sndvar (streams m' s)) = on_control_list (sndvar (streams m s))"
    "\<And>s. on_send_list (sndvar (streams m' s)) = on_send_list (sndvar (streams m s))"
    "\<And>s. on_ack_list (sndvar (streams m' s)) = on_ack_list (sndvar (streams m s))"
  shows "sender_ok m'"
  using assms by (simp add: sender_ok_def list_ok_def on_defs)

lemma sender_ok_controllist:
  assumes "sender_ok m"
  shows "sender_ok (cmt_tcp_addto_controllist s m)" "sender_ok (cmt_tcp_remove_controllist s m)"
  using assms ctl.add_ok [OF refl, of m s] ctl.rem_ok [OF refl, of m s]
  by (auto simp: sender_ok_def list_ok_def on_defs sender_list_defs Let_def)

lemma sender_ok_acklist:
  assumes "sender_ok m"
  shows "sender_ok (cmt_tcp_addto_acklist s m)" "sender_ok (cmt_tcp_remove_acklist s m)"
  using assms ack.add_ok [OF refl, of m s] ack.rem_ok [OF refl, of m s]
  by (auto simp: sender_ok_def list_ok_def on_defs sender_list_defs Let_def)

lemma sender_ok_enqueue_acklist:
  "sender_ok m \<Longrightarrow> sender_ok (cmt_tcp_enqueue_acklist s opt m)"
  unfolding enqueue_acklist_alt
  by (rule sender_ok_acklist, erule sender_ok_frame) (simp_all add: upd_defs)

lemma sender_ok_remove_sendlist: "sender_ok m \<Longrightarrow> sender_ok (cmt_tcp_remove_sendlist s m)"
  using snd.rem_ok [OF refl, of m s]
  by (auto simp: sender_ok_def list_ok_def on_defs sender_list_defs Let_def)

lemma sender_ok_addto_sendlist:
  "cmt_tcp_addto_sendlist s m = Inr m' \<Longrightarrow> sender_ok m \<Longrightarrow> sender_ok m'"
  using snd.add_ok [of s m m']
  by (auto simp: sender_ok_def list_ok_def on_defs sender_list_defs Let_def split: if_splits)

end
