(* ===== verification/Timer.thy ===== *)
theory Timer
  imports Sender_Lists
begin

text \<open>
  The timers of \<open>src/timer.c\<close>: the hashed retransmission lists, the time-wait list, the
  connection timeout list, and the three checks the main loop runs. The retransmission and the
  time-wait lists chain streams through the same link \<open>timer_link\<close>, so a stream must never be
  on both. The member the code names both \<open>rto_list\<close> and \<open>rto_store\<close> is one field here.
\<close>

subsection \<open>The retransmission lists\<close>

text \<open>\<open>mem\<close> is what the pool returns for the store: \<open>None\<close> without pool or memory.\<close>

definition init_rto_hashstore :: "rto_hashstore option \<Rightarrow> rto_hashstore option" where
  "init_rto_hashstore mem =
     (case mem of
        None \<Rightarrow> None
      | Some hs \<Rightarrow> Some (hs\<lparr>rto_list := (\<lambda>i. if i < RTO_HASH + 1 then [] else rto_list hs i)\<rparr>))"

definition rto_insert_tail :: "nat \<Rightarrow> nat \<Rightarrow> mgr \<Rightarrow> mgr" where
  "rto_insert_tail i sid m =
     m\<lparr>rto_store := (rto_store m)
        \<lparr>rto_list := (rto_list (rto_store m))(i := rto_list (rto_store m) i @ [sid])\<rparr>\<rparr>"

definition rto_remove :: "nat \<Rightarrow> nat \<Rightarrow> mgr \<Rightarrow> mgr" where
  "rto_remove i sid m =
     m\<lparr>rto_store := (rto_store m)
        \<lparr>rto_list := (rto_list (rto_store m))(i := remove1 sid (rto_list (rto_store m) i))\<rparr>\<rparr>"

definition set_rto_idx :: "nat \<Rightarrow> int \<Rightarrow> mgr \<Rightarrow> mgr" where
  "set_rto_idx sid i = upd sid (\<lambda>s. s\<lparr>on_rto_idx := i\<rparr>)"

definition add_to_rto_list :: "nat \<Rightarrow> mgr \<Rightarrow> mgr" where
  "add_to_rto_list sid m =
     (let m = (if rto_list_cnt m = 0
               then m\<lparr>rto_store := (rto_store m)
                  \<lparr>rto_now_idx := 0, rto_now_ts := ts_rto (sndvar (streams m sid))\<rparr>\<rparr>
               else m) in
      if on_rto_idx (streams m sid) < 0 then
        let diff = sint (ts_rto (sndvar (streams m sid)) - rto_now_ts (rto_store m));
            offset = (if diff < int RTO_HASH
                      then unat (ts_rto (sndvar (streams m sid)) mod of_nat RTO_HASH) else RTO_HASH);
            m = rto_insert_tail offset sid (set_rto_idx sid (int offset) m)
        in m\<lparr>rto_list_cnt := rto_list_cnt m + 1\<rparr>
      else m)"

definition remove_from_rto_list :: "nat \<Rightarrow> mgr \<Rightarrow> mgr" where
  "remove_from_rto_list sid m =
     (if on_rto_idx (streams m sid) < 0 then m
      else
        let m = set_rto_idx sid (- 1) (rto_remove (nat (on_rto_idx (streams m sid))) sid m)
        in m\<lparr>rto_list_cnt := rto_list_cnt m - 1\<rparr>)"

subsection \<open>The time-wait and timeout lists\<close>

definition add_to_timewait_list :: "nat \<Rightarrow> u32 \<Rightarrow> mgr \<Rightarrow> mgr" where
  "add_to_timewait_list sid cur_ts m =
     (let m = upd_rcv sid (\<lambda>r. r\<lparr>ts_tw_expire := cur_ts + CMT_TCP_TIMEWAIT\<rparr>) m in
      if on_timewait_list (streams m sid)
      then m\<lparr>timewait_list := remove1 sid (timewait_list m) @ [sid]\<rparr>
      else
        let m = (if on_rto_idx (streams m sid) \<ge> 0 then remove_from_rto_list sid m else m);
            m = upd sid (\<lambda>s. s\<lparr>on_timewait_list := True\<rparr>) m
        in m\<lparr>timewait_list := timewait_list m @ [sid],
             timewait_list_cnt := timewait_list_cnt m + 1\<rparr>)"

definition remove_from_timewait_list :: "nat \<Rightarrow> mgr \<Rightarrow> mgr res" where
  "remove_from_timewait_list sid m =
     (if \<not> on_timewait_list (streams m sid) then Inl AssertFailed
      else Inr ((upd sid (\<lambda>s. s\<lparr>on_timewait_list := False\<rparr>) m)
                 \<lparr>timewait_list := remove1 sid (timewait_list m),
                  timewait_list_cnt := timewait_list_cnt m - 1\<rparr>))"

definition add_to_timeout_list :: "nat \<Rightarrow> mgr \<Rightarrow> mgr res" where
  "add_to_timeout_list sid m =
     (if on_timeout_list (streams m sid) then Inl AssertFailed
      else Inr ((upd sid (\<lambda>s. s\<lparr>on_timeout_list := True\<rparr>) m)
                 \<lparr>timeout_list := timeout_list m @ [sid],
                  timeout_list_cnt := timeout_list_cnt m + 1\<rparr>))"

definition remove_from_timeout_list :: "nat \<Rightarrow> mgr \<Rightarrow> mgr" where
  "remove_from_timeout_list sid m =
     (if on_timeout_list (streams m sid)
      then (upd sid (\<lambda>s. s\<lparr>on_timeout_list := False\<rparr>) m)
             \<lparr>timeout_list := remove1 sid (timeout_list m),
              timeout_list_cnt := timeout_list_cnt m - 1\<rparr>
      else m)"

definition update_timeout_list :: "nat \<Rightarrow> mgr \<Rightarrow> mgr" where
  "update_timeout_list sid m =
     (if on_timeout_list (streams m sid)
      then m\<lparr>timeout_list := remove1 sid (timeout_list m) @ [sid]\<rparr> else m)"

subsection \<open>Arming and handling a retransmission timeout\<close>

definition update_retransmission_timer :: "nat \<Rightarrow> u32 \<Rightarrow> mgr \<Rightarrow> mgr res" where
  "update_retransmission_timer sid cur_ts m =
     (if \<not> rto (sndvar (streams m sid)) > 0 then Inl AssertFailed
      else
        let m = upd_snd sid (\<lambda>v. v\<lparr>nrtx := 0\<rparr>) m;
            m = (if on_rto_idx (streams m sid) \<ge> 0 then remove_from_rto_list sid m else m) in
        if TCP_SEQ_GT (snd_nxt (streams m sid)) (snd_una (sndvar (streams m sid)))
        then Inr (add_to_rto_list sid (upd_snd sid (\<lambda>v. v\<lparr>ts_rto := cur_ts + rto v\<rparr>) m))
        else Inr m)"

text \<open>
  The parts of \<open>handle_rto\<close>, in the order of the code: the retransmissions are used up, the
  counters and the timeout, the congestion variables, the give-up of a SYN, the rewind.
\<close>

definition handle_rto_fail :: "nat \<Rightarrow> mgr \<Rightarrow> mgr" where
  "handle_rto_fail sid m =
     (let before_est = state (streams m sid) < CMT_TCP_ESTABLISHED;
          m = set_state sid CMT_TCP_CLOSE m in
      if before_est then stream_destroy sid (set_reason sid TCP_CONN_FAIL m)
      else let m = set_reason sid TCP_CONN_LOST m in
           if socket (streams m sid) then m else stream_destroy sid m)"

definition handle_rto_backoff :: "tcp_stream \<Rightarrow> tcp_send" where
  "handle_rto_backoff s =
     (let v = (sndvar s)\<lparr>nrtx := nrtx (sndvar s) + 1\<rparr>;
          v = (if nrtx v > max_nrtx v then v\<lparr>max_nrtx := nrtx v\<rparr> else v) in
      if state s \<ge> CMT_TCP_ESTABLISHED then
        let backoff = min (nrtx v) TCP_MAX_BACKOFF;
            r = push_bit (unat backoff) (drop_bit 3 (srtt (rcvvar s)) + rttvar (rcvvar s))
        in v\<lparr>rto := (if r \<le> 0 then rto v else r)\<rparr>
      else if state s \<ge> CMT_TCP_SYN_SENT \<and> nrtx v < TCP_MAX_BACKOFF
      then v\<lparr>rto := push_bit 1 (rto v)\<rparr> else v)"

definition handle_rto_cwnd :: "tcp_send \<Rightarrow> tcp_send" where
  "handle_rto_cwnd v =
     (let th = min (cwnd v) (peer_wnd v) div 2;
          th = (if th < 2 * ucast (mss v) then ucast (mss v) * 2 else th)
      in v\<lparr>ssthresh := th, cwnd := ucast (mss v)\<rparr>)"

definition handle_rto_resend :: "nat \<Rightarrow> mgr \<Rightarrow> (int \<times> mgr) res" where
  "handle_rto_resend sid m =
     (let m = upd sid (\<lambda>s. s\<lparr>snd_nxt := snd_una (sndvar s)\<rparr>) m; st = state (streams m sid) in
      if st = CMT_TCP_ESTABLISHED \<or> st = CMT_TCP_CLOSE_WAIT
      then andThen (cmt_tcp_addto_sendlist sid m) (\<lambda>m. Inr (0, m))
      else if st = CMT_TCP_FIN_WAIT_1 \<or> st = CMT_TCP_FIN_CLOSING \<or> st = CMT_TCP_LAST_ACK then
        (if TCP_SEQ_LT (snd_nxt (streams m sid)) (fss (sndvar (streams m sid))) then
           let m = (if on_control_list (sndvar (streams m sid))
                    then cmt_tcp_remove_controllist sid m else m);
               m = upd sid (\<lambda>s. s\<lparr>control_list_waiting := True\<rparr>) m
           in andThen (cmt_tcp_addto_sendlist sid m) (\<lambda>m. Inr (0, m))
         else Inr (0, cmt_tcp_addto_controllist sid m))
      else Inr (0, cmt_tcp_addto_controllist sid m))"

definition handle_rto :: "u32 \<Rightarrow> nat \<Rightarrow> mgr \<Rightarrow> (int \<times> mgr) res" where
  "handle_rto cur_ts sid m =
     (if \<not> nrtx (sndvar (streams m sid)) < TCP_MAX_RTX then Inr (- 1, handle_rto_fail sid m)
      else
        let m = upd sid (\<lambda>s. s\<lparr>sndvar := handle_rto_cwnd (handle_rto_backoff s)\<rparr>) m;
            st = state (streams m sid) in
        if st = CMT_TCP_SYN_SENT \<and> nrtx (sndvar (streams m sid)) > TCP_MAX_SYN_RETRY then
          let m = set_reason sid TCP_CONN_FAIL (set_state sid CMT_TCP_CLOSE m)
          in Inr (- 1, if socket (streams m sid) then m else stream_destroy sid m)
        else if st \<in> {CMT_TCP_SYN_SENT, CMT_TCP_SYN_RCVD, CMT_TCP_ESTABLISHED, CMT_TCP_CLOSE_WAIT,
                      CMT_TCP_LAST_ACK, CMT_TCP_FIN_WAIT_1, CMT_TCP_FIN_CLOSING}
        then handle_rto_resend sid m
        else Inl AssertFailed)"

subsection \<open>The checks of the main loop\<close>

text \<open>
  \<open>diff + rto_now_idx\<close> adds a signed and an unsigned number, which is unsigned arithmetic.
  The walk reads the next element before it moves the current one, so it visits the list it
  starts with.
\<close>

definition rearrange_one :: "nat \<Rightarrow> mgr \<Rightarrow> mgr" where
  "rearrange_one sid m =
     (let diff = rto_now_ts (rto_store m) - ts_rto (sndvar (streams m sid)) in
      if sint diff < int RTO_HASH then
        let offset = unat ((diff + rto_now_idx (rto_store m)) mod of_nat RTO_HASH)
        in rto_insert_tail offset sid (set_rto_idx sid (int offset) (rto_remove RTO_HASH sid m))
      else m)"

definition rearrange_rto_store :: "mgr \<Rightarrow> mgr" where
  "rearrange_rto_store m = fold rearrange_one (rto_list (rto_store m) RTO_HASH) m"

text \<open>The inner loop of \<open>check_rtm_timeout\<close> over the list \<open>i\<close>, with its counter.\<close>

fun rtm_walk :: "u32 \<Rightarrow> int \<Rightarrow> nat \<Rightarrow> nat list \<Rightarrow> int \<Rightarrow> mgr \<Rightarrow> (int \<times> mgr) res" where
  "rtm_walk cur_ts thresh i [] cnt m = Inr (cnt, m)"
| "rtm_walk cur_ts thresh i (walk # rest) cnt m =
     (let cnt = cnt + 1 in
      if cnt > thresh then Inr (cnt, m)
      else if on_rto_idx (streams m walk) \<ge> 0 then
        let m = rto_remove i walk m;
            m = m\<lparr>rto_list_cnt := rto_list_cnt m - 1\<rparr>;
            m = set_rto_idx walk (- 1) m
        in andThen (handle_rto cur_ts walk m) (\<lambda>(_, m). rtm_walk cur_ts thresh i rest cnt m)
      else rtm_walk cur_ts thresh i rest cnt m)"

definition rtm_advance :: "mgr \<Rightarrow> mgr" where
  "rtm_advance m =
     (let m = m\<lparr>rto_store := (rto_store m)
                 \<lparr>rto_now_idx := (rto_now_idx (rto_store m) + 1) mod of_nat RTO_HASH,
                  rto_now_ts := rto_now_ts (rto_store m) + 1\<rparr>\<rparr>
      in if rto_now_idx (rto_store m) mod 1000 = 0 then rearrange_rto_store m else m)"

text \<open>The outer loop; \<open>None\<close> when \<open>fuel\<close> rounds are not enough.\<close>

fun rtm_loop :: "nat \<Rightarrow> u32 \<Rightarrow> int \<Rightarrow> int \<Rightarrow> mgr \<Rightarrow> mgr res option" where
  "rtm_loop 0 cur_ts thresh cnt m = None"
| "rtm_loop (Suc fuel) cur_ts thresh cnt m =
     (if sint (cur_ts - rto_now_ts (rto_store m)) < 0 then Some (Inr m)
      else
        let i = unat (rto_now_idx (rto_store m)) in
        case rtm_walk cur_ts thresh i (rto_list (rto_store m) i) cnt m of
          Inl e \<Rightarrow> Some (Inl e)
        | Inr (cnt, m) \<Rightarrow>
            if cnt < thresh then Some (Inr m) else rtm_loop fuel cur_ts thresh cnt (rtm_advance m))"

definition check_rtm_timeout :: "nat \<Rightarrow> u32 \<Rightarrow> int \<Rightarrow> mgr \<Rightarrow> mgr res option" where
  "check_rtm_timeout fuel cur_ts thresh m =
     (if rto_list_cnt m = 0 then Some (Inr m) else rtm_loop fuel cur_ts thresh 0 m)"

fun timewait_walk :: "u32 \<Rightarrow> int \<Rightarrow> nat list \<Rightarrow> int \<Rightarrow> mgr \<Rightarrow> mgr" where
  "timewait_walk cur_ts thresh [] cnt m = m"
| "timewait_walk cur_ts thresh (walk # rest) cnt m =
     (let cnt = cnt + 1; s = streams m walk in
      if cnt > thresh then m
      else if on_timewait_list s then
        (if sint (cur_ts - ts_tw_expire (rcvvar s)) \<ge> 0 then
           (if \<not> on_control_list (sndvar s) then
              let m = m\<lparr>timewait_list := remove1 walk (timewait_list m),
                        timewait_list_cnt := timewait_list_cnt m - 1\<rparr>;
                  m = upd walk (\<lambda>s. s\<lparr>on_timewait_list := False, state := CMT_TCP_CLOSE,
                                     close_reason := TCP_ACTIVE_CLOSE\<rparr>) m
              in timewait_walk cur_ts thresh rest cnt (stream_destroy walk m)
            else timewait_walk cur_ts thresh rest cnt m)
         else m)
      else timewait_walk cur_ts thresh rest cnt m)"

definition check_timewait_expire :: "u32 \<Rightarrow> int \<Rightarrow> mgr \<Rightarrow> mgr" where
  "check_timewait_expire cur_ts thresh m = timewait_walk cur_ts thresh (timewait_list m) 0 m"

fun timeout_walk :: "u32 \<Rightarrow> int \<Rightarrow> nat list \<Rightarrow> int \<Rightarrow> mgr \<Rightarrow> mgr" where
  "timeout_walk cur_ts thresh [] cnt m = m"
| "timeout_walk cur_ts thresh (walk # rest) cnt m =
     (let cnt = cnt + 1 in
      if cnt > thresh then m
      else if sint (cur_ts - last_active_ts (streams m walk)) \<ge> int (unat CMT_TCP_TMEOUT) * 1000 then
        let m = upd walk (\<lambda>s. s\<lparr>on_timeout_list := False\<rparr>) m;
            m = m\<lparr>timeout_list := remove1 walk (timeout_list m),
                  timeout_list_cnt := timeout_list_cnt m - 1\<rparr>;
            m = set_reason walk TCP_TIMEOUT (set_state walk CMT_TCP_CLOSE m);
            m = (if socket (streams m walk) then m else stream_destroy walk m)
        in timeout_walk cur_ts thresh rest cnt m
      else m)"

definition check_connection_timeout :: "u32 \<Rightarrow> int \<Rightarrow> mgr \<Rightarrow> mgr" where
  "check_connection_timeout cur_ts thresh m = timeout_walk cur_ts thresh (timeout_list m) 0 m"

subsection \<open>Effect on the streams\<close>

lemma streams_rto_prims [simp]:
  "streams (rto_insert_tail i sid m) = streams m"
  "streams (rto_remove i sid m) = streams m"
  "streams (set_rto_idx sid k m) = (streams m)(sid := (streams m sid)\<lparr>on_rto_idx := k\<rparr>)"
  by (simp_all add: rto_insert_tail_def rto_remove_def set_rto_idx_def)

lemma streams_remove_from_rto_list [simp]:
  "streams (remove_from_rto_list sid m) =
     (streams m)(sid := (streams m sid)
        \<lparr>on_rto_idx := (if on_rto_idx (streams m sid) < 0 then on_rto_idx (streams m sid) else - 1)\<rparr>)"
  by (auto simp: remove_from_rto_list_def Let_def fun_eq_iff)

definition rto_offset :: "u32 \<Rightarrow> u32 \<Rightarrow> nat" where
  "rto_offset ts now =
     (if sint (ts - now) < int RTO_HASH then unat (ts mod of_nat RTO_HASH) else RTO_HASH)"

lemma streams_add_to_rto_list [simp]:
  "streams (add_to_rto_list sid m) =
     (streams m)(sid := (streams m sid)\<lparr>on_rto_idx :=
        (if on_rto_idx (streams m sid) < 0
         then int (rto_offset (ts_rto (sndvar (streams m sid)))
                    (if rto_list_cnt m = 0 then ts_rto (sndvar (streams m sid))
                     else rto_now_ts (rto_store m)))
         else on_rto_idx (streams m sid))\<rparr>)"
  by (auto simp: add_to_rto_list_def Let_def fun_eq_iff rto_offset_def)

lemma streams_add_to_timewait_list [simp]:
  "streams (add_to_timewait_list sid ts m) =
     (streams m)(sid := rcvvar_update (ts_tw_expire_update (\<lambda>_. ts + CMT_TCP_TIMEWAIT))
        ((streams m sid)\<lparr>on_timewait_list := True, on_rto_idx :=
          (if on_rto_idx (streams m sid) < 0 \<or> on_timewait_list (streams m sid)
           then on_rto_idx (streams m sid) else - 1)\<rparr>))"
  by (auto simp: add_to_timewait_list_def Let_def fun_eq_iff)

lemma streams_remove_from_timewait_list:
  "remove_from_timewait_list sid m = Inr m' \<Longrightarrow> on_timewait_list (streams m sid) \<and>
    streams m' = (streams m)(sid := (streams m sid)\<lparr>on_timewait_list := False\<rparr>)"
  by (auto simp: remove_from_timewait_list_def split: if_splits)

lemma streams_add_to_timeout_list:
  "add_to_timeout_list sid m = Inr m' \<Longrightarrow> \<not> on_timeout_list (streams m sid) \<and>
    streams m' = (streams m)(sid := (streams m sid)\<lparr>on_timeout_list := True\<rparr>)"
  by (auto simp: add_to_timeout_list_def split: if_splits)

lemma streams_timeout_list [simp]:
  "streams (remove_from_timeout_list sid m) =
     (streams m)(sid := (streams m sid)\<lparr>on_timeout_list := False\<rparr>)"
  "streams (update_timeout_list sid m) = streams m"
  by (auto simp: remove_from_timeout_list_def update_timeout_list_def fun_eq_iff)

subsection \<open>The lists of the timers are well formed\<close>

definition on_tw :: "mgr \<Rightarrow> nat \<Rightarrow> bool" where "on_tw m s = on_timewait_list (streams m s)"
definition on_to :: "mgr \<Rightarrow> nat \<Rightarrow> bool" where "on_to m s = on_timeout_list (streams m s)"

interpretation tw: member_set on_tw timewait_list timewait_list_cnt
  "\<lambda>s m. Inr (add_to_timewait_list s ts m)" remove_from_timewait_list
  by unfold_locales
    (auto simp: on_tw_def fun_eq_iff add_to_timewait_list_def remove_from_timewait_list_def
      remove_from_rto_list_def rto_remove_def set_rto_idx_def upd_defs Let_def split: if_splits)

interpretation tmo: member_list on_to timeout_list timeout_list_cnt
  add_to_timeout_list "\<lambda>s m. Inr (remove_from_timeout_list s m)"
  by unfold_locales
    (auto simp: on_to_def fun_eq_iff add_to_timeout_list_def remove_from_timeout_list_def
      upd_defs Let_def split: if_splits)

definition rto_ok :: "mgr \<Rightarrow> bool" where
  "rto_ok m \<longleftrightarrow>
     (\<forall>i. distinct (rto_list (rto_store m) i)) \<and>
     (\<forall>i s. s \<in> set (rto_list (rto_store m) i) \<longleftrightarrow> on_rto_idx (streams m s) = int i) \<and>
     (\<forall>s. on_rto_idx (streams m s) \<le> int RTO_HASH) \<and>
     unat (rto_now_idx (rto_store m)) < RTO_HASH \<and>
     rto_list_cnt m = (\<Sum>i\<le>RTO_HASH. int (length (rto_list (rto_store m) i)))"

definition timers_ok :: "mgr \<Rightarrow> bool" where
  "timers_ok m \<longleftrightarrow> rto_ok m \<and> list_ok on_tw timewait_list timewait_list_cnt m \<and>
     list_ok on_to timeout_list timeout_list_cnt m"

text \<open>Length of one list changes, the sum over all changes with it.\<close>

lemma sum_length_upd:
  assumes "i \<le> (n :: nat)"
  shows "(\<Sum>j\<le>n. int (length (if j = i then l else L j))) =
           (\<Sum>j\<le>n. int (length (L j))) + int (length l) - int (length (L i))"
proof -
  have "(\<Sum>j\<le>n. int (length (if j = i then l else L j))) = int (length l) + (\<Sum>j\<in>{..n} - {i}. int (length (L j)))"
    using assms by (subst sum.remove [of _ i]) (auto intro: sum.cong)
  moreover have "(\<Sum>j\<le>n. int (length (L j))) = int (length (L i)) + (\<Sum>j\<in>{..n} - {i}. int (length (L j)))"
    using assms by (intro sum.remove) auto
  ultimately show ?thesis by simp
qed

lemma length_remove1_int: "x \<in> set l \<Longrightarrow> int (length (remove1 x l)) = int (length l) - 1"
  using length_pos_if_in_set [of x l] by (simp add: length_remove1 Suc_leI of_nat_diff)

lemma mod_rto_hash: "unat (w mod of_nat RTO_HASH :: u32) < RTO_HASH"
  by (simp add: RTO_HASH_def unat_mod)

lemma rto_offset_le: "rto_offset ts now \<le> RTO_HASH"
  using mod_rto_hash [of ts] by (simp add: rto_offset_def less_imp_le)

text \<open>The two elementary moves: out of a list, and into one.\<close>

definition rto_move_out :: "nat \<Rightarrow> mgr \<Rightarrow> mgr" where
  "rto_move_out sid m =
     (let m1 = set_rto_idx sid (- 1) (rto_remove (nat (on_rto_idx (streams m sid))) sid m)
      in m1\<lparr>rto_list_cnt := rto_list_cnt m1 - 1\<rparr>)"

definition rto_move_in :: "nat \<Rightarrow> nat \<Rightarrow> mgr \<Rightarrow> mgr" where
  "rto_move_in i sid m =
     (let m1 = rto_insert_tail i sid (set_rto_idx sid (int i) m)
      in m1\<lparr>rto_list_cnt := rto_list_cnt m1 + 1\<rparr>)"

lemma rto_ok_move_out:
  assumes ok: "rto_ok m" and on: "on_rto_idx (streams m sid) \<ge> 0"
  shows "rto_ok (rto_move_out sid m)"
proof -
  obtain i where i: "on_rto_idx (streams m sid) = int i" using on nonneg_int_cases by blast
  have "i \<le> RTO_HASH" using ok i unfolding rto_ok_def by (metis nat_int_comparison(3))
  moreover have "\<And>j. sid \<in> set (rto_list (rto_store m) j) \<longleftrightarrow> j = i"
    using ok i by (auto simp: rto_ok_def)
  ultimately show ?thesis using ok i
    by (auto simp: rto_ok_def rto_move_out_def rto_remove_def set_rto_idx_def upd_defs Let_def
        sum_length_upd length_remove1_int)
qed

lemma rto_ok_move_in:
  assumes ok: "rto_ok m" and off: "on_rto_idx (streams m sid) < 0" and i: "i \<le> RTO_HASH"
  shows "rto_ok (rto_move_in i sid m)"
proof -
  have "sid \<notin> set (rto_list (rto_store m) j)" for j
    using ok off unfolding rto_ok_def by force
  then show ?thesis using ok off i
    by (auto simp: rto_ok_def rto_move_in_def rto_insert_tail_def set_rto_idx_def upd_defs Let_def
        sum_length_upd)
qed

lemma rto_ok_remove: "rto_ok m \<Longrightarrow> rto_ok (remove_from_rto_list sid m)"
  using rto_ok_move_out [of m sid]
  by (auto simp: remove_from_rto_list_def rto_move_out_def)

lemma rto_ok_frame:
  "rto_ok m \<Longrightarrow> rto_list (rto_store m') = rto_list (rto_store m) \<Longrightarrow>
   rto_list_cnt m' = rto_list_cnt m \<Longrightarrow> unat (rto_now_idx (rto_store m')) < RTO_HASH \<Longrightarrow>
   (\<And>s. on_rto_idx (streams m' s) = on_rto_idx (streams m s)) \<Longrightarrow> rto_ok m'"
  by (simp add: rto_ok_def)

lemma rto_ok_add:
  assumes "rto_ok m"
  shows "rto_ok (add_to_rto_list sid m)"
proof -
  let ?m = "if rto_list_cnt m = 0 then m\<lparr>rto_store := (rto_store m)
              \<lparr>rto_now_idx := 0, rto_now_ts := ts_rto (sndvar (streams m sid))\<rparr>\<rparr> else m"
  let ?i = "rto_offset (ts_rto (sndvar (streams ?m sid))) (rto_now_ts (rto_store ?m))"
  have "rto_ok ?m" using assms by (auto intro: rto_ok_frame simp: RTO_HASH_def)
  moreover have "add_to_rto_list sid m =
      (if on_rto_idx (streams ?m sid) < 0 then rto_move_in ?i sid ?m else ?m)"
    by (simp add: add_to_rto_list_def rto_move_in_def rto_offset_def Let_def)
  ultimately show ?thesis using rto_ok_move_in [of ?m sid ?i] rto_offset_le by simp
qed

lemma list_ok_tw_frame:
  "list_ok on_tw timewait_list timewait_list_cnt m \<Longrightarrow> timewait_list m' = timewait_list m \<Longrightarrow>
   timewait_list_cnt m' = timewait_list_cnt m \<Longrightarrow>
   (\<And>s. on_timewait_list (streams m' s) = on_timewait_list (streams m s)) \<Longrightarrow>
   list_ok on_tw timewait_list timewait_list_cnt m'"
  by (simp add: list_ok_def on_tw_def)

lemma list_ok_to_frame:
  "list_ok on_to timeout_list timeout_list_cnt m \<Longrightarrow> timeout_list m' = timeout_list m \<Longrightarrow>
   timeout_list_cnt m' = timeout_list_cnt m \<Longrightarrow>
   (\<And>s. on_timeout_list (streams m' s) = on_timeout_list (streams m s)) \<Longrightarrow>
   list_ok on_to timeout_list timeout_list_cnt m'"
  by (simp add: list_ok_def on_to_def)

lemma timers_ok_frame:
  "timers_ok m \<Longrightarrow> rto_list (rto_store m') = rto_list (rto_store m) \<Longrightarrow>
   rto_list_cnt m' = rto_list_cnt m \<Longrightarrow> unat (rto_now_idx (rto_store m')) < RTO_HASH \<Longrightarrow>
   timewait_list m' = timewait_list m \<Longrightarrow> timewait_list_cnt m' = timewait_list_cnt m \<Longrightarrow>
   timeout_list m' = timeout_list m \<Longrightarrow> timeout_list_cnt m' = timeout_list_cnt m \<Longrightarrow>
   (\<And>s. on_rto_idx (streams m' s) = on_rto_idx (streams m s)) \<Longrightarrow>
   (\<And>s. on_timewait_list (streams m' s) = on_timewait_list (streams m s)) \<Longrightarrow>
   (\<And>s. on_timeout_list (streams m' s) = on_timeout_list (streams m s)) \<Longrightarrow> timers_ok m'"
  unfolding timers_ok_def
  by (intro conjI; elim conjE; (rule rto_ok_frame | rule list_ok_tw_frame | rule list_ok_to_frame)) auto

lemma timers_now_idx: "timers_ok m \<Longrightarrow> unat (rto_now_idx (rto_store m)) < RTO_HASH"
  by (simp add: timers_ok_def rto_ok_def)

lemma remove_from_rto_other [simp]:
  "timewait_list (remove_from_rto_list sid m) = timewait_list m"
  "timewait_list_cnt (remove_from_rto_list sid m) = timewait_list_cnt m"
  "timeout_list (remove_from_rto_list sid m) = timeout_list m"
  "timeout_list_cnt (remove_from_rto_list sid m) = timeout_list_cnt m"
  "snder (remove_from_rto_list sid m) = snder m"
  "flow_table (remove_from_rto_list sid m) = flow_table m"
  "lsnrs (remove_from_rto_list sid m) = lsnrs m"
  "listen_table (remove_from_rto_list sid m) = listen_table m"
  "calls (remove_from_rto_list sid m) = calls m"
  by (simp_all add: remove_from_rto_list_def Let_def rto_remove_def set_rto_idx_def upd_def)

lemma add_to_rto_other [simp]:
  "timewait_list (add_to_rto_list sid m) = timewait_list m"
  "timewait_list_cnt (add_to_rto_list sid m) = timewait_list_cnt m"
  "timeout_list (add_to_rto_list sid m) = timeout_list m"
  "timeout_list_cnt (add_to_rto_list sid m) = timeout_list_cnt m"
  "snder (add_to_rto_list sid m) = snder m"
  "flow_table (add_to_rto_list sid m) = flow_table m"
  "lsnrs (add_to_rto_list sid m) = lsnrs m"
  "listen_table (add_to_rto_list sid m) = listen_table m"
  "calls (add_to_rto_list sid m) = calls m"
  by (simp_all add: add_to_rto_list_def Let_def rto_insert_tail_def set_rto_idx_def upd_def)

lemma timers_ok_remove_rto: "timers_ok m \<Longrightarrow> timers_ok (remove_from_rto_list sid m)"
  by (simp add: timers_ok_def rto_ok_remove list_ok_def on_tw_def on_to_def)

lemma timers_ok_add_rto: "timers_ok m \<Longrightarrow> timers_ok (add_to_rto_list sid m)"
  by (simp add: timers_ok_def rto_ok_add list_ok_def on_tw_def on_to_def)

lemma timers_ok_add_timewait:
  assumes "timers_ok m"
  shows "timers_ok (add_to_timewait_list sid ts m)"
proof -
  have "rto_ok (remove_from_rto_list sid m)" "rto_ok m"
    using assms by (simp_all add: timers_ok_def rto_ok_remove)
  then have "rto_ok (add_to_timewait_list sid ts m)"
    by (cases "on_timewait_list (streams m sid)"; cases "on_rto_idx (streams m sid) < 0")
      (simp_all add: add_to_timewait_list_def Let_def upd_defs rto_ok_def remove_from_rto_list_def
        rto_remove_def set_rto_idx_def)
  moreover have "list_ok on_tw timewait_list timewait_list_cnt (add_to_timewait_list sid ts m)"
    using assms tw.add_ok [OF refl] by (simp add: timers_ok_def)
  moreover have "list_ok on_to timeout_list timeout_list_cnt (add_to_timewait_list sid ts m)"
    using assms unfolding timers_ok_def
    by (elim conjE list_ok_to_frame) (simp_all add: add_to_timewait_list_def Let_def upd_defs)
  ultimately show ?thesis by (simp add: timers_ok_def)
qed

lemma timers_ok_remove_timewait:
  assumes "remove_from_timewait_list sid m = Inr m'" "timers_ok m"
  shows "timers_ok m'"
proof -
  have "list_ok on_tw timewait_list timewait_list_cnt m'"
    using assms tw.rem_ok by (simp add: timers_ok_def)
  then show ?thesis using assms
    by (auto simp: timers_ok_def remove_from_timewait_list_def upd_def rto_ok_def list_ok_def
        on_to_def split: if_splits)
qed

lemma timers_ok_add_timeout:
  assumes "add_to_timeout_list sid m = Inr m'" "timers_ok m"
  shows "timers_ok m'"
proof -
  have "list_ok on_to timeout_list timeout_list_cnt m'"
    using assms tmo.add_ok by (simp add: timers_ok_def)
  then show ?thesis using assms
    by (auto simp: timers_ok_def add_to_timeout_list_def upd_def rto_ok_def list_ok_def
        on_tw_def split: if_splits)
qed

lemma timers_ok_remove_timeout:
  assumes "timers_ok m"
  shows "timers_ok (remove_from_timeout_list sid m)"
proof -
  have "list_ok on_to timeout_list timeout_list_cnt (remove_from_timeout_list sid m)"
    using assms tmo.rem_ok [OF refl] by (simp add: timers_ok_def)
  then show ?thesis using assms
    by (auto simp: timers_ok_def remove_from_timeout_list_def upd_def rto_ok_def list_ok_def
        on_tw_def)
qed

lemma timers_ok_update_timeout:
  assumes "timers_ok m"
  shows "timers_ok (update_timeout_list sid m)"
proof (cases "on_timeout_list (streams m sid)")
  case True
  with assms have "sid \<in> set (timeout_list m)" by (simp add: timers_ok_def list_ok_def on_to_def)
  moreover have "list_ok on_to timeout_list timeout_list_cnt m" using assms by (simp add: timers_ok_def)
  ultimately have "list_ok on_to timeout_list timeout_list_cnt (update_timeout_list sid m)"
    using True by (elim list_ok_to_tail) (simp_all add: update_timeout_list_def fun_eq_iff on_to_def)
  then show ?thesis using assms True
    by (auto simp: timers_ok_def update_timeout_list_def rto_ok_def list_ok_def on_tw_def)
next
  case False
  then show ?thesis using assms by (simp add: update_timeout_list_def)
qed

end
