(* ===== verification/Tcp_Invariant.thy ===== *)
theory Tcp_Invariant
  imports Timer
begin

text \<open>
  The well-formedness invariant of the per-core manager, and the contract by which a property of
  the manager is carried through the packet handlers. A handler changes the manager only by the
  elementary operations of the lists, timers and streams, so a property closed under these is
  closed under every handler. The locale \<open>mgr_step\<close> states the closure once, for operations
  that keep the connection state, and \<open>mgr_closed\<close> adds the change of state. They are
  interpreted on the invariant \<open>mgr_ok\<close>, on the frame property that a handler touches no
  stream but its own, and (\<open>mgr_step\<close>) on the state of one stream.
\<close>

subsection \<open>The invariant\<close>

definition mgr_ok :: "mgr \<Rightarrow> bool" where
  "mgr_ok m \<longleftrightarrow> sender_ok m \<and> timers_ok m \<and>
     ht_ok hash_flow equal_flow (streams m) (flow_table m)"

text \<open>The fields by which lists and tables refer to a stream.\<close>

definition snd_links :: "tcp_send \<Rightarrow> bool \<times> bool \<times> bool" where
  "snd_links v = (on_control_list v, on_send_list v, on_ack_list v)"

definition links :: "tcp_stream \<Rightarrow> (bool \<times> bool \<times> bool) \<times> int \<times> bool \<times> bool \<times> u32 \<times> u32 \<times> u16 \<times> u16" where
  "links s = (snd_links (sndvar s), on_rto_idx s, on_timewait_list s, on_timeout_list s,
              saddr s, daddr s, sport s, dport s)"

lemma ht_ok_flow_frame:
  assumes "ht_ok hash_flow equal_flow (streams m) ht"
    and "\<And>s. saddr (streams m' s) = saddr (streams m s)" "\<And>s. daddr (streams m' s) = daddr (streams m s)"
    and "\<And>s. sport (streams m' s) = sport (streams m s)" "\<And>s. dport (streams m' s) = dport (streams m s)"
  shows "ht_ok hash_flow equal_flow (streams m') ht"
  using assms by (simp add: ht_ok_def hash_flow_def flow_bytes_def equal_flow_def)

lemma mgr_ok_frame:
  assumes ok: "mgr_ok m" and l: "\<And>s. links (streams m' s) = links (streams m s)"
    and e: "snder m' = snder m" "rto_store m' = rto_store m" "rto_list_cnt m' = rto_list_cnt m"
      "timewait_list m' = timewait_list m" "timewait_list_cnt m' = timewait_list_cnt m"
      "timeout_list m' = timeout_list m" "timeout_list_cnt m' = timeout_list_cnt m"
      "flow_table m' = flow_table m"
  shows "mgr_ok m'"
proof -
  have s: "sender_ok m'"
    using ok l by (auto simp: mgr_ok_def links_def snd_links_def e intro!: sender_ok_frame [of m])
  have t: "timers_ok m'"
    using ok l timers_now_idx [of m]
    by (auto simp: mgr_ok_def links_def e intro!: timers_ok_frame [of m])
  have "ht_ok hash_flow equal_flow (streams m') (flow_table m)"
    using ok l by (auto simp: mgr_ok_def links_def intro!: ht_ok_flow_frame [of m])
  with s t e show ?thesis by (simp add: mgr_ok_def)
qed

lemma mgr_ok_upd:
  "mgr_ok m \<Longrightarrow> links (f (streams m s)) = links (streams m s) \<Longrightarrow> mgr_ok (upd s f m)"
  by (erule mgr_ok_frame) (auto simp: upd_def)

lemma rto_cwnd_links [simp]: "snd_links (handle_rto_cwnd v) = snd_links v"
  by (simp add: handle_rto_cwnd_def snd_links_def Let_def)

lemma rto_backoff_links [simp]: "snd_links (handle_rto_backoff s) = snd_links (sndvar s)"
  by (simp add: handle_rto_backoff_def snd_links_def Let_def)

subsection \<open>Carrying a property through the handlers\<close>

locale mgr_step =
  fixes P :: "mgr \<Rightarrow> bool" and mine :: "nat \<Rightarrow> bool"
  assumes upd_law: "P m \<Longrightarrow> mine s \<Longrightarrow> links (f (streams m s)) = links (streams m s) \<Longrightarrow>
      state (f (streams m s)) = state (streams m s) \<Longrightarrow> P (upd s f m)"
    and log_law: "P m \<Longrightarrow> P (log_call c m)"
    and accept_law: "P m \<Longrightarrow> P (m\<lparr>lsnrs := (lsnrs m)(l := k)\<rparr>)"
    and addctl_law: "P m \<Longrightarrow> mine s \<Longrightarrow> P (cmt_tcp_addto_controllist s m)"
    and remctl_law: "P m \<Longrightarrow> mine s \<Longrightarrow> P (cmt_tcp_remove_controllist s m)"
    and addack_law: "P m \<Longrightarrow> mine s \<Longrightarrow> P (cmt_tcp_addto_acklist s m)"
    and addsend_law: "P m \<Longrightarrow> mine s \<Longrightarrow> cmt_tcp_addto_sendlist s m = Inr m' \<Longrightarrow> P m'"
    and remsend_law: "P m \<Longrightarrow> mine s \<Longrightarrow> P (cmt_tcp_remove_sendlist s m)"
    and addrto_law: "P m \<Longrightarrow> mine s \<Longrightarrow> P (add_to_rto_list s m)"
    and remrto_law: "P m \<Longrightarrow> mine s \<Longrightarrow> P (remove_from_rto_list s m)"
    and addtw_law: "P m \<Longrightarrow> mine s \<Longrightarrow> P (add_to_timewait_list s ts m)"
    and remtw_law: "P m \<Longrightarrow> mine s \<Longrightarrow> remove_from_timewait_list s m = Inr m' \<Longrightarrow> P m'"
    and addto_law: "P m \<Longrightarrow> mine s \<Longrightarrow> add_to_timeout_list s m = Inr m' \<Longrightarrow> P m'"
    and updto_law: "P m \<Longrightarrow> mine s \<Longrightarrow> P (update_timeout_list s m)"
begin

lemma snd_closed:
  "P m \<Longrightarrow> mine s \<Longrightarrow> snd_links (f (sndvar (streams m s))) = snd_links (sndvar (streams m s)) \<Longrightarrow>
    P (upd_snd s f m)"
  unfolding upd_snd_def by (rule upd_law) (simp_all add: links_def)

lemma rcv_closed: "P m \<Longrightarrow> mine s \<Longrightarrow> P (upd_rcv s f m)"
  unfolding upd_rcv_def by (rule upd_law) (simp_all add: links_def)

lemma reason_closed: "P m \<Longrightarrow> mine s \<Longrightarrow> P (set_reason s r m)"
  unfolding set_reason_def by (rule upd_law) (simp_all add: links_def)

lemma call_closed: "P m \<Longrightarrow> P (stream_destroy s m)"
  "P m \<Longrightarrow> P (cmt_tcppkt_alone sa sp da dp sq ak fl m)"
  unfolding stream_destroy_def cmt_tcppkt_alone_def by (rule log_law, assumption)+

lemma enqack_closed: "P m \<Longrightarrow> mine s \<Longrightarrow> P (cmt_tcp_enqueue_acklist s opt m)"
  unfolding enqueue_acklist_alt by (intro addack_law snd_closed) (simp_all add: snd_links_def)

lemma rtx_timer_closed:
  "P m \<Longrightarrow> mine s \<Longrightarrow> update_retransmission_timer s ts m = Inr m' \<Longrightarrow> P m'"
  by (auto simp: update_retransmission_timer_def Let_def snd_links_def split: if_splits
      intro!: addrto_law remrto_law snd_closed)

end

text \<open>
  A property that also admits a change of the connection state is closed under every operation
  that keeps the links.
\<close>

locale mgr_closed = mgr_step +
  assumes state_closed: "P m \<Longrightarrow> mine s \<Longrightarrow> P (set_state s st m)"
begin

lemma upd_any:
  assumes "P m" "mine s" "links (f (streams m s)) = links (streams m s)"
  shows "P (upd s f m)"
proof -
  let ?g = "\<lambda>x. (f x)\<lparr>state := state x\<rparr>"
  have "P (upd s ?g m)" using assms by (intro upd_law) (simp_all add: links_def)
  then have "P (set_state s (state (f (streams m s))) (upd s ?g m))" using assms(2) by (rule state_closed)
  then show ?thesis by (simp add: set_state_def upd_def)
qed

lemma rto_fail_closed: "P m \<Longrightarrow> mine s \<Longrightarrow> P (handle_rto_fail s m)"
  by (auto simp: handle_rto_fail_def Let_def intro!: call_closed reason_closed state_closed)

lemma rto_resend_closed:
  assumes "P m" "mine s" "handle_rto_resend s m = Inr (r, m')"
  shows "P m'"
proof -
  let ?m = "upd s (\<lambda>s. s\<lparr>snd_nxt := snd_una (sndvar s)\<rparr>) m"
  have p: "P ?m" using assms by (intro upd_any) (simp_all add: links_def)
  have w: "P (upd s (\<lambda>s. s\<lparr>control_list_waiting := True\<rparr>) k)" if "P k" for k
    using that assms(2) by (intro upd_any) (simp_all add: links_def)
  show ?thesis using assms(2,3) p
    by (auto simp: handle_rto_resend_def Let_def andThen_Inr_iff split: if_splits
        intro: addctl_law dest: addsend_law [rotated 2] intro!: w remctl_law)
qed

lemma rto_closed:
  assumes "P m" "mine s" "handle_rto ts s m = Inr (r, m')"
  shows "P m'"
proof -
  have p: "P (upd s (\<lambda>s. s\<lparr>sndvar := handle_rto_cwnd (handle_rto_backoff s)\<rparr>) m)"
    using assms by (intro upd_any) (simp_all add: links_def)
  show ?thesis using assms p
    by (auto simp: handle_rto_def Let_def split: if_splits
        intro: rto_fail_closed rto_resend_closed intro!: call_closed reason_closed state_closed)
qed

end

subsection \<open>The invariant is carried\<close>

lemma table_ok_upd:
  "ht_ok hash_flow equal_flow (streams m) ht \<Longrightarrow>
   saddr x = saddr (streams m s) \<Longrightarrow> daddr x = daddr (streams m s) \<Longrightarrow>
   sport x = sport (streams m s) \<Longrightarrow> dport x = dport (streams m s) \<Longrightarrow>
   ht_ok hash_flow equal_flow ((streams m)(s := x)) ht"
  using ht_ok_flow_frame [of m ht "m\<lparr>streams := (streams m)(s := x)\<rparr>"] by simp

lemma sender_lists_other [simp]:
  "flow_table (cmt_tcp_addto_controllist s m) = flow_table m"
  "flow_table (cmt_tcp_remove_controllist s m) = flow_table m"
  "flow_table (cmt_tcp_addto_acklist s m) = flow_table m"
  "flow_table (cmt_tcp_remove_sendlist s m) = flow_table m"
  "rto_store (cmt_tcp_addto_controllist s m) = rto_store m"
  "rto_store (cmt_tcp_remove_controllist s m) = rto_store m"
  "rto_store (cmt_tcp_addto_acklist s m) = rto_store m"
  "rto_store (cmt_tcp_remove_sendlist s m) = rto_store m"
  by (simp_all add: sender_list_defs Let_def upd_defs)

lemma timer_lists_other [simp]:
  "flow_table (add_to_timewait_list s ts m) = flow_table m"
  "flow_table (update_timeout_list s m) = flow_table m"
  "snder (add_to_timewait_list s ts m) = snder m"
  "snder (update_timeout_list s m) = snder m"
  by (simp_all add: add_to_timewait_list_def update_timeout_list_def Let_def upd_defs)

lemma timers_ok_sender_lists:
  assumes "timers_ok m"
  shows "timers_ok (cmt_tcp_addto_controllist s m)" "timers_ok (cmt_tcp_remove_controllist s m)"
    "timers_ok (cmt_tcp_addto_acklist s m)" "timers_ok (cmt_tcp_remove_sendlist s m)"
    "cmt_tcp_addto_sendlist s m = Inr m' \<Longrightarrow> timers_ok m'"
  using assms timers_now_idx [OF assms]
  by (auto simp: sender_list_defs Let_def upd_defs split: if_splits intro!: timers_ok_frame [of m])

lemma mgr_ok_split:
  "mgr_ok m \<Longrightarrow> sender_ok m' \<Longrightarrow> timers_ok m' \<Longrightarrow> flow_table m' = flow_table m \<Longrightarrow>
   (\<And>t. saddr (streams m' t) = saddr (streams m t) \<and> daddr (streams m' t) = daddr (streams m t) \<and>
     sport (streams m' t) = sport (streams m t) \<and> dport (streams m' t) = dport (streams m t)) \<Longrightarrow>
   mgr_ok m'"
  unfolding mgr_ok_def by (simp add: ht_ok_flow_frame [of m])

lemma mgr_ok_parts: "mgr_ok m \<Longrightarrow> sender_ok m" "mgr_ok m \<Longrightarrow> timers_ok m"
  by (simp_all add: mgr_ok_def)

text \<open>An operation that leaves the sender, the flow table and every flow alone.\<close>

lemma mgr_ok_timer_step:
  assumes "mgr_ok m" "timers_ok m'" "snder m' = snder m" "flow_table m' = flow_table m"
    and "\<And>t. sndvar (streams m' t) = sndvar (streams m t)"
    and "\<And>t. saddr (streams m' t) = saddr (streams m t) \<and> daddr (streams m' t) = daddr (streams m t) \<and>
     sport (streams m' t) = sport (streams m t) \<and> dport (streams m' t) = dport (streams m t)"
  shows "mgr_ok m'"
  using assms mgr_ok_parts(1) [OF assms(1)]
  by (intro mgr_ok_split [OF assms(1)] sender_ok_frame [of m m']) simp_all

lemma mgr_ok_sender_step:
  assumes "mgr_ok m" "sender_ok m'" "timers_ok m'" "flow_table m' = flow_table m"
    and "streams m' = (streams m)(s := sndvar_update f (streams m s))"
  shows "mgr_ok m'"
  using assms by (intro mgr_ok_split [OF assms(1)]) simp_all

lemma mgr_ok_timer_ops:
  assumes "mgr_ok m"
  shows "mgr_ok (add_to_rto_list s m)" "mgr_ok (remove_from_rto_list s m)"
    "mgr_ok (add_to_timewait_list s ts m)" "mgr_ok (update_timeout_list s m)"
proof -
  note t = mgr_ok_parts(2) [OF assms]
  show "mgr_ok (add_to_rto_list s m)"
    by (rule mgr_ok_timer_step [OF assms timers_ok_add_rto [OF t]]) simp_all
  show "mgr_ok (remove_from_rto_list s m)"
    by (rule mgr_ok_timer_step [OF assms timers_ok_remove_rto [OF t]]) simp_all
  show "mgr_ok (add_to_timewait_list s ts m)"
    by (rule mgr_ok_timer_step [OF assms timers_ok_add_timewait [OF t]]) simp_all
  show "mgr_ok (update_timeout_list s m)"
    by (rule mgr_ok_timer_step [OF assms timers_ok_update_timeout [OF t]]) simp_all
qed

lemma mgr_ok_remove_timewait:
  assumes "mgr_ok m" and r: "remove_from_timewait_list s m = Inr m'"
  shows "mgr_ok m'"
proof (rule mgr_ok_timer_step [OF assms(1)])
  show "timers_ok m'" by (rule timers_ok_remove_timewait [OF r mgr_ok_parts(2) [OF assms(1)]])
qed (use r in \<open>auto simp: remove_from_timewait_list_def upd_def split: if_splits\<close>)

lemma mgr_ok_add_timeout:
  assumes "mgr_ok m" and r: "add_to_timeout_list s m = Inr m'"
  shows "mgr_ok m'"
proof (rule mgr_ok_timer_step [OF assms(1)])
  show "timers_ok m'" by (rule timers_ok_add_timeout [OF r mgr_ok_parts(2) [OF assms(1)]])
qed (use r in \<open>auto simp: add_to_timeout_list_def upd_def split: if_splits\<close>)

lemma mgr_ok_sender_ops:
  assumes "mgr_ok m"
  shows "mgr_ok (cmt_tcp_addto_controllist s m)" "mgr_ok (cmt_tcp_remove_controllist s m)"
    "mgr_ok (cmt_tcp_addto_acklist s m)" "mgr_ok (cmt_tcp_remove_sendlist s m)"
proof -
  note k = mgr_ok_parts [OF assms]
  note t = timers_ok_sender_lists(1-4) [OF k(2)]
  show "mgr_ok (cmt_tcp_addto_controllist s m)"
    by (rule mgr_ok_sender_step [OF assms sender_ok_controllist(1) [OF k(1)] t(1)]) simp_all
  show "mgr_ok (cmt_tcp_remove_controllist s m)"
    by (rule mgr_ok_sender_step [OF assms sender_ok_controllist(2) [OF k(1)] t(2)]) simp_all
  show "mgr_ok (cmt_tcp_addto_acklist s m)"
    by (rule mgr_ok_sender_step [OF assms sender_ok_acklist(1) [OF k(1)] t(3)]) simp_all
  show "mgr_ok (cmt_tcp_remove_sendlist s m)"
    by (rule mgr_ok_sender_step [OF assms sender_ok_remove_sendlist [OF k(1)] t(4)]) simp_all
qed

lemma mgr_ok_addto_sendlist:
  assumes "mgr_ok m" and a: "cmt_tcp_addto_sendlist s m = Inr m'"
  shows "mgr_ok m'"
proof (rule mgr_ok_sender_step [OF assms(1)])
  show "sender_ok m'" by (rule sender_ok_addto_sendlist [OF a mgr_ok_parts(1) [OF assms(1)]])
  show "timers_ok m'" by (rule timers_ok_sender_lists(5) [OF mgr_ok_parts(2) [OF assms(1)] a])
  show "flow_table m' = flow_table m"
    using a by (auto simp: sender_list_defs Let_def upd_defs split: if_splits)
  show "streams m' = (streams m)(s := sndvar_update (on_send_list_update (\<lambda>_. True)) (streams m s))"
    using streams_addto_sendlist [OF a] by simp
qed

interpretation okm: mgr_closed mgr_ok "\<lambda>_. True"
proof unfold_locales
  fix m :: mgr and l k assume "mgr_ok m"
  then show "mgr_ok (m\<lparr>lsnrs := (lsnrs m)(l := k)\<rparr>)" by (rule mgr_ok_frame) simp_all
next
  fix m c assume "mgr_ok m"
  then show "mgr_ok (log_call c m)" by (rule mgr_ok_frame) (simp_all add: log_call_def)
next
  fix m s st assume "mgr_ok m"
  then show "mgr_ok (set_state s st m)" unfolding set_state_def by (rule mgr_ok_upd) (simp add: links_def)
qed (erule mgr_ok_upd mgr_ok_timer_ops mgr_ok_sender_ops
      mgr_ok_addto_sendlist mgr_ok_remove_timewait mgr_ok_add_timeout; assumption)+

subsection \<open>Other streams are left alone\<close>

definition untouched :: "mgr \<Rightarrow> nat \<Rightarrow> mgr \<Rightarrow> bool" where
  "untouched m0 sid m \<longleftrightarrow>
     (\<forall>t. t \<noteq> sid \<longrightarrow> streams m t = streams m0 t) \<and> flow_table m = flow_table m0 \<and>
     listen_table m = listen_table m0 \<and>
     saddr (streams m sid) = saddr (streams m0 sid) \<and> daddr (streams m sid) = daddr (streams m0 sid) \<and>
     sport (streams m sid) = sport (streams m0 sid) \<and> dport (streams m sid) = dport (streams m0 sid)"

lemma untouched_refl: "untouched m sid m"
  by (simp add: untouched_def)

lemma tables_other [simp]:
  "listen_table (cmt_tcp_addto_controllist s m) = listen_table m"
  "listen_table (cmt_tcp_remove_controllist s m) = listen_table m"
  "listen_table (cmt_tcp_addto_acklist s m) = listen_table m"
  "listen_table (cmt_tcp_remove_sendlist s m) = listen_table m"
  "listen_table (add_to_timewait_list s ts m) = listen_table m"
  "listen_table (update_timeout_list s m) = listen_table m"
  by (simp_all add: sender_list_defs add_to_timewait_list_def update_timeout_list_def Let_def upd_defs)

interpretation frm: mgr_closed "untouched m0 sid" "\<lambda>s. s = sid"
proof unfold_locales
  fix m s f assume "untouched m0 sid m" "s = sid"
    "links (f (streams m s)) = links (streams m s)"
  then show "untouched m0 sid (upd s f m)" by (simp add: untouched_def upd_def links_def)
next
  fix m m' s assume "untouched m0 sid m" "s = sid" "cmt_tcp_addto_sendlist s m = Inr m'"
  then show "untouched m0 sid m'"
    by (auto simp: untouched_def sender_list_defs Let_def upd_defs split: if_splits)
next
  fix m m' s assume "untouched m0 sid m" "s = sid" "remove_from_timewait_list s m = Inr m'"
  then show "untouched m0 sid m'"
    by (auto simp: untouched_def remove_from_timewait_list_def upd_defs split: if_splits)
next
  fix m m' s assume "untouched m0 sid m" "s = sid" "add_to_timeout_list s m = Inr m'"
  then show "untouched m0 sid m'"
    by (auto simp: untouched_def add_to_timeout_list_def upd_defs split: if_splits)
qed (simp_all add: untouched_def log_call_def)

subsection \<open>The state of a stream\<close>

text \<open>The elementary operations leave every connection state alone.\<close>

interpretation stm: mgr_step "\<lambda>m. state (streams m t) = st" "\<lambda>_. True"
proof unfold_locales
  fix m m' s assume "state (streams m t) = st" "cmt_tcp_addto_sendlist s m = Inr m'"
  then show "state (streams m' t) = st" by (auto simp: streams_addto_sendlist)
next
  fix m m' s assume "state (streams m t) = st" "remove_from_timewait_list s m = Inr m'"
  then show "state (streams m' t) = st"
    by (auto simp: remove_from_timewait_list_def upd_defs split: if_splits)
next
  fix m m' s assume "state (streams m t) = st" "add_to_timeout_list s m = Inr m'"
  then show "state (streams m' t) = st"
    by (auto simp: add_to_timeout_list_def upd_defs split: if_splits)
qed (auto simp: log_call_def)

subsection \<open>A manager without connections\<close>

text \<open>
  The state all lists and tables are empty in, with every stream object blank. The examples of the development start from it.
\<close>

definition idle_mgr :: mgr where
  "idle_mgr = \<lparr>streams = (\<lambda>_. blank_stream),
     snder = \<lparr>control_list = [], send_list = [], ack_list = [],
              control_list_cnt = 0, send_list_cnt = 0, ack_list_cnt = 0\<rparr>,
     rto_store = \<lparr>rto_now_idx = 0, rto_now_ts = 0, rto_list = (\<lambda>_. [])\<rparr>,
     timewait_list = [], timeout_list = [], rto_list_cnt = 0, timewait_list_cnt = 0,
     timeout_list_cnt = 0, flow_table = \<lparr>ht_count = 0, bins = 0, table = (\<lambda>_. [])\<rparr>,
     lsnrs = (\<lambda>_. \<lparr>l_port = 0, l_addr = 0,
                   acceptq = \<lparr>sq_capacity = 1, sq_head = 0, sq_tail = 0, sq_q = [None, None]\<rparr>\<rparr>),
     listen_table = \<lparr>ht_count = 0, bins = 0, table = (\<lambda>_. [])\<rparr>, calls = []\<rparr>"

lemmas idle_defs = idle_mgr_def blank_stream_def blank_send_def blank_recv_def

lemma idle_mgr_ok: "mgr_ok idle_mgr"
  by (auto simp: mgr_ok_def sender_ok_def timers_ok_def rto_ok_def list_ok_def on_defs on_tw_def
      on_to_def ht_ok_def idle_defs RTO_HASH_def)

text \<open>One stream set up by \<open>f\<close> in an idle manager.\<close>

definition with_stream :: "nat \<Rightarrow> (tcp_stream \<Rightarrow> tcp_stream) \<Rightarrow> mgr" where
  "with_stream s f = upd s f idle_mgr"

lemma with_stream_ok: "links (f blank_stream) = links blank_stream \<Longrightarrow> mgr_ok (with_stream s f)"
  unfolding with_stream_def by (rule mgr_ok_upd [OF idle_mgr_ok]) (simp add: idle_mgr_def)

subsection \<open>Properties\<close>

text \<open>
  C33: The control, send and acknowledgement lists behave like lists without duplicates: under
  every sequence of additions and removals that returns, each list is what the sequence gives on
  the abstract list (an absent stream enters at the tail, a present one stays where it is, a
  removed one leaves), the flag of every stream says whether it is on the list, and the counter is
  its length modulo \<open>2 ^ 32\<close>.
\<close>

theorem sender_lists_run:
  assumes "sender_ok m"
  shows "(list_run (\<lambda>s m. Inr (cmt_tcp_addto_controllist s m)) (\<lambda>s m. Inr (cmt_tcp_remove_controllist s m)) ops m = Inr m1 \<longrightarrow>
      control_list (snder m1) = list_spec ops (control_list (snder m)) \<and>
      list_ok on_ctl (\<lambda>m. control_list (snder m)) (\<lambda>m. control_list_cnt (snder m)) m1) \<and>
    (list_run cmt_tcp_addto_sendlist (\<lambda>s m. Inr (cmt_tcp_remove_sendlist s m)) ops m = Inr m2 \<longrightarrow>
      send_list (snder m2) = list_spec ops (send_list (snder m)) \<and>
      list_ok on_snd (\<lambda>m. send_list (snder m)) (\<lambda>m. send_list_cnt (snder m)) m2) \<and>
    (list_run (\<lambda>s m. Inr (cmt_tcp_addto_acklist s m)) (\<lambda>s m. Inr (cmt_tcp_remove_acklist s m)) ops m = Inr m3 \<longrightarrow>
      ack_list (snder m3) = list_spec ops (ack_list (snder m)) \<and>
      list_ok on_ack (\<lambda>m. ack_list (snder m)) (\<lambda>m. ack_list_cnt (snder m)) m3)"
  using assms ctl.run_spec [of ops m m1] snd.run_spec [of ops m m2] ack.run_spec [of ops m m3]
  by (simp_all add: sender_ok_def)

theorem sender_lists_run_witness:
  "\<exists>m1. list_run (\<lambda>s m. Inr (cmt_tcp_addto_controllist s m)) (\<lambda>s m. Inr (cmt_tcp_remove_controllist s m))
      [LAdd 1, LAdd 2, LAdd 1, LRem 1, LAdd 3] idle_mgr = Inr m1 \<and> control_list (snder m1) = [2, 3]"
proof -
  have "sender_ok idle_mgr" using idle_mgr_ok by (simp add: mgr_ok_def)
  from sender_lists_run [OF this, of "[LAdd 1, LAdd 2, LAdd 1, LRem 1, LAdd 3]"]
  show ?thesis by (simp add: idle_mgr_def)
qed

end
