(* ===== verification/Timer_Checks.thy ===== *)
theory Timer_Checks
  imports Tcp_Invariant
begin

text \<open>
  What the periodic checks of \<open>src/timer.c\<close> do: which streams the timeout checks close,
  that the retransmission check ends, when its clock stands still, and that all of them keep the
  invariant of the manager.
\<close>

subsection \<open>Retransmission check\<close>

lemma sender_rto_other [simp]:
  "rto_list_cnt (cmt_tcp_addto_controllist s m) = rto_list_cnt m"
  "rto_list_cnt (cmt_tcp_remove_controllist s m) = rto_list_cnt m"
  by (simp_all add: sender_list_defs Let_def)

lemma addto_sendlist_rto:
  "cmt_tcp_addto_sendlist s m = Inr m' \<Longrightarrow> rto_store m' = rto_store m \<and> rto_list_cnt m' = rto_list_cnt m"
  by (auto simp: sender_list_defs Let_def split: if_splits)

lemma handle_rto_resend_store:
  "handle_rto_resend s m = Inr (r, m') \<Longrightarrow> rto_store m' = rto_store m \<and> rto_list_cnt m' = rto_list_cnt m"
  by (auto simp: handle_rto_resend_def Let_def andThen_Inr_iff split: if_splits dest!: addto_sendlist_rto)

lemma handle_rto_store:
  "handle_rto ts s m = Inr (r, m') \<Longrightarrow> rto_store m' = rto_store m \<and> rto_list_cnt m' = rto_list_cnt m"
  by (auto simp: handle_rto_def handle_rto_fail_def Let_def split: if_splits dest!: handle_rto_resend_store)

lemma handle_rto_others: "handle_rto ts s m = Inr (r, m') \<Longrightarrow> t \<noteq> s \<Longrightarrow> streams m' t = streams m t"
  using frm.rto_closed [of m s m s ts r m'] untouched_refl [of m s] by (simp add: untouched_def)

text \<open>Taking the current element off its list is \<open>remove_from_rto_list\<close>.\<close>

lemma rtm_take:
  assumes "on_rto_idx (streams m w) = int i"
  shows "set_rto_idx w (- 1) ((rto_remove i w m)\<lparr>rto_list_cnt := rto_list_cnt (rto_remove i w m) - 1\<rparr>)
           = remove_from_rto_list w m"
  using assms by (simp add: remove_from_rto_list_def set_rto_idx_def upd_def rto_remove_def Let_def)

text \<open>The streams the walk handles: a prefix of the list, none of them left on it.\<close>

lemma rtm_walk_spec:
  assumes "mgr_ok m" "distinct ws" "\<forall>w\<in>set ws. on_rto_idx (streams m w) = int i"
    and "rtm_walk ts thresh i ws cnt m = Inr (c, m')" "cnt \<le> thresh"
  shows "mgr_ok m' \<and> rto_now_ts (rto_store m') = rto_now_ts (rto_store m) \<and>
    rto_now_idx (rto_store m') = rto_now_idx (rto_store m) \<and>
    (\<forall>j. j \<noteq> i \<longrightarrow> rto_list (rto_store m') j = rto_list (rto_store m) j) \<and>
    c = min (thresh + 1) (cnt + int (length ws)) \<and>
    (\<forall>t. t \<notin> set (take (nat (thresh - cnt)) ws) \<longrightarrow> streams m' t = streams m t) \<and>
    (\<forall>t\<in>set (take (nat (thresh - cnt)) ws). t \<notin> set (rto_list (rto_store m') i))"
  using assms
proof (induction ws arbitrary: cnt m)
  case Nil
  then show ?case by simp
next
  case (Cons w ws)
  show ?case
  proof (cases "cnt + 1 > thresh")
    case True
    then show ?thesis using Cons.prems by (simp add: Let_def)
  next
    case False
    let ?m = "remove_from_rto_list w m"
    have i: "on_rto_idx (streams m w) = int i" using Cons.prems by simp
    with Cons.prems(4) False obtain r m1 where
      h: "handle_rto ts w ?m = Inr (r, m1)" "rtm_walk ts thresh i ws (cnt + 1) m1 = Inr (c, m')"
      by (auto simp: Let_def andThen_Inr_iff rtm_take)
    have ok: "mgr_ok ?m" "mgr_ok m1"
      using mgr_ok_timer_ops(2) [OF Cons.prems(1)] okm.rto_closed [OF _ _ h(1)] by auto
    have st: "rto_store m1 = rto_store ?m" using handle_rto_store [OF h(1)] by simp
    have sm: "streams m1 t = streams m t" if "t \<noteq> w" for t
      using handle_rto_others [OF h(1) that] that by simp
    have idx: "\<forall>v\<in>set ws. on_rto_idx (streams m1 v) = int i" "distinct ws"
      using Cons.prems(2,3) sm by auto metis
    have ih: "mgr_ok m' \<and> rto_now_ts (rto_store m') = rto_now_ts (rto_store m1) \<and>
      rto_now_idx (rto_store m') = rto_now_idx (rto_store m1) \<and>
      (\<forall>j. j \<noteq> i \<longrightarrow> rto_list (rto_store m') j = rto_list (rto_store m1) j) \<and>
      c = min (thresh + 1) (cnt + 1 + int (length ws)) \<and>
      (\<forall>t. t \<notin> set (take (nat (thresh - (cnt + 1))) ws) \<longrightarrow> streams m' t = streams m1 t) \<and>
      (\<forall>t\<in>set (take (nat (thresh - (cnt + 1))) ws). t \<notin> set (rto_list (rto_store m') i))"
      using False by (intro Cons.IH [OF ok(2) idx(2,1) h(2)]) simp
    have tk: "take (nat (thresh - cnt)) (w # ws) = w # take (nat (thresh - (cnt + 1))) ws"
    proof -
      have "nat (thresh - cnt) = Suc (nat (thresh - (cnt + 1)))" using False by simp
      then show ?thesis by simp
    qed
    have w': "w \<notin> set (take (nat (thresh - (cnt + 1))) ws)"
      using Cons.prems(2) by (meson distinct.simps(2) in_set_takeD)
    have "streams m' w = streams m1 w" using ih w' by simp
    moreover have "on_rto_idx (streams ?m w) \<noteq> int i" using i by simp
    then have "on_rto_idx (streams m1 w) \<noteq> int i"
      using ok st unfolding mgr_ok_def timers_ok_def rto_ok_def by metis
    ultimately have "on_rto_idx (streams m' w) \<noteq> int i" by simp
    then have out: "w \<notin> set (rto_list (rto_store m') i)"
      using ih unfolding mgr_ok_def timers_ok_def rto_ok_def by blast
    have "rto_now_ts (rto_store ?m) = rto_now_ts (rto_store m)"
      "rto_now_idx (rto_store ?m) = rto_now_idx (rto_store m)"
      "\<forall>j. j \<noteq> i \<longrightarrow> rto_list (rto_store ?m) j = rto_list (rto_store m) j"
      using i by (simp_all add: remove_from_rto_list_def Let_def rto_remove_def set_rto_idx_def upd_def)
    then show ?thesis using ih st sm out unfolding tk by auto
  qed
qed

text \<open>Rearranging moves streams of the overflow list into their slots.\<close>

lemma rearrange_one_moves:
  assumes "on_rto_idx (streams m s) = int RTO_HASH"
  shows "rearrange_one s m = m \<or> (\<exists>i<RTO_HASH. rearrange_one s m = rto_move_in i s (remove_from_rto_list s m))"
proof (cases "sint (rto_now_ts (rto_store m) - ts_rto (sndvar (streams m s))) < int RTO_HASH")
  case True
  define i where "i = unat ((rto_now_ts (rto_store m) - ts_rto (sndvar (streams m s))
                       + rto_now_idx (rto_store m)) mod of_nat RTO_HASH)"
  have "rearrange_one s m = rto_move_in i s (remove_from_rto_list s m)"
    using assms True
    by (simp add: rearrange_one_def rto_move_in_def remove_from_rto_list_def Let_def set_rto_idx_def
        rto_insert_tail_def rto_remove_def upd_def i_def)
  moreover have "i < RTO_HASH" unfolding i_def by (rule mod_rto_hash)
  ultimately show ?thesis by blast
next
  case False
  then show ?thesis by (simp add: rearrange_one_def Let_def)
qed

lemma rto_move_in_simps [simp]:
  "streams (rto_move_in i s m) = (streams m)(s := (streams m s)\<lparr>on_rto_idx := int i\<rparr>)"
  "snder (rto_move_in i s m) = snder m" "flow_table (rto_move_in i s m) = flow_table m"
  "timewait_list (rto_move_in i s m) = timewait_list m"
  "timewait_list_cnt (rto_move_in i s m) = timewait_list_cnt m"
  "timeout_list (rto_move_in i s m) = timeout_list m"
  "timeout_list_cnt (rto_move_in i s m) = timeout_list_cnt m"
  "rto_now_ts (rto_store (rto_move_in i s m)) = rto_now_ts (rto_store m)"
  by (simp_all add: rto_move_in_def Let_def rto_insert_tail_def set_rto_idx_def upd_def)

lemma rearrange_one_ok:
  assumes "mgr_ok m" "on_rto_idx (streams m s) = int RTO_HASH"
  shows "mgr_ok (rearrange_one s m)"
proof -
  have "mgr_ok (rto_move_in i s (remove_from_rto_list s m))" if "i < RTO_HASH" for i
  proof -
    let ?m = "remove_from_rto_list s m"
    have ok: "mgr_ok ?m" by (rule mgr_ok_timer_ops(2) [OF assms(1)])
    then have t: "timers_ok ?m" by (rule mgr_ok_parts(2))
    have "on_rto_idx (streams ?m s) < 0" using assms(2) by simp
    with t that have "rto_ok (rto_move_in i s ?m)"
      by (intro rto_ok_move_in) (simp_all add: timers_ok_def)
    moreover have "list_ok on_tw timewait_list timewait_list_cnt (rto_move_in i s ?m)"
      "list_ok on_to timeout_list timeout_list_cnt (rto_move_in i s ?m)"
      by (rule list_ok_tw_frame [of ?m] list_ok_to_frame [of ?m], use t in \<open>simp_all add: timers_ok_def\<close>)+
    ultimately have "timers_ok (rto_move_in i s ?m)" by (simp add: timers_ok_def)
    then show ?thesis by (rule mgr_ok_timer_step [OF ok]) simp_all
  qed
  then show ?thesis using rearrange_one_moves [OF assms(2)] assms(1) by auto
qed

lemma rearrange_one_others: "t \<noteq> s \<Longrightarrow> streams (rearrange_one s m) t = streams m t"
  by (simp add: rearrange_one_def Let_def)

lemma rearrange_one_ts [simp]: "rto_now_ts (rto_store (rearrange_one s m)) = rto_now_ts (rto_store m)"
  by (simp add: rearrange_one_def rto_insert_tail_def rto_remove_def set_rto_idx_def upd_def Let_def)

lemma rearrange_fold_ok:
  "mgr_ok m \<Longrightarrow> distinct ws \<Longrightarrow> \<forall>w\<in>set ws. on_rto_idx (streams m w) = int RTO_HASH \<Longrightarrow>
   mgr_ok (fold rearrange_one ws m)"
proof (induction ws arbitrary: m)
  case (Cons w ws)
  have "\<forall>v\<in>set ws. on_rto_idx (streams (rearrange_one w m) v) = int RTO_HASH"
    using Cons.prems rearrange_one_others [of _ w m] by (metis distinct.simps(2) list.set_intros(2))
  with Cons show ?case by (simp add: rearrange_one_ok)
qed simp

lemma rearrange_ok: "mgr_ok m \<Longrightarrow> mgr_ok (rearrange_rto_store m)"
  unfolding rearrange_rto_store_def
  by (rule rearrange_fold_ok) (auto simp: mgr_ok_def timers_ok_def rto_ok_def)

lemma rearrange_ts: "rto_now_ts (rto_store (rearrange_rto_store m)) = rto_now_ts (rto_store m)"
proof -
  have "rto_now_ts (rto_store (fold rearrange_one ws m)) = rto_now_ts (rto_store m)" for ws
    by (induction ws arbitrary: m) simp_all
  then show ?thesis by (simp add: rearrange_rto_store_def)
qed

lemma rtm_advance_ts [simp]:
  "rto_now_ts (rto_store (rtm_advance m)) = rto_now_ts (rto_store m) + 1"
  by (simp add: rtm_advance_def Let_def rearrange_ts)

lemma rtm_advance_ok: "mgr_ok m \<Longrightarrow> mgr_ok (rtm_advance m)"
proof -
  assume ok: "mgr_ok m"
  let ?m = "m\<lparr>rto_store := (rto_store m)
                 \<lparr>rto_now_idx := (rto_now_idx (rto_store m) + 1) mod of_nat RTO_HASH,
                  rto_now_ts := rto_now_ts (rto_store m) + 1\<rparr>\<rparr>"
  have "timers_ok ?m"
    by (rule timers_ok_frame [OF mgr_ok_parts(2) [OF ok]]) (simp_all add: mod_rto_hash)
  then have "mgr_ok ?m" by (rule mgr_ok_timer_step [OF ok]) simp_all
  then show ?thesis by (simp add: rtm_advance_def Let_def rearrange_ok)
qed

subsection \<open>The loop of the retransmission check\<close>

lemma rtm_slot:
  assumes "mgr_ok m" "i = unat (rto_now_idx (rto_store m))"
  shows "distinct (rto_list (rto_store m) i)"
    "\<forall>w\<in>set (rto_list (rto_store m) i). on_rto_idx (streams m w) = int i"
  using assms by (auto simp: mgr_ok_def timers_ok_def rto_ok_def)

lemma rtm_walk_over:
  "cnt > thresh \<Longrightarrow> rtm_walk ts thresh i ws cnt m = Inr (c, m') \<Longrightarrow> m' = m \<and> cnt \<le> c"
  by (cases ws) (auto simp: Let_def)

lemma rtm_walk_step:
  assumes "mgr_ok m" "i = unat (rto_now_idx (rto_store m))"
    and "rtm_walk ts thresh i (rto_list (rto_store m) i) cnt m = Inr (c, m')"
  shows "mgr_ok m' \<and> rto_now_ts (rto_store m') = rto_now_ts (rto_store m)"
proof (cases "cnt \<le> thresh")
  case True
  show ?thesis using rtm_walk_spec [OF assms(1) rtm_slot [OF assms(1,2)] assms(3) True] by simp
next
  case False
  then show ?thesis using rtm_walk_over [OF _ assms(3)] assms(1) by simp
qed

lemma rtm_loop_ok:
  "mgr_ok m \<Longrightarrow> rtm_loop fuel ts thresh cnt m = Some (Inr m') \<Longrightarrow> mgr_ok m'"
proof (induction fuel arbitrary: cnt m)
  case (Suc fuel)
  let ?i = "unat (rto_now_idx (rto_store m))"
  show ?case
  proof (cases "sint (ts - rto_now_ts (rto_store m)) < 0")
    case True
    then show ?thesis using Suc.prems by simp
  next
    case False
    with Suc.prems(2) obtain c m1 where
      w: "rtm_walk ts thresh ?i (rto_list (rto_store m) ?i) cnt m = Inr (c, m1)"
      by (auto simp: Let_def split: sum.splits)
    then have "mgr_ok m1" using rtm_walk_step [OF Suc.prems(1) refl w] by simp
    then show ?thesis
      using Suc.prems(2) Suc.IH [OF rtm_advance_ok, of m1 c] False w
      by (auto simp: Let_def split: if_splits)
  qed
qed simp

text \<open>Every round advances the clock of the store, which never passes the current time.\<close>

lemma sint_neg_u32: "sint (w :: u32) < 0 \<longleftrightarrow> \<not> unat w < 2147483648"
  using SEQ_LT_iff [of w 0] by (simp add: TCP_SEQ_LT_def)

lemma rtm_loop_ends:
  "mgr_ok m \<Longrightarrow> (sint (ts - rto_now_ts (rto_store m)) < 0 \<and> 1 \<le> fuel) \<or>
     unat (ts - rto_now_ts (rto_store m)) + 2 \<le> fuel \<Longrightarrow>
   \<exists>r. rtm_loop fuel ts thresh cnt m = Some r"
proof (induction fuel arbitrary: cnt m)
  case (Suc fuel)
  let ?d = "ts - rto_now_ts (rto_store m)" and ?i = "unat (rto_now_idx (rto_store m))"
  show ?case
  proof (cases "sint ?d < 0")
    case True
    then show ?thesis by simp
  next
    case False
    then have f: "unat ?d + 2 \<le> Suc fuel" using Suc.prems(2) by simp
    show ?thesis
    proof (cases "rtm_walk ts thresh ?i (rto_list (rto_store m) ?i) cnt m")
      case (Inl e)
      then show ?thesis using False by (simp add: Let_def)
    next
      case (Inr p)
      obtain c m1 where p: "p = (c, m1)" by (cases p)
      note st = rtm_walk_step [OF Suc.prems(1) refl Inr [unfolded p]]
      have d: "ts - rto_now_ts (rto_store (rtm_advance m1)) = ?d - 1" using st by simp
      have "(sint (?d - 1) < 0 \<and> 1 \<le> fuel) \<or> unat (?d - 1) + 2 \<le> fuel"
      proof (cases "?d = 0")
        case True
        then show ?thesis using f unfolding True by simp
      next
        case False
        then have "unat ?d \<noteq> 0" by (simp add: unat_eq_zero)
        then have "unat (?d - 1) = unat ?d - 1" by (simp add: unat_sub_no_wrap)
        then show ?thesis using f \<open>unat ?d \<noteq> 0\<close> by simp
      qed
      then have "\<exists>r. rtm_loop fuel ts thresh c (rtm_advance m1) = Some r"
        by (intro Suc.IH rtm_advance_ok) (use st in \<open>simp, simp only: d\<close>)
      then show ?thesis using False Inr p by (auto simp: Let_def)
    qed
  qed
qed simp

subsection \<open>The timeout lists\<close>

definition idle_too_long :: "u32 \<Rightarrow> mgr \<Rightarrow> nat \<Rightarrow> bool" where
  "idle_too_long ts m s \<longleftrightarrow> sint (ts - last_active_ts (streams m s)) \<ge> 30000"

text \<open>The closing of one stream by the connection timeout.\<close>

definition timeout_close :: "nat \<Rightarrow> mgr \<Rightarrow> mgr" where
  "timeout_close w m =
     (let m = remove_from_timeout_list w m;
          m = set_reason w TCP_TIMEOUT (set_state w CMT_TCP_CLOSE m)
      in if socket (streams m w) then m else stream_destroy w m)"

lemma timeout_walk_step:
  assumes "on_timeout_list (streams m w)"
  shows "timeout_walk ts thresh (w # ws) cnt m =
    (if cnt + 1 > thresh \<or> \<not> idle_too_long ts m w then m
     else timeout_walk ts thresh ws (cnt + 1) (timeout_close w m))"
proof -
  have "int (unat CMT_TCP_TMEOUT) * 1000 = 30000" by (simp add: CMT_TCP_TMEOUT_def)
  then show ?thesis using assms
    by (simp add: Let_def idle_too_long_def timeout_close_def remove_from_timeout_list_def)
qed

lemma timeout_close_ok:
  assumes "mgr_ok m"
  shows "mgr_ok (timeout_close w m)"
proof -
  have "mgr_ok (remove_from_timeout_list w m)"
    by (rule mgr_ok_timer_step [OF assms timers_ok_remove_timeout [OF mgr_ok_parts(2) [OF assms]]])
      (simp_all add: remove_from_timeout_list_def upd_def)
  then show ?thesis
    by (auto simp: timeout_close_def Let_def intro!: okm.call_closed okm.reason_closed okm.state_closed)
qed

lemma timeout_close_streams:
  "streams (timeout_close w m) = (streams m)(w := (streams m w)
     \<lparr>on_timeout_list := False, state := CMT_TCP_CLOSE, close_reason := TCP_TIMEOUT\<rparr>)"
  by (simp add: timeout_close_def Let_def)

lemma timeout_close_list:
  "on_timeout_list (streams m w) \<Longrightarrow> timeout_list (timeout_close w m) = remove1 w (timeout_list m)"
  "calls (timeout_close w m) = calls m @ (if socket (streams m w) then [] else [StreamDestroy w])"
  by (simp_all add: timeout_close_def remove_from_timeout_list_def Let_def upd_defs)

definition timed_out :: "u32 \<Rightarrow> nat \<Rightarrow> mgr \<Rightarrow> nat list \<Rightarrow> nat list" where
  "timed_out ts n m ws = takeWhile (idle_too_long ts m) (take n ws)"

text \<open>
  The walk closes the longest prefix of idle streams, at most \<open>thresh\<close> of them. \<open>ws\<close> is
  the part of the list not yet visited.
\<close>

lemma timeout_walk_spec:
  assumes "mgr_ok m" "timeout_list m = ws" "ex = timed_out ts (nat (thresh - cnt)) m ws"
  shows "mgr_ok (timeout_walk ts thresh ws cnt m) \<and>
    timeout_list (timeout_walk ts thresh ws cnt m) = drop (length ex) ws \<and>
    calls (timeout_walk ts thresh ws cnt m) =
      calls m @ map StreamDestroy (filter (\<lambda>s. \<not> socket (streams m s)) ex) \<and>
    (\<forall>t. streams (timeout_walk ts thresh ws cnt m) t =
       (if t \<in> set ex then (streams m t)\<lparr>on_timeout_list := False, state := CMT_TCP_CLOSE,
                                        close_reason := TCP_TIMEOUT\<rparr>
        else streams m t))"
  using assms
proof (induction ws arbitrary: cnt m ex)
  case Nil
  then show ?case by (simp add: timed_out_def)
next
  case (Cons w ws)
  have l: "distinct (w # ws)" "on_timeout_list (streams m w)"
    using Cons.prems unfolding mgr_ok_def timers_ok_def list_ok_def on_to_def by auto
  show ?case
  proof (cases "cnt + 1 > thresh \<or> \<not> idle_too_long ts m w")
    case True
    have "ex = []"
      using True Cons.prems(3) by (cases "nat (thresh - cnt)") (auto simp: timed_out_def)
    then show ?thesis using True Cons.prems unfolding timeout_walk_step [OF l(2)] by simp
  next
    case False
    let ?m = "timeout_close w m"
    have "\<not> thresh < cnt + 1" using False by simp
    then have n: "nat (thresh - cnt) = Suc (nat (thresh - (cnt + 1)))" by simp
    have same: "streams ?m t = streams m t" if "t \<in> set ws" for t
      using that l(1) by (auto simp: timeout_close_streams)
    define E where "E = timed_out ts (nat (thresh - (cnt + 1))) m ws"
    have tw: "E = timed_out ts (nat (thresh - (cnt + 1))) ?m ws"
      unfolding E_def timed_out_def
      by (intro takeWhile_cong refl) (auto simp: idle_too_long_def same dest: in_set_takeD)
    have E: "set E \<subseteq> set ws"
      unfolding E_def timed_out_def by (meson in_set_takeD set_takeWhileD subsetI)
    have f: "filter (\<lambda>s. \<not> socket (streams ?m s)) E = filter (\<lambda>s. \<not> socket (streams m s)) E"
      by (intro filter_cong refl) (use E same in auto)
    have tl: "timeout_list ?m = ws" using l Cons.prems(2) by (simp add: timeout_close_list)
    note ih = Cons.IH [OF timeout_close_ok [OF Cons.prems(1)] tl tw, unfolded f]
    have walk: "timeout_walk ts thresh (w # ws) cnt m = timeout_walk ts thresh ws (cnt + 1) ?m"
      unfolding timeout_walk_step [OF l(2)] using False by simp
    have ex: "ex = w # E"
      using False n Cons.prems(3) by (simp add: E_def timed_out_def)
    have "w \<notin> set E" using E l(1) by auto
    then show ?thesis unfolding walk ex using ih same E
      by (auto simp: timeout_close_list timeout_close_streams)
  qed
qed

subsection \<open>The time-wait list\<close>

definition tw_expired :: "u32 \<Rightarrow> mgr \<Rightarrow> nat \<Rightarrow> bool" where
  "tw_expired ts m s \<longleftrightarrow> sint (ts - ts_tw_expire (rcvvar (streams m s))) \<ge> 0"

definition timewait_close :: "nat \<Rightarrow> mgr \<Rightarrow> mgr" where
  "timewait_close w m =
     stream_destroy w (upd w (\<lambda>s. s\<lparr>on_timewait_list := False, state := CMT_TCP_CLOSE,
                                   close_reason := TCP_ACTIVE_CLOSE\<rparr>)
       (m\<lparr>timewait_list := remove1 w (timewait_list m), timewait_list_cnt := timewait_list_cnt m - 1\<rparr>))"

lemma timewait_walk_step:
  assumes "on_timewait_list (streams m w)"
  shows "timewait_walk ts thresh (w # ws) cnt m =
    (if cnt + 1 > thresh \<or> \<not> tw_expired ts m w then m
     else timewait_walk ts thresh ws (cnt + 1) (if on_ctl m w then m else timewait_close w m))"
  using assms by (simp add: Let_def tw_expired_def timewait_close_def on_ctl_def)

lemma timewait_close_ok:
  assumes "mgr_ok m" "on_timewait_list (streams m w)"
  shows "mgr_ok (timewait_close w m)"
proof -
  obtain m1 where m1: "remove_from_timewait_list w m = Inr m1"
    using assms(2) by (simp add: remove_from_timewait_list_def)
  then have ok: "mgr_ok m1" by (rule mgr_ok_remove_timewait [OF assms(1)])
  have "timewait_close w m = stream_destroy w (set_reason w TCP_ACTIVE_CLOSE (set_state w CMT_TCP_CLOSE m1))"
    using m1 assms(2)
    by (auto simp: remove_from_timewait_list_def timewait_close_def upd_defs)
  then show ?thesis using ok by (auto intro!: okm.call_closed okm.reason_closed okm.state_closed)
qed

lemma timewait_close_simps:
  "streams (timewait_close w m) = (streams m)(w := (streams m w)
     \<lparr>on_timewait_list := False, state := CMT_TCP_CLOSE, close_reason := TCP_ACTIVE_CLOSE\<rparr>)"
  "timewait_list (timewait_close w m) = remove1 w (timewait_list m)"
  "calls (timewait_close w m) = calls m @ [StreamDestroy w]"
  by (simp_all add: timewait_close_def)

text \<open>The streams closed: expired, in the visited prefix, and with no packet left to send.\<close>

definition tw_closing :: "u32 \<Rightarrow> nat \<Rightarrow> mgr \<Rightarrow> nat list \<Rightarrow> nat list" where
  "tw_closing ts n m ws = filter (\<lambda>s. \<not> on_ctl m s) (takeWhile (tw_expired ts m) (take n ws))"

lemma timewait_walk_spec:
  assumes "mgr_ok m" "distinct ws" "set ws \<subseteq> set (timewait_list m)"
    and "ex = tw_closing ts (nat (thresh - cnt)) m ws"
  shows "mgr_ok (timewait_walk ts thresh ws cnt m) \<and>
    timewait_list (timewait_walk ts thresh ws cnt m) = filter (\<lambda>s. s \<notin> set ex) (timewait_list m) \<and>
    calls (timewait_walk ts thresh ws cnt m) = calls m @ map StreamDestroy ex \<and>
    (\<forall>t. streams (timewait_walk ts thresh ws cnt m) t =
       (if t \<in> set ex then (streams m t)\<lparr>on_timewait_list := False, state := CMT_TCP_CLOSE,
                                        close_reason := TCP_ACTIVE_CLOSE\<rparr>
        else streams m t))"
  using assms
proof (induction ws arbitrary: cnt m ex)
  case Nil
  then show ?case by (simp add: tw_closing_def)
next
  case (Cons w ws)
  have l: "distinct (timewait_list m)" "on_timewait_list (streams m w)" "w \<notin> set ws"
    using Cons.prems unfolding mgr_ok_def timers_ok_def list_ok_def on_tw_def by auto
  show ?case
  proof (cases "cnt + 1 > thresh \<or> \<not> tw_expired ts m w")
    case True
    have "ex = []"
      using True Cons.prems(4) by (cases "nat (thresh - cnt)") (auto simp: tw_closing_def)
    then show ?thesis using True Cons.prems unfolding timewait_walk_step [OF l(2)] by simp
  next
    case False
    define n where "n = nat (thresh - (cnt + 1))"
    define m1 where "m1 = (if on_ctl m w then m else timewait_close w m)"
    define E where "E = tw_closing ts n m ws"
    have "\<not> thresh < cnt + 1" using False by simp
    then have n: "nat (thresh - cnt) = Suc n" by (simp add: n_def)
    have same: "streams m1 t = streams m t" if "t \<in> set ws" for t
      using that l(3) by (auto simp: m1_def timewait_close_simps)
    have "takeWhile (tw_expired ts m) (take n ws) = takeWhile (tw_expired ts m1) (take n ws)"
      by (intro takeWhile_cong refl) (auto simp: tw_expired_def same dest: in_set_takeD)
    then have E1: "E = tw_closing ts (nat (thresh - (cnt + 1))) m1 ws"
      unfolding E_def tw_closing_def n_def [symmetric] on_ctl_def
      by (auto intro!: filter_cong simp: same dest!: set_takeWhileD in_set_takeD)
    have E: "set E \<subseteq> set ws"
      unfolding E_def tw_closing_def by (auto dest!: set_takeWhileD in_set_takeD)
    have ok1: "mgr_ok m1" using timewait_close_ok [OF Cons.prems(1) l(2)] Cons.prems(1) by (simp add: m1_def)
    have sub: "set ws \<subseteq> set (timewait_list m1)"
      using Cons.prems(3) l by (auto simp: m1_def timewait_close_simps)
    have ex: "ex = (if on_ctl m w then E else w # E)"
      using False n Cons.prems(4) by (simp add: E_def tw_closing_def)
    have walk: "timewait_walk ts thresh (w # ws) cnt m = timewait_walk ts thresh ws (cnt + 1) m1"
      unfolding timewait_walk_step [OF l(2)] m1_def using False by simp
    have "distinct ws" using Cons.prems(2) by simp
    note ih = Cons.IH [OF ok1 this sub E1]
    have rem: "filter (\<lambda>s. s \<notin> set E) (remove1 w (timewait_list m)) =
        filter (\<lambda>s. s \<noteq> w \<and> s \<notin> set E) (timewait_list m)"
      using l(1) by (simp add: distinct_remove1_removeAll removeAll_filter_not_eq eq_commute conj_commute)
    have w: "w \<notin> set E" using E l(3) by auto
    show ?thesis
    proof (cases "on_ctl m w")
      case True
      then show ?thesis using ih unfolding walk ex by (simp add: m1_def)
    next
      case False
      then show ?thesis using ih w rem unfolding walk ex
        by (simp add: m1_def timewait_close_simps)
    qed
  qed
qed

subsection \<open>Properties\<close>

text \<open>
  C7: The retransmission check ends. In a well-formed manager its loop needs at most two rounds
  more than the clock of the store is behind the current time, whatever the threshold and
  whatever the handled streams do.
\<close>

theorem check_rtm_timeout_terminates:
  assumes "mgr_ok m"
  shows "\<exists>r. check_rtm_timeout (unat (ts - rto_now_ts (rto_store m)) + 2) ts thresh m = Some r"
  using rtm_loop_ends [OF assms, of ts "unat (ts - rto_now_ts (rto_store m)) + 2" thresh 0]
  by (simp add: check_rtm_timeout_def)

theorem check_rtm_timeout_terminates_witness:
  "mgr_ok (add_to_rto_list 3 idle_mgr) \<and>
   (\<exists>r. check_rtm_timeout (unat (9 - rto_now_ts (rto_store (add_to_rto_list 3 idle_mgr))) + 2) 9 1
      (add_to_rto_list 3 idle_mgr) = Some r)"
  using check_rtm_timeout_terminates [of "add_to_rto_list 3 idle_mgr" 9 1]
    mgr_ok_timer_ops(1) [OF idle_mgr_ok, of 3] by blast

text \<open>
  C10: The retransmission check keeps the manager well formed: whenever it returns, every list
  still agrees with the flags of the streams and with its counter, no stream is on two slots,
  and the flow table is intact.
\<close>

theorem check_rtm_timeout_ok:
  assumes "mgr_ok m" "check_rtm_timeout fuel ts thresh m = Some (Inr m')"
  shows "mgr_ok m'"
  using assms rtm_loop_ok [OF assms(1), of fuel ts thresh 0 m']
  by (auto simp: check_rtm_timeout_def split: if_splits)

text \<open>An armed stream in state SYN_RCVD, first in slot 0.\<close>

definition armed_mgr :: mgr where
  "armed_mgr = add_to_rto_list 3 (set_state 3 CMT_TCP_SYN_RCVD idle_mgr)"

lemma armed_mgr_ok: "mgr_ok armed_mgr"
  unfolding armed_mgr_def by (intro mgr_ok_timer_ops(1) okm.state_closed idle_mgr_ok) simp

lemma armed_mgr_run: "\<exists>m'. check_rtm_timeout 1 5 2 armed_mgr = Some (Inr m') \<and> on_ctl m' 3"
  by (simp add: check_rtm_timeout_def armed_mgr_def add_to_rto_list_def idle_defs Let_def
      rto_insert_tail_def set_rto_idx_def set_state_def upd_def RTO_HASH_def TCP_MAX_RTX_def
      rto_remove_def handle_rto_def handle_rto_resend_def on_ctl_def)

theorem check_rtm_timeout_ok_witness:
  "\<exists>m'. mgr_ok armed_mgr \<and> check_rtm_timeout 1 5 2 armed_mgr = Some (Inr m') \<and> mgr_ok m'"
  using armed_mgr_ok armed_mgr_run check_rtm_timeout_ok [OF armed_mgr_ok, of 1 5 2] by blast

text \<open>
  The clock of the retransmission store stands still while the slot it points at holds fewer
  streams than the threshold: the check handles that slot and returns without advancing, however
  late it is, so streams armed in any other slot are not retransmitted.
\<close>

theorem check_rtm_timeout_stalls:
  assumes "mgr_ok m"
    and few: "int (length (rto_list (rto_store m) (unat (rto_now_idx (rto_store m))))) < thresh"
    and "check_rtm_timeout fuel ts thresh m = Some (Inr m')"
  shows "rto_now_ts (rto_store m') = rto_now_ts (rto_store m) \<and>
    rto_now_idx (rto_store m') = rto_now_idx (rto_store m) \<and>
    (\<forall>s. on_rto_idx (streams m s) \<noteq> int (unat (rto_now_idx (rto_store m))) \<longrightarrow>
       streams m' s = streams m s)"
proof (cases "rto_list_cnt m = 0 \<or> sint (ts - rto_now_ts (rto_store m)) < 0")
  case True
  then have "m' = m" using assms(3)
    by (cases fuel) (auto simp: check_rtm_timeout_def split: if_splits)
  then show ?thesis by simp
next
  case False
  define i where "i = unat (rto_now_idx (rto_store m))"
  obtain f where f: "fuel = Suc f" using assms(3) False by (cases fuel) (auto simp: check_rtm_timeout_def)
  obtain c m1 where w: "rtm_walk ts thresh i (rto_list (rto_store m) i) 0 m = Inr (c, m1)"
    using assms(3) False f by (auto simp: check_rtm_timeout_def Let_def i_def split: sum.splits)
  note sp = rtm_walk_spec [OF assms(1) rtm_slot [OF assms(1) i_def] w]
  have "c < thresh" using sp few by (simp add: i_def)
  then have "m' = m1" using assms(3) False f w by (simp add: check_rtm_timeout_def Let_def i_def)
  moreover have "s \<notin> set (rto_list (rto_store m) i)" if "on_rto_idx (streams m s) \<noteq> int i" for s
    using rtm_slot(2) [OF assms(1) i_def] that by blast
  ultimately show ?thesis using sp few by (simp add: i_def)
qed

theorem check_rtm_timeout_stalls_witness:
  "\<exists>m'. check_rtm_timeout 1 5 2 armed_mgr = Some (Inr m') \<and>
     rto_now_ts (rto_store m') = rto_now_ts (rto_store armed_mgr)"
proof -
  have "int (length (rto_list (rto_store armed_mgr) (unat (rto_now_idx (rto_store armed_mgr))))) < 2"
    by (simp add: armed_mgr_def add_to_rto_list_def idle_defs Let_def rto_insert_tail_def
        set_rto_idx_def set_state_def upd_def RTO_HASH_def)
  then show ?thesis
    using armed_mgr_run check_rtm_timeout_stalls [OF armed_mgr_ok, of 2 1 5] by blast
qed

text \<open>
  C28: The connection timeout closes exactly the longest run of streams, from the head of the
  timeout list and at most \<open>thresh\<close> of them, that were idle for 30 seconds or more: they leave
  the list in order, get the state CLOSED with the reason timeout, and are destroyed when no
  socket holds them; no other stream changes.
\<close>

theorem check_connection_timeout_closes:
  assumes "mgr_ok m" "ex = timed_out ts (nat thresh) m (timeout_list m)"
  shows "mgr_ok (check_connection_timeout ts thresh m) \<and>
    timeout_list (check_connection_timeout ts thresh m) = drop (length ex) (timeout_list m) \<and>
    calls (check_connection_timeout ts thresh m) =
      calls m @ map StreamDestroy (filter (\<lambda>s. \<not> socket (streams m s)) ex) \<and>
    (\<forall>t. streams (check_connection_timeout ts thresh m) t =
       (if t \<in> set ex then (streams m t)\<lparr>on_timeout_list := False, state := CMT_TCP_CLOSE,
                                        close_reason := TCP_TIMEOUT\<rparr>
        else streams m t))"
  using timeout_walk_spec [OF assms(1) refl, of ex ts thresh 0] assms(2)
  by (simp add: check_connection_timeout_def)

definition waiting_mgr :: mgr where
  "waiting_mgr = (upd 4 (\<lambda>s. s\<lparr>on_timeout_list := True, last_active_ts := 20000\<rparr>)
     (upd 3 (\<lambda>s. s\<lparr>on_timeout_list := True, last_active_ts := 1000\<rparr>) idle_mgr))
     \<lparr>timeout_list := [3, 4], timeout_list_cnt := 2\<rparr>"

lemma waiting_mgr_ok: "mgr_ok waiting_mgr"
  by (auto simp: waiting_mgr_def mgr_ok_def sender_ok_def timers_ok_def rto_ok_def list_ok_def
      on_defs on_tw_def on_to_def ht_ok_def idle_defs RTO_HASH_def)

theorem check_connection_timeout_closes_witness:
  "timeout_list (check_connection_timeout 40000 10 waiting_mgr) = [4] \<and>
   state (streams (check_connection_timeout 40000 10 waiting_mgr) 3) = CMT_TCP_CLOSE \<and>
   streams (check_connection_timeout 40000 10 waiting_mgr) 4 = streams waiting_mgr 4"
proof -
  have "[3] = timed_out 40000 (nat 10) waiting_mgr (timeout_list waiting_mgr)"
    by (simp add: timed_out_def waiting_mgr_def idle_too_long_def idle_defs)
  from check_connection_timeout_closes [OF waiting_mgr_ok this]
  show ?thesis by (simp add: waiting_mgr_def)
qed

text \<open>
  The time-wait check closes exactly the expired streams of the visited prefix that have no
  packet waiting on the control list; it stops at the first stream that has not expired, so a
  stream is never closed before its expiry, and each closed stream is destroyed once, in order.
\<close>

theorem check_timewait_expire_closes:
  assumes "mgr_ok m" "ex = tw_closing ts (nat thresh) m (timewait_list m)"
  shows "mgr_ok (check_timewait_expire ts thresh m) \<and>
    timewait_list (check_timewait_expire ts thresh m) = filter (\<lambda>s. s \<notin> set ex) (timewait_list m) \<and>
    calls (check_timewait_expire ts thresh m) = calls m @ map StreamDestroy ex \<and>
    (\<forall>t. streams (check_timewait_expire ts thresh m) t =
       (if t \<in> set ex then (streams m t)\<lparr>on_timewait_list := False, state := CMT_TCP_CLOSE,
                                        close_reason := TCP_ACTIVE_CLOSE\<rparr>
        else streams m t)) \<and>
    (\<forall>t\<in>set ex. tw_expired ts m t \<and> \<not> on_ctl m t)"
proof -
  have "distinct (timewait_list m)"
    using assms(1) by (simp add: mgr_ok_def timers_ok_def list_ok_def)
  moreover have "\<forall>t\<in>set ex. tw_expired ts m t \<and> \<not> on_ctl m t"
    unfolding assms(2) by (auto simp: tw_closing_def dest: set_takeWhileD)
  ultimately show ?thesis
    using timewait_walk_spec [OF assms(1) _ subset_refl, of ex ts thresh 0] assms(2)
    by (simp add: check_timewait_expire_def)
qed

definition closing_mgr :: mgr where
  "closing_mgr = add_to_timewait_list 4 1000 (add_to_timewait_list 3 10
     (cmt_tcp_addto_controllist 2 (add_to_timewait_list 2 5 idle_mgr)))"

lemma closing_mgr_ok: "mgr_ok closing_mgr"
  unfolding closing_mgr_def by (intro mgr_ok_timer_ops(3) mgr_ok_sender_ops(1) idle_mgr_ok)

lemma closing_mgr_list: "timewait_list closing_mgr = [2, 3, 4]"
  by (simp add: closing_mgr_def add_to_timewait_list_def sender_list_defs idle_defs Let_def upd_defs)

theorem check_timewait_expire_closes_witness:
  "timewait_list (check_timewait_expire 500 10 closing_mgr) = [2, 4] \<and>
   calls (check_timewait_expire 500 10 closing_mgr) = calls closing_mgr @ [StreamDestroy 3]"
proof -
  have "[3] = tw_closing 500 (nat 10) closing_mgr (timewait_list closing_mgr)"
    by (simp add: tw_closing_def closing_mgr_list) (simp add: closing_mgr_def tw_expired_def on_ctl_def idle_defs CMT_TCP_TIMEWAIT_def)
  from check_timewait_expire_closes [OF closing_mgr_ok this]
  show ?thesis by (simp add: closing_mgr_list)
qed

text \<open>
  A stream whose sixteen retransmissions are used up is closed: the reason is a failed
  connection before it was established and a lost one after, and it is destroyed unless it is
  established and a socket still refers to it.
\<close>

theorem handle_rto_exhausted:
  assumes "\<not> nrtx (sndvar (streams m s)) < TCP_MAX_RTX"
  shows "\<exists>m'. handle_rto ts s m = Inr (- 1, m') \<and>
    streams m' = (streams m)(s := (streams m s)\<lparr>state := CMT_TCP_CLOSE,
      close_reason := (if state (streams m s) < CMT_TCP_ESTABLISHED then TCP_CONN_FAIL else TCP_CONN_LOST)\<rparr>) \<and>
    calls m' = calls m @
      (if \<not> state (streams m s) < CMT_TCP_ESTABLISHED \<and> socket (streams m s) then [] else [StreamDestroy s])"
  using assms by (simp add: handle_rto_def handle_rto_fail_def Let_def)

definition worn_mgr :: mgr where
  "worn_mgr = with_stream 3 (\<lambda>s. s\<lparr>state := CMT_TCP_ESTABLISHED, sndvar := blank_send\<lparr>nrtx := 16\<rparr>\<rparr>)"

theorem handle_rto_exhausted_witness:
  "\<exists>m'. handle_rto 9 3 worn_mgr = Inr (- 1, m') \<and> close_reason (streams m' 3) = TCP_CONN_LOST \<and>
     calls m' = [StreamDestroy 3]"
proof -
  have "\<not> nrtx (sndvar (streams worn_mgr 3)) < TCP_MAX_RTX"
    by (simp add: worn_mgr_def with_stream_def TCP_MAX_RTX_def)
  from handle_rto_exhausted [OF this, of 9]
  show ?thesis by (auto simp: worn_mgr_def with_stream_def idle_defs state_order)
qed

lemma rto_cwnd_values:
  "cwnd (handle_rto_cwnd v) = ucast (mss v)"
  "ssthresh (handle_rto_cwnd v) = max (min (cwnd v) (peer_wnd v) div 2) (2 * ucast (mss v))"
  "nrtx (handle_rto_cwnd v) = nrtx v" "snd_una (handle_rto_cwnd v) = snd_una v"
  "sndbuf (handle_rto_cwnd v) = sndbuf v" "mss (handle_rto_cwnd v) = mss v"
  by (auto simp: handle_rto_cwnd_def Let_def max_def mult.commute)

lemma rto_backoff_values:
  "nrtx (handle_rto_backoff x) = nrtx (sndvar x) + 1" "cwnd (handle_rto_backoff x) = cwnd (sndvar x)"
  "peer_wnd (handle_rto_backoff x) = peer_wnd (sndvar x)" "mss (handle_rto_backoff x) = mss (sndvar x)"
  "snd_una (handle_rto_backoff x) = snd_una (sndvar x)" "sndbuf (handle_rto_backoff x) = sndbuf (sndvar x)"
  by (simp_all add: handle_rto_backoff_def Let_def)

lemma resend_values:
  assumes "handle_rto_resend s m = Inr (r, m')"
  shows "r = 0 \<and> cwnd (sndvar (streams m' s)) = cwnd (sndvar (streams m s)) \<and>
    ssthresh (sndvar (streams m' s)) = ssthresh (sndvar (streams m s)) \<and>
    nrtx (sndvar (streams m' s)) = nrtx (sndvar (streams m s)) \<and>
    snd_nxt (streams m' s) = snd_una (sndvar (streams m s)) \<and> state (streams m' s) = state (streams m s) \<and>
    (on_ctl m' s \<or> on_snd m' s)"
  using assms
  by (auto simp: handle_rto_resend_def Let_def andThen_Inr_iff on_defs split: if_splits
      dest!: streams_addto_sendlist)

lemma resend_returns:
  assumes "sndbuf (sndvar (streams m s)) \<noteq> None"
  shows "\<exists>m'. handle_rto_resend s m = Inr (0, m')"
  using assms unfolding handle_rto_resend_def
  by (auto simp: Let_def andThen_Inr_iff intro!: addto_sendlist_defined)

text \<open>
  C27: A retransmission timeout of a stream with retransmissions left collapses the congestion
  window to one segment, sets the slow start threshold to half of the smaller of the congestion
  and the peer window but at least two segments, counts the retransmission, rewinds
  \<open>snd_nxt\<close> to the first unacknowledged byte and queues the stream for sending.
\<close>

theorem handle_rto_retransmits:
  assumes "nrtx (sndvar (streams m s)) < TCP_MAX_RTX" "sndbuf (sndvar (streams m s)) \<noteq> None"
    and "state (streams m s) \<in> {CMT_TCP_SYN_SENT, CMT_TCP_SYN_RCVD, CMT_TCP_ESTABLISHED,
      CMT_TCP_CLOSE_WAIT, CMT_TCP_LAST_ACK, CMT_TCP_FIN_WAIT_1, CMT_TCP_FIN_CLOSING}"
    and "state (streams m s) = CMT_TCP_SYN_SENT \<longrightarrow> nrtx (sndvar (streams m s)) < TCP_MAX_SYN_RETRY"
  shows "\<exists>m'. handle_rto ts s m = Inr (0, m') \<and>
    cwnd (sndvar (streams m' s)) = ucast (mss (sndvar (streams m s))) \<and>
    ssthresh (sndvar (streams m' s)) =
      max (min (cwnd (sndvar (streams m s))) (peer_wnd (sndvar (streams m s))) div 2)
          (2 * ucast (mss (sndvar (streams m s)))) \<and>
    nrtx (sndvar (streams m' s)) = nrtx (sndvar (streams m s)) + 1 \<and>
    snd_nxt (streams m' s) = snd_una (sndvar (streams m s)) \<and>
    state (streams m' s) = state (streams m s) \<and> (on_ctl m' s \<or> on_snd m' s)"
proof -
  let ?m = "upd s (\<lambda>s. s\<lparr>sndvar := handle_rto_cwnd (handle_rto_backoff s)\<rparr>) m"
  have le: "nrtx (sndvar (streams m s)) + 1 \<le> TCP_MAX_SYN_RETRY"
    if "nrtx (sndvar (streams m s)) < TCP_MAX_SYN_RETRY"
    using that by (rule inc_le)
  obtain m' where m': "handle_rto_resend s ?m = Inr (0, m')"
    using resend_returns [of ?m s] assms(2) by (auto simp: rto_cwnd_values rto_backoff_values)
  then have "handle_rto ts s m = Inr (0, m')"
    using assms le by (auto simp: handle_rto_def Let_def rto_cwnd_values rto_backoff_values)
  then show ?thesis using resend_values [OF m'] by (simp add: rto_cwnd_values rto_backoff_values)
qed

definition lossy_mgr :: mgr where
  "lossy_mgr = with_stream 3 (\<lambda>s. s\<lparr>state := CMT_TCP_ESTABLISHED, snd_nxt := 900, sndvar := blank_send
     \<lparr>mss := 100, cwnd := 1000, peer_wnd := 600, snd_una := 500,
      sndbuf := Some \<lparr>sb_data = [], sb_head = 0, head_off = 0, tail_off = 0, sb_len = 0,
        sb_cum_len = 0, sb_size = 0, sb_head_seq = 0, sb_init_seq = 0\<rparr>\<rparr>\<rparr>)"

theorem handle_rto_retransmits_witness:
  "\<exists>m'. handle_rto 9 3 lossy_mgr = Inr (0, m') \<and> cwnd (sndvar (streams m' 3)) = 100 \<and>
     ssthresh (sndvar (streams m' 3)) = 300 \<and> snd_nxt (streams m' 3) = 500"
proof -
  have "nrtx (sndvar (streams lossy_mgr 3)) < TCP_MAX_RTX" "sndbuf (sndvar (streams lossy_mgr 3)) \<noteq> None"
    "state (streams lossy_mgr 3) \<in> {CMT_TCP_SYN_SENT, CMT_TCP_SYN_RCVD, CMT_TCP_ESTABLISHED,
      CMT_TCP_CLOSE_WAIT, CMT_TCP_LAST_ACK, CMT_TCP_FIN_WAIT_1, CMT_TCP_FIN_CLOSING}"
    "state (streams lossy_mgr 3) = CMT_TCP_SYN_SENT \<longrightarrow> nrtx (sndvar (streams lossy_mgr 3)) < TCP_MAX_SYN_RETRY"
    by (simp_all add: lossy_mgr_def with_stream_def idle_defs TCP_MAX_RTX_def)
  from handle_rto_retransmits [OF this, of 9]
  show ?thesis by (auto simp: lossy_mgr_def with_stream_def idle_defs max_def min_def)
qed

end
