(* ===== verification/Tcp_Options.thy ===== *)
theory Tcp_Options
  imports Tcp_Types
begin

text \<open>
  The TCP options of \<open>src/tcp.c\<close>: their length, the bytes a segment carries, and the two
  parsers. Memory is a list of bytes; the parsers are given the bytes from the first option to
  the end of the packet, since they check the length of the options late and can read past it.
\<close>

subsection \<open>Constants\<close>

definition CMT_TCPHDR_FIN :: u8 where "CMT_TCPHDR_FIN = 0x01"
definition CMT_TCPHDR_SYN :: u8 where "CMT_TCPHDR_SYN = 0x02"
definition CMT_TCPHDR_RST :: u8 where "CMT_TCPHDR_RST = 0x04"
definition CMT_TCPHDR_ACK :: u8 where "CMT_TCPHDR_ACK = 0x10"
definition CMT_TCPOPT_MSS_LEN :: u8 where "CMT_TCPOPT_MSS_LEN = 4"
definition CMT_TCPOPT_WSCALE_LEN :: u8 where "CMT_TCPOPT_WSCALE_LEN = 3"
definition CMT_TCPOPT_TIMESTAMPS_LEN :: u8 where "CMT_TCPOPT_TIMESTAMPS_LEN = 10"
definition TCP_OPT_END :: u8 where "TCP_OPT_END = 0"
definition TCP_OPT_NOP :: u8 where "TCP_OPT_NOP = 1"
definition TCP_OPT_MSS :: u8 where "TCP_OPT_MSS = 2"
definition TCP_OPT_WSCALE :: u8 where "TCP_OPT_WSCALE = 3"
definition TCP_OPT_SACK_PERMIT :: u8 where "TCP_OPT_SACK_PERMIT = 4"
definition TCP_OPT_SACK :: u8 where "TCP_OPT_SACK = 5"
definition TCP_OPT_TIMESTAMP :: u8 where "TCP_OPT_TIMESTAMP = 8"

lemmas opt_consts = CMT_TCPHDR_SYN_def CMT_TCPOPT_MSS_LEN_def CMT_TCPOPT_WSCALE_LEN_def
  CMT_TCPOPT_TIMESTAMPS_LEN_def TCP_OPT_END_def TCP_OPT_NOP_def TCP_OPT_MSS_def TCP_OPT_WSCALE_def
  TCP_OPT_SACK_PERMIT_def TCP_OPT_SACK_def TCP_OPT_TIMESTAMP_def

subsection \<open>Writing options\<close>

definition cmt_calculate_option :: "u8 \<Rightarrow> u16 res" where
  "cmt_calculate_option flags =
     (let optlen = (if flags AND CMT_TCPHDR_SYN \<noteq> 0
                    then ucast CMT_TCPOPT_MSS_LEN + ucast CMT_TCPOPT_TIMESTAMPS_LEN + 2 +
                         (ucast CMT_TCPOPT_WSCALE_LEN + 1)
                    else ucast CMT_TCPOPT_TIMESTAMPS_LEN + 2)
      in c_assert (optlen mod 4 = 0) optlen)"

text \<open>The pointer \<open>tcpopt\<close> is an offset into the memory \<open>mem\<close>.\<close>

definition cmt_tcp_generate_timestamp :: "tcp_stream \<Rightarrow> u8 list \<Rightarrow> nat \<Rightarrow> u32 \<Rightarrow> u8 list res" where
  "cmt_tcp_generate_timestamp cur_stream mem tcpopt cur_ts =
     andThen (write_at mem tcpopt [TCP_OPT_TIMESTAMP, CMT_TCPOPT_TIMESTAMPS_LEN]) (\<lambda>mem.
     andThen (write_at mem (tcpopt + 2) (le_bytes32 (htonl cur_ts))) (\<lambda>mem.
     write_at mem (tcpopt + 6) (le_bytes32 (htonl (ts_recent (rcvvar cur_stream))))))"

definition cmt_tcp_generate_options :: "tcp_stream \<Rightarrow> u32 \<Rightarrow> u8 \<Rightarrow> u8 list \<Rightarrow> u16 \<Rightarrow> u8 list res" where
  "cmt_tcp_generate_options cur_stream cur_ts flags tcpopt optlen =
     (if flags AND CMT_TCPHDR_SYN \<noteq> 0 then
        let m = mss (sndvar cur_stream) in
        andThen (write_at tcpopt 0 [TCP_OPT_MSS, CMT_TCPOPT_MSS_LEN, ucast (drop_bit 8 m), ucast (m mod 256)]) (\<lambda>mem.
        andThen (write_at mem 4 [TCP_OPT_NOP, TCP_OPT_NOP]) (\<lambda>mem.
        andThen (cmt_tcp_generate_timestamp cur_stream mem 6 cur_ts) (\<lambda>mem.
        andThen (write_at mem 16 [TCP_OPT_NOP, TCP_OPT_WSCALE, CMT_TCPOPT_WSCALE_LEN]) (\<lambda>mem.
        andThen (write_at mem 19 [wscale_mine (sndvar cur_stream)]) (\<lambda>mem.
        c_assert (unat optlen = 20) mem)))))
      else
        andThen (write_at tcpopt 0 [TCP_OPT_NOP, TCP_OPT_NOP]) (\<lambda>mem.
        andThen (cmt_tcp_generate_timestamp cur_stream mem 2 cur_ts) (\<lambda>mem.
        c_assert (unat optlen = 12) mem)))"

subsection \<open>Parsing options\<close>

definition byte_at :: "u8 list \<Rightarrow> nat \<Rightarrow> u8 res" where
  "byte_at mem i = (if i < length mem then Inr (mem ! i) else Inl OutOfBounds)"

text \<open>A load of 32 bits, little endian.\<close>

definition word_at :: "u8 list \<Rightarrow> nat \<Rightarrow> u32 res" where
  "word_at mem i =
     (if i + 4 \<le> length mem
      then Inr (ucast (mem ! i) OR push_bit 8 (ucast (mem ! (i + 1))) OR
                push_bit 16 (ucast (mem ! (i + 2))) OR push_bit 24 (ucast (mem ! (i + 3))))
      else Inl OutOfBounds)"

text \<open>
  The loop of \<open>cmt_tcp_parse_options\<close> at index \<open>i\<close>. It is given fuel, one unit per
  round, since an option of unknown kind and length zero moves the index back to itself.
\<close>

fun parse_options_loop :: "nat \<Rightarrow> u32 \<Rightarrow> u8 list \<Rightarrow> int \<Rightarrow> nat \<Rightarrow> tcp_stream \<Rightarrow> tcp_stream res option" where
  "parse_options_loop 0 cur_ts tcpopt len i s = None"
| "parse_options_loop (Suc fuel) cur_ts tcpopt len i s =
     (if \<not> int i < len then Some (Inr s)
      else case byte_at tcpopt i of Inl e \<Rightarrow> Some (Inl e) | Inr opt \<Rightarrow>
        if opt = TCP_OPT_END then Some (Inr s)
        else if opt = TCP_OPT_NOP then parse_options_loop fuel cur_ts tcpopt len (i + 1) s
        else case byte_at tcpopt (i + 1) of Inl e \<Rightarrow> Some (Inl e) | Inr optlen \<Rightarrow>
          if int (i + 2 + unat optlen - 2) > len then Some (Inr s)
          else if opt = TCP_OPT_MSS then
            (case (byte_at tcpopt (i + 2), byte_at tcpopt (i + 3)) of
               (Inr hi, Inr lo) \<Rightarrow>
                 (let m = push_bit 8 (ucast hi) + ucast lo;
                      s = s\<lparr>sndvar := (sndvar s)
                        \<lparr>mss := m, eff_mss := m - (ucast CMT_TCPOPT_TIMESTAMPS_LEN + 2)\<rparr>\<rparr>
                  in parse_options_loop fuel cur_ts tcpopt len (i + 4) s)
             | _ \<Rightarrow> Some (Inl OutOfBounds))
          else if opt = TCP_OPT_WSCALE then
            (case byte_at tcpopt (i + 2) of Inl e \<Rightarrow> Some (Inl e) | Inr w \<Rightarrow>
               parse_options_loop fuel cur_ts tcpopt len (i + 3)
                 (s\<lparr>sndvar := (sndvar s)\<lparr>wscale_peer := w\<rparr>\<rparr>))
          else if opt = TCP_OPT_SACK_PERMIT then
            parse_options_loop fuel cur_ts tcpopt len (i + 2) (s\<lparr>sack_permit := True\<rparr>)
          else if opt = TCP_OPT_TIMESTAMP then
            (case word_at tcpopt (i + 2) of Inl e \<Rightarrow> Some (Inl e) | Inr w \<Rightarrow>
               parse_options_loop fuel cur_ts tcpopt len (i + 10)
                 (s\<lparr>saw_timestamp := True,
                    rcvvar := (rcvvar s)\<lparr>ts_recent := ntohl w, ts_last_ts_upd := cur_ts\<rparr>\<rparr>))
          else parse_options_loop fuel cur_ts tcpopt len (i + 2 + unat optlen - 2) s)"

definition cmt_tcp_parse_options :: "nat \<Rightarrow> tcp_stream \<Rightarrow> u32 \<Rightarrow> u8 list \<Rightarrow> int \<Rightarrow> tcp_stream res option" where
  "cmt_tcp_parse_options fuel cur_stream cur_ts tcpopt len =
     parse_options_loop fuel cur_ts tcpopt len 0 cur_stream"

text \<open>
  \<open>cmt_tcp_parse_timestamp\<close> advances its index in the loop header too, so it always ends.
  \<open>None\<close> is the result 0, \<open>Some\<close> the two stored values with the result 1.
\<close>

function parse_timestamp_loop :: "u8 list \<Rightarrow> int \<Rightarrow> nat \<Rightarrow> (u32 \<times> u32) option res" where
  "parse_timestamp_loop tcpopt len i =
     (if \<not> int i < len then Inr None
      else case byte_at tcpopt i of Inl e \<Rightarrow> Inl e | Inr opt \<Rightarrow>
        if opt = TCP_OPT_END then Inr None
        else if opt = TCP_OPT_NOP then parse_timestamp_loop tcpopt len (i + 1 + 1)
        else case byte_at tcpopt (i + 1) of Inl e \<Rightarrow> Inl e | Inr optlen \<Rightarrow>
          if int (i + 2 + unat optlen - 2) > len then Inr None
          else if opt = TCP_OPT_TIMESTAMP then
            andThen (word_at tcpopt (i + 2)) (\<lambda>v.
            andThen (word_at tcpopt (i + 6)) (\<lambda>r.
            Inr (Some (ntohl v, ntohl r))))
          else parse_timestamp_loop tcpopt len (i + 2 + unat optlen - 2 + 1))"
  by pat_completeness auto
termination
  by (relation "measure (\<lambda>(_, len, i). nat (len - int i))") (auto intro: less_le_trans [OF _ uint_ge_0])

definition cmt_tcp_parse_timestamp :: "u8 list \<Rightarrow> int \<Rightarrow> (u32 \<times> u32) option res" where
  "cmt_tcp_parse_timestamp tcpopt len = parse_timestamp_loop tcpopt len 0"

declare parse_timestamp_loop.simps [simp del]

subsection \<open>Loads and stores\<close>

lemma le_word: "ucast (ucast w :: u8) OR push_bit 8 (ucast (ucast (drop_bit 8 w) :: u8)) OR
    push_bit 16 (ucast (ucast (drop_bit 16 w) :: u8)) OR
    push_bit 24 (ucast (ucast (drop_bit 24 w) :: u8)) = (w :: u32)"
proof (rule bit_word_eqI)
  fix n assume "n < LENGTH(32)"
  then have n: "n < 32" by simp
  then consider "n < 8" | m where "n = 8 + m" "m < 8" | m where "n = 16 + m" "m < 8"
    | m where "n = 24 + m" "m < 8"
    using le_Suc_ex [of 8 n] le_Suc_ex [of 16 n] le_Suc_ex [of 24 n] by fastforce
  then show "bit (ucast (ucast w :: u8) OR push_bit 8 (ucast (ucast (drop_bit 8 w) :: u8)) OR
    push_bit 16 (ucast (ucast (drop_bit 16 w) :: u8)) OR
    push_bit 24 (ucast (ucast (drop_bit 24 w) :: u8)) :: u32) n = bit w n"
    by cases (simp_all add: bit_simps)
qed

lemma word_at_le_bytes:
  "word_at (a # b # xs @ le_bytes32 w @ rest) (Suc (Suc (length xs))) = Inr w"
  by (simp add: word_at_def le_bytes32_def nth_append le_word)

text \<open>The ten bytes of a timestamp option.\<close>

definition ts_bytes :: "u32 \<Rightarrow> u32 \<Rightarrow> u8 list" where
  "ts_bytes v r = [TCP_OPT_TIMESTAMP, CMT_TCPOPT_TIMESTAMPS_LEN] @ le_bytes32 (htonl v) @ le_bytes32 (htonl r)"

lemma length_ts_bytes [simp]: "length (ts_bytes v r) = 10"
  by (simp add: ts_bytes_def le_bytes32_def)

lemma write_at_app:
  "length a = off \<Longrightarrow> length old = length new \<Longrightarrow> write_at (a @ old @ rest) off new = Inr (a @ new @ rest)"
  by (simp add: write_at_def)

lemma generate_timestamp_bytes:
  assumes "length mem \<ge> off + 10"
  shows "cmt_tcp_generate_timestamp s mem off ts =
    Inr (take off mem @ ts_bytes ts (ts_recent (rcvvar s)) @ drop (off + 10) mem)"
  using assms
  by (simp add: cmt_tcp_generate_timestamp_def write_at_def le_bytes32_def ts_bytes_def take_drop
      min_absorb1 drop_Cons' add.commute) arith

lemma mss_bytes: "push_bit 8 (ucast (ucast (drop_bit 8 m) :: u8)) + ucast (ucast (m mod 256) :: u8) = (m :: u16)"
proof -
  have "unat m div 256 < 256" using unsigned_less [where ?'a = nat, of m] by (simp add: div_less_iff_less_mult)
  then show ?thesis
    by (simp add: word_unat_eq_iff unat_add_eq push_bit_eq_mult unat_word_ariths unsigned_ucast_eq
        take_bit_eq_mod drop_bit_eq_div unat_div unat_mod)
qed

lemma length_le_bytes32 [simp]: "length (le_bytes32 w) = 4"
  by (simp add: le_bytes32_def)

lemma word_at_app: "word_at (pre @ le_bytes32 w @ rest) (length pre) = Inr w"
  by (simp add: word_at_def le_bytes32_def nth_append le_word)

lemma word_at_ts:
  assumes "i = length pre"
  shows "word_at (pre @ ts_bytes v r @ rest) (i + 2) = Inr (htonl v)"
    "word_at (pre @ ts_bytes v r @ rest) (i + 6) = Inr (htonl r)"
proof -
  let ?h = "pre @ [TCP_OPT_TIMESTAMP, CMT_TCPOPT_TIMESTAMPS_LEN]"
  show "word_at (pre @ ts_bytes v r @ rest) (i + 2) = Inr (htonl v)"
    using word_at_app [of ?h "htonl v" "le_bytes32 (htonl r) @ rest"] assms by (simp add: ts_bytes_def)
  show "word_at (pre @ ts_bytes v r @ rest) (i + 6) = Inr (htonl r)"
    using word_at_app [of "?h @ le_bytes32 (htonl v)" "htonl r" rest] assms by (simp add: ts_bytes_def)
qed

lemma byte_at_ts:
  "i = length pre \<Longrightarrow> byte_at (pre @ ts_bytes v r @ rest) i = Inr TCP_OPT_TIMESTAMP"
  "i = length pre \<Longrightarrow> byte_at (pre @ ts_bytes v r @ rest) (i + 1) = Inr CMT_TCPOPT_TIMESTAMPS_LEN"
  by (simp_all add: byte_at_def ts_bytes_def nth_append)

lemma byte_at_app: "byte_at (pre @ b # rest) (length pre) = Inr b"
  by (simp add: byte_at_def)

subsection \<open>One round of the parser\<close>

lemma parse_end: "\<not> int i < len \<Longrightarrow> parse_options_loop (Suc f) ts mem len i s = Some (Inr s)"
  by simp

lemma parse_nop:
  "int i < len \<Longrightarrow> byte_at mem i = Inr TCP_OPT_NOP \<Longrightarrow>
    parse_options_loop (Suc f) ts mem len i s = parse_options_loop f ts mem len (i + 1) s"
  by (simp add: opt_consts)

lemma parse_mss:
  "int i + 4 \<le> len \<Longrightarrow> byte_at mem i = Inr TCP_OPT_MSS \<Longrightarrow> byte_at mem (i + 1) = Inr CMT_TCPOPT_MSS_LEN \<Longrightarrow>
   byte_at mem (i + 2) = Inr hi \<Longrightarrow> byte_at mem (i + 3) = Inr lo \<Longrightarrow>
   m = push_bit 8 (ucast hi) + ucast lo \<Longrightarrow>
   parse_options_loop (Suc f) ts mem len i s =
     parse_options_loop f ts mem len (i + 4) (s\<lparr>sndvar := (sndvar s)\<lparr>mss := m, eff_mss := m - 12\<rparr>\<rparr>)"
  by (simp add: opt_consts Let_def)

lemma parse_wscale:
  "int i + 3 \<le> len \<Longrightarrow> byte_at mem i = Inr TCP_OPT_WSCALE \<Longrightarrow>
   byte_at mem (i + 1) = Inr CMT_TCPOPT_WSCALE_LEN \<Longrightarrow> byte_at mem (i + 2) = Inr w \<Longrightarrow>
   parse_options_loop (Suc f) ts mem len i s =
     parse_options_loop f ts mem len (i + 3) (s\<lparr>sndvar := (sndvar s)\<lparr>wscale_peer := w\<rparr>\<rparr>)"
  by (simp add: opt_consts)

lemma parse_ts:
  "int i + 10 \<le> len \<Longrightarrow> i = length pre \<Longrightarrow> mem = pre @ ts_bytes v r @ rest \<Longrightarrow>
   parse_options_loop (Suc f) ts mem len i s =
     parse_options_loop f ts mem len (i + 10)
       (s\<lparr>saw_timestamp := True, rcvvar := (rcvvar s)\<lparr>ts_recent := v, ts_last_ts_upd := ts\<rparr>\<rparr>)"
  using byte_at_ts [of i pre v r rest] word_at_ts [of i pre v r rest]
  by (simp add: opt_consts)

text \<open>Any other kind is skipped by its length; with length zero the round changes nothing.\<close>

definition known_kind :: "u8 \<Rightarrow> bool" where
  "known_kind k \<longleftrightarrow> k \<in> {TCP_OPT_END, TCP_OPT_NOP, TCP_OPT_MSS, TCP_OPT_WSCALE, TCP_OPT_SACK_PERMIT, TCP_OPT_TIMESTAMP}"

lemma parse_other:
  "int i + int (unat n) \<le> len \<Longrightarrow> int i < len \<Longrightarrow> byte_at mem i = Inr k \<Longrightarrow> \<not> known_kind k \<Longrightarrow>
   byte_at mem (i + 1) = Inr n \<Longrightarrow>
   parse_options_loop (Suc f) ts mem len i s = parse_options_loop f ts mem len (i + unat n) s"
  by (simp add: known_kind_def)

lemma parse_stuck:
  assumes "int i < len" "byte_at mem i = Inr k" "\<not> known_kind k" "byte_at mem (i + 1) = Inr 0"
  shows "parse_options_loop f ts mem len i s = None"
proof (induction f)
  case (Suc f)
  then show ?case using parse_other [of i 0 len mem k f ts s] assms by simp
qed simp

declare parse_options_loop.simps [simp del]

subsection \<open>The bytes written\<close>

definition syn_bytes :: "tcp_stream \<Rightarrow> u32 \<Rightarrow> u8 list" where
  "syn_bytes s ts =
     [TCP_OPT_MSS, CMT_TCPOPT_MSS_LEN, ucast (drop_bit 8 (mss (sndvar s))), ucast (mss (sndvar s) mod 256),
      TCP_OPT_NOP, TCP_OPT_NOP] @ ts_bytes ts (ts_recent (rcvvar s)) @
     [TCP_OPT_NOP, TCP_OPT_WSCALE, CMT_TCPOPT_WSCALE_LEN, wscale_mine (sndvar s)]"

lemma length_syn_bytes [simp]: "length (syn_bytes s ts) = 20"
  by (simp add: syn_bytes_def)

definition data_bytes :: "tcp_stream \<Rightarrow> u32 \<Rightarrow> u8 list" where
  "data_bytes s ts = [TCP_OPT_NOP, TCP_OPT_NOP] @ ts_bytes ts (ts_recent (rcvvar s))"

lemma generate_options_syn:
  assumes "flags AND CMT_TCPHDR_SYN \<noteq> 0" "20 \<le> length mem"
  shows "cmt_tcp_generate_options s ts flags mem 20 = Inr (syn_bytes s ts @ drop 20 mem)"
proof -
  let ?h = "[TCP_OPT_MSS, CMT_TCPOPT_MSS_LEN, ucast (drop_bit 8 (mss (sndvar s))), ucast (mss (sndvar s) mod 256)]"
  have w1: "write_at mem 0 ?h = Inr (?h @ drop 4 mem)"
    using assms(2) by (simp add: write_at_def eval_nat_numeral)
  have w2: "write_at (?h @ drop 4 mem) 4 [TCP_OPT_NOP, TCP_OPT_NOP] =
      Inr (?h @ [TCP_OPT_NOP, TCP_OPT_NOP] @ drop 6 mem)" using assms(2) by (simp add: write_at_def)
  have w3: "cmt_tcp_generate_timestamp s (?h @ [TCP_OPT_NOP, TCP_OPT_NOP] @ drop 6 mem) 6 ts =
      Inr (?h @ [TCP_OPT_NOP, TCP_OPT_NOP] @ ts_bytes ts (ts_recent (rcvvar s)) @ drop 16 mem)"
    using assms(2) by (subst generate_timestamp_bytes) simp_all
  show ?thesis using assms w3
    by (simp add: cmt_tcp_generate_options_def Let_def w1 [simplified] w2 [simplified] syn_bytes_def write_at_def) arith
qed

lemma generate_options_data:
  assumes "flags AND CMT_TCPHDR_SYN = 0" "12 \<le> length mem"
  shows "cmt_tcp_generate_options s ts flags mem 12 = Inr (data_bytes s ts @ drop 12 mem)"
proof -
  have "cmt_tcp_generate_timestamp s (TCP_OPT_NOP # TCP_OPT_NOP # drop 2 mem) 2 ts =
      Inr (TCP_OPT_NOP # TCP_OPT_NOP # ts_bytes ts (ts_recent (rcvvar s)) @ drop 12 mem)"
    using assms(2) by (subst generate_timestamp_bytes) (simp_all add: numeral_2_eq_2)
  moreover have "write_at mem 0 [TCP_OPT_NOP, TCP_OPT_NOP] = Inr (TCP_OPT_NOP # TCP_OPT_NOP # drop 2 mem)"
    using assms(2) by (simp add: write_at_def numeral_2_eq_2)
  ultimately show ?thesis using assms
    by (simp add: cmt_tcp_generate_options_def data_bytes_def)
qed

text \<open>Parsing the bytes of a SYN takes seven rounds and reads back every field.\<close>

definition syn_parsed :: "tcp_stream \<Rightarrow> u32 \<Rightarrow> u32 \<Rightarrow> tcp_stream \<Rightarrow> tcp_stream" where
  "syn_parsed s ts now r =
     r\<lparr>saw_timestamp := True,
       sndvar := (sndvar r)\<lparr>mss := mss (sndvar s), eff_mss := mss (sndvar s) - 12,
                            wscale_peer := wscale_mine (sndvar s)\<rparr>,
       rcvvar := (rcvvar r)\<lparr>ts_recent := ts, ts_last_ts_upd := now\<rparr>\<rparr>"

lemma parse_syn_bytes:
  "parse_options_loop (Suc (Suc (Suc (Suc (Suc (Suc (Suc f))))))) now (syn_bytes s ts @ rest) 20 0 r =
     Some (Inr (syn_parsed s ts now r))"
proof -
  define M where "M = syn_bytes s ts @ rest"
  define h where "h = [TCP_OPT_MSS, CMT_TCPOPT_MSS_LEN, ucast (drop_bit 8 (mss (sndvar s))),
    ucast (mss (sndvar s) mod 256), TCP_OPT_NOP, TCP_OPT_NOP]"
  define t where "t = [TCP_OPT_NOP, TCP_OPT_WSCALE, CMT_TCPOPT_WSCALE_LEN, wscale_mine (sndvar s)] @ rest"
  have M: "M = h @ ts_bytes ts (ts_recent (rcvvar s)) @ t" and h6: "length h = 6"
    by (simp_all add: M_def syn_bytes_def h_def t_def)
  have head: "byte_at M i = Inr (h ! i)" if "i < 6" for i
    using that by (simp add: M byte_at_def nth_append h6)
  have tail: "byte_at M (16 + i) = Inr (t ! i)" if "i < 4" for i
    using that by (simp add: M byte_at_def nth_append h6) (simp add: t_def)
  have m: "mss (sndvar s) = push_bit 8 (ucast (ucast (drop_bit 8 (mss (sndvar s))) :: u8)) +
      ucast (ucast (mss (sndvar s) mod 256) :: u8)"
    by (rule mss_bytes [symmetric])
  note b = head [of 0] head [of 1] head [of 2] head [of 3] head [of 4] head [of 5]
    tail [of 0] tail [of 1] tail [of 2] tail [of 3]
  have b': "byte_at M 0 = Inr TCP_OPT_MSS" "byte_at M 1 = Inr CMT_TCPOPT_MSS_LEN"
    "byte_at M 2 = Inr (ucast (drop_bit 8 (mss (sndvar s))))"
    "byte_at M 3 = Inr (ucast (mss (sndvar s) mod 256))" "byte_at M 4 = Inr TCP_OPT_NOP"
    "byte_at M 5 = Inr TCP_OPT_NOP" "byte_at M 16 = Inr TCP_OPT_NOP" "byte_at M 17 = Inr TCP_OPT_WSCALE"
    "byte_at M 18 = Inr CMT_TCPOPT_WSCALE_LEN" "byte_at M 19 = Inr (wscale_mine (sndvar s))"
    using b by (simp_all add: h_def t_def)
  have b2: "byte_at M (Suc (Suc 0)) = Inr (ucast (drop_bit 8 (mss (sndvar s))))"
    using head [of 2] by (simp add: h_def numeral_2_eq_2)
  have s1: "parse_options_loop (Suc g) now M 20 0 x = parse_options_loop g now M 20 4
      (x\<lparr>sndvar := (sndvar x)\<lparr>mss := mss (sndvar s), eff_mss := mss (sndvar s) - 12\<rparr>\<rparr>)" for g x
    using parse_mss [of 0 20 M, OF _ _ _ _ _ m, of g now x] b' b2 by simp
  have s2: "parse_options_loop (Suc g) now M 20 4 x = parse_options_loop g now M 20 5 x" for g x
    using parse_nop [of 4 20 M g now x] b' by simp
  have s3: "parse_options_loop (Suc g) now M 20 5 x = parse_options_loop g now M 20 6 x" for g x
    using parse_nop [of 5 20 M g now x] b' by simp
  have s4: "parse_options_loop (Suc g) now M 20 6 x = parse_options_loop g now M 20 16
      (x\<lparr>saw_timestamp := True, rcvvar := (rcvvar x)\<lparr>ts_recent := ts, ts_last_ts_upd := now\<rparr>\<rparr>)" for g x
    using parse_ts [of 6 20 h M ts "ts_recent (rcvvar s)" t g now x, OF _ h6 [symmetric] M] by simp
  have s5: "parse_options_loop (Suc g) now M 20 16 x = parse_options_loop g now M 20 17 x" for g x
    using parse_nop [of 16 20 M g now x] b' by simp
  have s6: "parse_options_loop (Suc g) now M 20 17 x = parse_options_loop g now M 20 20
      (x\<lparr>sndvar := (sndvar x)\<lparr>wscale_peer := wscale_mine (sndvar s)\<rparr>\<rparr>)" for g x
    using parse_wscale [of 17 20 M "wscale_mine (sndvar s)" g now x] b' by simp
  have s7: "parse_options_loop (Suc g) now M 20 20 x = Some (Inr x)" for g x
    by (rule parse_end) simp
  show ?thesis unfolding M_def [symmetric] s1 s2 s3 s4 s5 s6 s7
    by (simp add: syn_parsed_def)
qed

subsection \<open>Properties\<close>

text \<open>
  C29: Options of a SYN round trip: the bytes one end generates are parsed by the other end, in
  seven rounds of the loop, to the sender's segment size (with the effective size twelve less),
  its window scale and its timestamp.
\<close>

theorem syn_options_roundtrip:
  assumes "flags AND CMT_TCPHDR_SYN \<noteq> 0" "20 \<le> length mem"
  shows "\<exists>bytes. cmt_tcp_generate_options s ts flags mem 20 = Inr bytes \<and>
    cmt_tcp_parse_options 7 r now bytes 20 = Some (Inr
      (r\<lparr>saw_timestamp := True,
         sndvar := (sndvar r)\<lparr>mss := mss (sndvar s), eff_mss := mss (sndvar s) - 12,
                              wscale_peer := wscale_mine (sndvar s)\<rparr>,
         rcvvar := (rcvvar r)\<lparr>ts_recent := ts, ts_last_ts_upd := now\<rparr>\<rparr>))"
proof -
  have "(7::nat) = Suc (Suc (Suc (Suc (Suc (Suc (Suc 0))))))" by simp
  then show ?thesis
    using generate_options_syn [OF assms, of s ts] parse_syn_bytes [of 0 now s ts "drop 20 mem" r]
    by (simp only: cmt_tcp_parse_options_def syn_parsed_def) blast
qed

theorem syn_options_roundtrip_witness:
  "\<exists>bytes. cmt_tcp_generate_options blank_stream 55 0x12 (replicate 24 0) 20 = Inr bytes \<and>
    cmt_tcp_parse_options 7 blank_stream 9 bytes 20 \<noteq> None"
  using syn_options_roundtrip [of "0x12" "replicate 24 0" blank_stream 55 blank_stream 9] by (auto simp: CMT_TCPHDR_SYN_def)

text \<open>
  The timestamp of a data segment round trips: from the options the sender generates, twelve
  bytes with two fillers in front, the receiver reads the sender's clock and the echoed clock,
  whatever bytes follow.
\<close>

theorem data_timestamp_roundtrip:
  assumes "flags AND CMT_TCPHDR_SYN = 0" "12 \<le> length mem"
  shows "\<exists>bytes. cmt_tcp_generate_options s ts flags mem 12 = Inr bytes \<and>
    cmt_tcp_parse_timestamp bytes 12 = Inr (Some (ts, ts_recent (rcvvar s)))"
proof -
  define M where "M = data_bytes s ts @ drop 12 mem"
  have M: "M = [TCP_OPT_NOP, TCP_OPT_NOP] @ ts_bytes ts (ts_recent (rcvvar s)) @ drop 12 mem"
    by (simp add: M_def data_bytes_def)
  have b: "byte_at M 0 = Inr TCP_OPT_NOP" by (simp add: M byte_at_def)
  have t: "byte_at M 2 = Inr TCP_OPT_TIMESTAMP" "byte_at M 3 = Inr CMT_TCPOPT_TIMESTAMPS_LEN"
    using byte_at_ts [of 2 "[TCP_OPT_NOP, TCP_OPT_NOP]"] unfolding M by simp_all
  have w: "word_at M 4 = Inr (htonl ts)" "word_at M 8 = Inr (htonl (ts_recent (rcvvar s)))"
    using word_at_ts [of 2 "[TCP_OPT_NOP, TCP_OPT_NOP]"] unfolding M by simp_all
  have "parse_timestamp_loop M 12 2 = Inr (Some (ts, ts_recent (rcvvar s)))"
    using t w by (subst parse_timestamp_loop.simps) (simp add: opt_consts)
  then have "parse_timestamp_loop M 12 0 = Inr (Some (ts, ts_recent (rcvvar s)))"
    using b by (subst parse_timestamp_loop.simps) (simp add: opt_consts numeral_2_eq_2)
  then show ?thesis using generate_options_data [OF assms, of s ts]
    by (simp add: cmt_tcp_parse_timestamp_def M_def)
qed

theorem data_timestamp_roundtrip_witness:
  "\<exists>bytes. cmt_tcp_generate_options blank_stream 77 0x10 (replicate 12 0) 12 = Inr bytes \<and>
    cmt_tcp_parse_timestamp bytes 12 = Inr (Some (77, 0))"
  using data_timestamp_roundtrip [of "0x10" "replicate 12 0" blank_stream 77] by (auto simp: CMT_TCPHDR_SYN_def blank_stream_def blank_recv_def)

text \<open>
  The timestamp parser steps over every second filler unread, so a timestamp behind a single
  filler is missed when the first byte of its clock is above ten: the caller then sees a segment
  without timestamp.
\<close>

theorem timestamp_missed_after_one_nop:
  assumes "10 < drop_bit 24 v"
  shows "cmt_tcp_parse_timestamp (TCP_OPT_NOP # ts_bytes v r @ TCP_OPT_NOP # rest) 12 = Inr None"
proof -
  let ?M = "TCP_OPT_NOP # ts_bytes v r @ TCP_OPT_NOP # rest"
  have lt: "drop_bit 24 v < 256"
  proof -
    have "unat (drop_bit 24 v) < 256"
      using unat_u32_less [of v] by (simp add: drop_bit_eq_div unat_div div_less_iff_less_mult)
    then show ?thesis by (simp add: unat_mono_less)
  qed
  have h: "ucast (htonl v) = (ucast (drop_bit 24 v) :: u8)"
    by (rule bit_word_eqI) (auto simp: htonl_def bit_simps)
  have "10 < (ucast (drop_bit 24 v) :: u8)"
    using assms lt by (simp add: unat_mono_less unsigned_ucast_eq take_bit_eq_mod)
  then have big: "10 < unat (ucast (htonl v) :: u8)" unfolding h by (simp add: unat_mono_less)
  have b: "byte_at ?M 0 = Inr 1" "byte_at ?M 2 = Inr 10" "byte_at ?M 3 = Inr (ucast (htonl v))"
    by (simp_all add: byte_at_def ts_bytes_def le_bytes32_def opt_consts)
  have "int (2 + 2 + unat (ucast (htonl v) :: u8) - 2) > 12" using big by linarith
  then have "parse_timestamp_loop ?M 12 2 = Inr None"
    using b by (subst parse_timestamp_loop.simps) (simp add: opt_consts)
  then show ?thesis using b unfolding cmt_tcp_parse_timestamp_def
    by (subst parse_timestamp_loop.simps) (simp add: opt_consts numeral_2_eq_2)
qed

theorem timestamp_missed_after_one_nop_witness:
  "cmt_tcp_parse_timestamp (TCP_OPT_NOP # ts_bytes 0x20000000 5 @ TCP_OPT_NOP # []) 12 = Inr None"
  using timestamp_missed_after_one_nop [of "0x20000000" 5 "[]"] by simp

text \<open>
  The option parser does not return, however much fuel it is given, once it reaches an option
  of a kind it does not know whose length byte is zero: one segment of a peer stops the thread.
\<close>

theorem parse_options_diverges:
  assumes "\<not> known_kind k" "length pre < nat len" "\<forall>b\<in>set pre. b = TCP_OPT_NOP"
  shows "cmt_tcp_parse_options fuel s ts (pre @ k # 0 # rest) len = None"
proof -
  let ?M = "pre @ k # 0 # rest"
  have len: "int (length pre) < len" using assms(2) by linarith
  have bk: "byte_at ?M (length pre) = Inr k" "byte_at ?M (length pre + 1) = Inr 0"
    by (simp_all add: byte_at_def nth_append)
  have "parse_options_loop f ts ?M len (length pre - j) s = None" if "j \<le> length pre" for f j
    using that
  proof (induction j arbitrary: f)
    case 0
    then show ?case using parse_stuck [OF len bk(1) assms(1) bk(2)] by simp
  next
    case (Suc j)
    let ?i = "length pre - Suc j"
    have i: "?i < length pre" "int ?i < len" "?i + 1 = length pre - j" using Suc.prems len by auto
    have "byte_at ?M ?i = Inr TCP_OPT_NOP"
      using assms(3) i(1) by (simp add: byte_at_def nth_append)
    then show ?case using parse_nop [OF i(2), of ?M _ ts s] Suc i
      by (cases f) (simp_all add: parse_options_loop.simps(1))
  qed
  from this [of "length pre"] show ?thesis by (simp add: cmt_tcp_parse_options_def)
qed

theorem parse_options_diverges_witness:
  "cmt_tcp_parse_options 1000 blank_stream 9 ([TCP_OPT_NOP] @ TCP_OPT_SACK # 0 # []) 3 = None"
  using parse_options_diverges [of TCP_OPT_SACK "[TCP_OPT_NOP]" 3 1000 blank_stream 9 "[]"]
  by (simp add: known_kind_def opt_consts)

text \<open>No byte that could be read as an unknown kind is followed by a zero length.\<close>

definition zero_free :: "u8 list \<Rightarrow> bool" where
  "zero_free mem \<longleftrightarrow> (\<forall>i < length mem - 1. known_kind (mem ! i) \<or> mem ! (i + 1) \<noteq> 0)"

lemma parse_options_loop_ends:
  "zero_free mem \<Longrightarrow> nat (len - int i) < fuel \<Longrightarrow>
    \<exists>r. parse_options_loop fuel ts mem len i s = Some r"
proof (induction fuel arbitrary: i s)
  case (Suc f)
  have ih: "\<exists>r. parse_options_loop f ts mem len j x = Some r" if "i < j" "int i < len" for j x
    using Suc.prems that by (intro Suc.IH) auto
  have skip: "0 < unat n"
    if "byte_at mem i = Inr k" "byte_at mem (Suc i) = Inr n" "k \<noteq> TCP_OPT_END" "k \<noteq> TCP_OPT_NOP"
      "k \<noteq> TCP_OPT_MSS" "k \<noteq> TCP_OPT_WSCALE" "k \<noteq> TCP_OPT_SACK_PERMIT" "k \<noteq> TCP_OPT_TIMESTAMP" for k n
  proof -
    have "\<not> known_kind k" using that by (simp add: known_kind_def)
    then have "n \<noteq> 0" using that(1,2) Suc.prems(1)
      by (auto simp: zero_free_def byte_at_def less_diff_conv split: if_splits)
    then show ?thesis by (simp add: unat_gt_0)
  qed
  show ?case
    unfolding parse_options_loop.simps(2)
    by (auto simp: Let_def split: sum.split intro!: ih intro: skip)
qed simp

text \<open>
  C30: That is the only way the option parser can fail to return: on memory in which no unknown
  kind is followed by a zero length it returns within one round per byte of the options.
\<close>

theorem parse_options_terminates:
  assumes "zero_free mem"
  shows "\<exists>r. cmt_tcp_parse_options (nat len + 1) s ts mem len = Some r"
  unfolding cmt_tcp_parse_options_def
  by (rule parse_options_loop_ends [OF assms]) simp

theorem parse_options_terminates_witness:
  "\<exists>r. cmt_tcp_parse_options (nat 4 + 1) blank_stream 9 [5, 3, 9, 1] 4 = Some r"
  by (rule parse_options_terminates)
    (simp add: zero_free_def numeral_3_eq_3 All_less_Suc known_kind_def opt_consts)

end
