(* ===== verification/Tcp_Ack.thy ===== *)
theory Tcp_Ack
  imports Tcp_Invariant
begin

text \<open>
  Acknowledgement processing of \<open>src/tcp.c\<close>: the round trip estimator and
  \<open>cmt_tcp_process_ack\<close>, with window update, duplicate acknowledgements, fast retransmit,
  congestion window growth, release of acknowledged data and re-arming of the timer. Products of
  16-bit values are computed modulo \<open>2 ^ 32\<close>, the width of the variables they are stored in.
\<close>

subsection \<open>Segment header\<close>

record tcphdr =
  source :: u16
  dest :: u16
  seq :: u32
  ack_seq :: u32
  doff :: nat
  fin :: bool
  syn :: bool
  rst :: bool
  psh :: bool
  ack :: bool
  urg :: bool
  window :: u16
  check :: u16

subsection \<open>Round trip time\<close>

text \<open>
  A later sample, the end of a round trip, and the first sample. \<open>m\<close> is a 64-bit integer
  that holds every intermediate value exactly.
\<close>

definition rtt_sample :: "int \<Rightarrow> tcp_recv \<Rightarrow> tcp_recv" where
  "rtt_sample m rcv =
     (let m = m - uint (drop_bit 3 (srtt rcv));
          rcv = rcv\<lparr>srtt := srtt rcv + 3\<rparr>;
          m = (if m < 0
               then (let m = - m - uint (drop_bit 2 (mdev rcv)) in if m > 0 then m div 8 else m)
               else m - uint (drop_bit 2 (mdev rcv)));
          rcv = rcv\<lparr>mdev := word_of_int (uint (mdev rcv) + m)\<rparr> in
      if mdev rcv > mdev_max rcv
      then (let rcv = rcv\<lparr>mdev_max := mdev rcv\<rparr>
            in if mdev_max rcv > rttvar rcv then rcv\<lparr>rttvar := mdev_max rcv\<rparr> else rcv)
      else rcv)"

definition rtt_period :: "tcp_stream \<Rightarrow> tcp_recv \<Rightarrow> tcp_recv" where
  "rtt_period s rcv =
     (if TCP_SEQ_GT (snd_una (sndvar s)) (rtt_seq rcv)
      then (let rcv = (if mdev_max rcv < rttvar rcv
                       then rcv\<lparr>rttvar := rttvar rcv - (rttvar rcv - mdev_max rcv)\<rparr> else rcv)
            in rcv\<lparr>rtt_seq := snd_nxt s, mdev_max := 0\<rparr>)
      else rcv)"

definition rtt_first :: "int \<Rightarrow> tcp_stream \<Rightarrow> tcp_recv \<Rightarrow> tcp_recv" where
  "rtt_first m s rcv =
     (let rcv = rcv\<lparr>srtt := word_of_int (m * 8), mdev := word_of_int (m * 2)\<rparr>;
          mx = max (mdev rcv) 0
      in rcv\<lparr>rttvar := mx, mdev_max := mx, rtt_seq := snd_nxt s\<rparr>)"

definition cmt_tcp_estimate_rtt :: "nat \<Rightarrow> u32 \<Rightarrow> mgr \<Rightarrow> mgr" where
  "cmt_tcp_estimate_rtt sid mrtt mg =
     (let s = streams mg sid; m = (if uint mrtt = 0 then 1 else uint mrtt) in
      if srtt (rcvvar s) \<noteq> 0
      then upd_rcv sid (\<lambda>rcv. rtt_period s (rtt_sample m rcv)) mg
      else upd_rcv sid (rtt_first m s) mg)"

subsection \<open>The stages of process_ack\<close>

text \<open>The end of the data in the send buffer.\<close>

definition sb_end :: "send_buffer \<Rightarrow> u32" where
  "sb_end b = sb_head_seq b + sb_len b"

text \<open>Window update: the segment is newer, or acknowledges more, or widens the window.\<close>

definition ack_window :: "u32 \<Rightarrow> u32 \<Rightarrow> u32 \<Rightarrow> tcp_stream \<Rightarrow> tcp_stream" where
  "ack_window sq ackno cwindow s =
     (let snd = sndvar s; rcv = rcvvar s in
      if TCP_SEQ_LT (snd_wl1 rcv) sq \<or>
         (snd_wl1 rcv = sq \<and> TCP_SEQ_LT (snd_wl2 rcv) ackno) \<or>
         (snd_wl2 rcv = ackno \<and> cwindow > peer_wnd snd)
      then s\<lparr>sndvar := snd\<lparr>peer_wnd := cwindow\<rparr>, rcvvar := rcv\<lparr>snd_wl1 := sq, snd_wl2 := ackno\<rparr>\<rparr>
      else s)"

text \<open>Is the segment a duplicate acknowledgement?\<close>

definition is_dup :: "u32 \<Rightarrow> u32 \<Rightarrow> int \<Rightarrow> tcp_stream \<Rightarrow> bool" where
  "is_dup right_wnd_edge ackno payloadlen s \<longleftrightarrow>
     TCP_SEQ_LT ackno (snd_nxt s) \<and> ackno = last_ack_seq (rcvvar s) \<and> payloadlen = 0 \<and>
     snd_wl2 (rcvvar s) + peer_wnd (sndvar s) = right_wnd_edge"

text \<open>
  \<open>dup_acks + 1 > dup_acks\<close> compares two \<open>int\<close>s, so it always holds and the 8-bit
  counter wraps.
\<close>

definition ack_dup_count :: "bool \<Rightarrow> u32 \<Rightarrow> tcp_stream \<Rightarrow> tcp_stream" where
  "ack_dup_count dup ackno s =
     (if dup then s\<lparr>rcvvar := (rcvvar s)\<lparr>dup_acks := dup_acks (rcvvar s) + 1\<rparr>\<rparr>
      else s\<lparr>rcvvar := (rcvvar s)\<lparr>dup_acks := 0, last_ack_seq := ackno\<rparr>\<rparr>)"

definition fast_retransmit :: "u32 \<Rightarrow> tcp_stream \<Rightarrow> tcp_stream" where
  "fast_retransmit ackno s =
     (let s = (if TCP_SEQ_LT ackno (snd_nxt s) then s\<lparr>snd_nxt := ackno\<rparr> else s);
          snd = sndvar s;
          th = min (cwnd snd) (peer_wnd snd) div 2;
          th = (if th < 2 * ucast (mss snd) then 2 * ucast (mss snd) else th);
          snd = snd\<lparr>ssthresh := th, cwnd := th + 3 * ucast (mss snd)\<rparr>;
          snd = (if nrtx snd < TCP_MAX_RTX then snd\<lparr>nrtx := nrtx snd + 1\<rparr> else snd)
      in s\<lparr>sndvar := snd\<rparr>)"

definition dup_inflate :: "tcp_stream \<Rightarrow> tcp_stream" where
  "dup_inflate s =
     (let snd = sndvar s in
      if cwnd snd + ucast (mss snd) > cwnd snd
      then s\<lparr>sndvar := snd\<lparr>cwnd := cwnd snd + ucast (mss snd)\<rparr>\<rparr> else s)"

text \<open>Number of segments acknowledged, a 16-bit variable; the test below it never holds.\<close>

definition acked_packets :: "u32 \<Rightarrow> u16 \<Rightarrow> u16 res" where
  "acked_packets rmlen eff =
     andThen (c_div rmlen (ucast eff)) (\<lambda>q.
     Inr (if q * ucast eff > rmlen then ucast q + 1 else ucast q))"

text \<open>Growth of the congestion window; the \<open>else\<close> belongs to the test of the state.\<close>

definition grow_cwnd :: "u16 \<Rightarrow> tcp_stream \<Rightarrow> tcp_stream res" where
  "grow_cwnd packets s =
     (let snd = sndvar s in
      if state s \<ge> CMT_TCP_ESTABLISHED then
        (if cwnd snd < ssthresh snd \<and> cwnd snd + ucast (mss snd) > cwnd snd
         then Inr (s\<lparr>sndvar := snd\<lparr>cwnd := cwnd snd + ucast (mss snd) * ucast packets\<rparr>\<rparr>)
         else Inr s)
      else
        andThen (c_div (ucast packets * ucast (mss snd) * ucast (mss snd)) (cwnd snd)) (\<lambda>q.
        let new_cwnd = cwnd snd + q in
        Inr (if new_cwnd > cwnd snd then s\<lparr>sndvar := snd\<lparr>cwnd := new_cwnd\<rparr>\<rparr> else s)))"

text \<open>A new round trip sample and retransmission timeout, when the peer sends timestamps.\<close>

definition release_rtt :: "nat \<Rightarrow> u32 \<Rightarrow> mgr \<Rightarrow> mgr res" where
  "release_rtt sid cur_ts m =
     (if saw_timestamp (streams m sid) then
        let m = cmt_tcp_estimate_rtt sid (cur_ts - ts_lastack_rcvd (rcvvar (streams m sid))) m;
            r = drop_bit 3 (srtt (rcvvar (streams m sid))) + rttvar (rcvvar (streams m sid));
            m = upd_snd sid (\<lambda>v. v\<lparr>rto := r\<rparr>) m
        in c_assert (r > 0) m
      else Inr m)"

text \<open>The data leaves the send buffer, and the timer is armed for what is left.\<close>

definition release_remove :: "nat \<Rightarrow> u32 \<Rightarrow> u32 \<Rightarrow> u32 \<Rightarrow> send_buffer \<Rightarrow> mgr \<Rightarrow> mgr res" where
  "release_remove sid cur_ts ackno rmlen buf m =
     (let (ret, buf) = SBRemove buf (ucast rmlen);
          m = upd_snd sid (\<lambda>v. v\<lparr>sndbuf := Some buf\<rparr>) m
      in if sint (ucast ret :: u32) \<le> 0 then Inr m
         else
           let m = upd_snd sid (\<lambda>v. v\<lparr>snd_una := ackno, snd_wnd := sb_size buf - sb_len buf\<rparr>) m
           in update_retransmission_timer sid cur_ts m)"

text \<open>Everything after the acknowledgement is known to free data: the last block of the code.\<close>

definition ack_release :: "nat \<Rightarrow> u32 \<Rightarrow> u32 \<Rightarrow> send_buffer \<Rightarrow> mgr \<Rightarrow> mgr res" where
  "ack_release sid cur_ts ackno buf m =
     (let rmlen = ackno - sb_head_seq buf in
      if \<not> rmlen > 0 then Inr m
      else
        andThen (acked_packets rmlen (eff_mss (sndvar (streams m sid)))) (\<lambda>packets.
        andThen (release_rtt sid cur_ts m) (\<lambda>m.
        andThen (grow_cwnd packets (streams m sid)) (\<lambda>s.
        release_remove sid cur_ts ackno rmlen buf (upd sid (\<lambda>_. s) m)))))"

text \<open>
  The acknowledgement of a FIN counts one beyond the data; it is taken back in the states that
  may have sent one.
\<close>

definition adjust_fin_ack :: "u32 \<Rightarrow> tcp_stream \<Rightarrow> u32" where
  "adjust_fin_ack ackno s =
     (if state s \<in> {CMT_TCP_FIN_WAIT_1, CMT_TCP_FIN_WAIT_2, CMT_TCP_FIN_CLOSING, CMT_TCP_CLOSE_WAIT,
                    CMT_TCP_LAST_ACK}
        \<and> is_fin_sent (sndvar s) \<and> ackno = fss (sndvar s) + 1
      then ackno - 1 else ackno)"

text \<open>The stages on the stream before the lists are touched.\<close>

definition ack_front :: "u32 \<Rightarrow> u32 \<Rightarrow> u32 \<Rightarrow> int \<Rightarrow> tcp_stream \<Rightarrow> bool \<times> tcp_stream" where
  "ack_front sq ackno cwindow payloadlen s =
     (let right_wnd_edge = peer_wnd (sndvar s) + snd_wl1 (rcvvar s);
          s = ack_window sq ackno cwindow s;
          dup = is_dup right_wnd_edge ackno payloadlen s
      in (dup, ack_dup_count dup ackno s))"

text \<open>The third duplicate retransmits, later ones inflate the window.\<close>

definition ack_dup_action :: "nat \<Rightarrow> u32 \<Rightarrow> bool \<Rightarrow> mgr \<Rightarrow> mgr res" where
  "ack_dup_action sid ackno dup m =
     (let s = streams m sid in
      if dup \<and> dup_acks (rcvvar s) = 3
      then cmt_tcp_addto_sendlist sid (upd sid (fast_retransmit ackno) m)
      else if dup_acks (rcvvar s) > 3 then Inr (upd sid dup_inflate m)
      else Inr m)"

definition ack_advance :: "nat \<Rightarrow> u32 \<Rightarrow> send_buffer \<Rightarrow> mgr \<Rightarrow> mgr" where
  "ack_advance sid ackno buf m =
     (if TCP_SEQ_GT ackno (snd_nxt (streams m sid))
      then (let m = upd sid (\<lambda>s. s\<lparr>snd_nxt := ackno\<rparr>) m
            in if sb_len buf = 0 then cmt_tcp_remove_sendlist sid m else m)
      else m)"

definition ack_cwindow :: "tcphdr \<Rightarrow> u16 \<Rightarrow> tcp_stream \<Rightarrow> u32 res" where
  "ack_cwindow tcph wnd s =
     (if \<not> syn tcph then c_shl (ucast wnd) (unat (wscale_peer (sndvar s))) else Inr (ucast wnd))"

definition cmt_tcp_process_ack ::
  "nat \<Rightarrow> u32 \<Rightarrow> tcphdr \<Rightarrow> u32 \<Rightarrow> u32 \<Rightarrow> u16 \<Rightarrow> int \<Rightarrow> mgr \<Rightarrow> mgr res" where
  "cmt_tcp_process_ack sid cur_ts tcph sq ackno wnd payloadlen m =
     andThen (ack_cwindow tcph wnd (streams m sid)) (\<lambda>cwindow.
     case sndbuf (sndvar (streams m sid)) of
       None \<Rightarrow> Inl NullDeref
     | Some buf \<Rightarrow>
         let ackno = adjust_fin_ack ackno (streams m sid) in
         if TCP_SEQ_GT ackno (sb_end buf) then Inr m
         else
           let (dup, s) = ack_front sq ackno cwindow payloadlen (streams m sid) in
           andThen (ack_dup_action sid ackno dup (upd sid (\<lambda>_. s) m)) (\<lambda>m.
           let m = ack_advance sid ackno buf m in
           if TCP_SEQ_GEQ (sb_head_seq buf) ackno then Inr m
           else ack_release sid cur_ts ackno buf m))"

subsection \<open>The stages keep the links of the stream\<close>

lemma links_stages [simp]:
  "links (ack_window sq a w s) = links s" "links (ack_dup_count d a s) = links s"
  "links (fast_retransmit a s) = links s" "links (dup_inflate s) = links s"
  by (simp_all add: ack_window_def ack_dup_count_def fast_retransmit_def dup_inflate_def links_def
      snd_links_def Let_def)

lemma state_stages [simp]:
  "state (ack_window sq a w s) = state s" "state (ack_dup_count d a s) = state s"
  "state (fast_retransmit a s) = state s" "state (dup_inflate s) = state s"
  by (simp_all add: ack_window_def ack_dup_count_def fast_retransmit_def dup_inflate_def Let_def)

lemma state_front [simp]: "state (snd (ack_front sq a w p s)) = state s"
  by (simp add: ack_front_def Let_def)

lemma state_grow: "grow_cwnd p s = Inr s' \<Longrightarrow> state s' = state s"
  by (auto simp: grow_cwnd_def Let_def andThen_Inr_iff split: if_splits)

lemma links_front [simp]: "links (snd (ack_front sq a w p s)) = links s"
  by (simp add: ack_front_def Let_def)

lemma links_grow: "grow_cwnd p s = Inr s' \<Longrightarrow> links s' = links s"
  by (auto simp: grow_cwnd_def links_def snd_links_def Let_def andThen_Inr_iff split: if_splits)

text \<open>The ways through \<open>cmt_tcp_process_ack\<close> and its last block.\<close>

lemma process_ack_cases:
  assumes "cmt_tcp_process_ack s ts h sq a w p m = Inr m'"
  obtains (invalid) buf where "sndbuf (sndvar (streams m s)) = Some buf"
      "TCP_SEQ_GT (adjust_fin_ack a (streams m s)) (sb_end buf)" "m' = m"
  | (valid) cw buf d s1 k where "ack_cwindow h w (streams m s) = Inr cw"
      "sndbuf (sndvar (streams m s)) = Some buf"
      "\<not> TCP_SEQ_GT (adjust_fin_ack a (streams m s)) (sb_end buf)"
      "ack_front sq (adjust_fin_ack a (streams m s)) cw p (streams m s) = (d, s1)"
      "ack_dup_action s (adjust_fin_ack a (streams m s)) d (upd s (\<lambda>_. s1) m) = Inr k"
      "if TCP_SEQ_GEQ (sb_head_seq buf) (adjust_fin_ack a (streams m s))
       then m' = ack_advance s (adjust_fin_ack a (streams m s)) buf k
       else ack_release s ts (adjust_fin_ack a (streams m s)) buf
              (ack_advance s (adjust_fin_ack a (streams m s)) buf k) = Inr m'"
proof -
  from assms obtain cw where cw: "ack_cwindow h w (streams m s) = Inr cw"
    unfolding cmt_tcp_process_ack_def by (erule_tac andThen_InrE) simp
  from assms cw obtain buf where buf: "sndbuf (sndvar (streams m s)) = Some buf"
    by (auto simp: cmt_tcp_process_ack_def split: option.splits)
  let ?a = "adjust_fin_ack a (streams m s)"
  obtain d s1 where d: "ack_front sq ?a cw p (streams m s) = (d, s1)" by fastforce
  show thesis
  proof (cases "TCP_SEQ_GT ?a (sb_end buf)")
    case True
    then show thesis using invalid [OF buf] assms cw buf by (simp add: cmt_tcp_process_ack_def Let_def)
  next
    case False
    with assms cw buf d have "andThen (ack_dup_action s ?a d (upd s (\<lambda>_. s1) m)) (\<lambda>m.
        if TCP_SEQ_GEQ (sb_head_seq buf) ?a then Inr (ack_advance s ?a buf m)
        else ack_release s ts ?a buf (ack_advance s ?a buf m)) = Inr m'"
      by (simp add: cmt_tcp_process_ack_def Let_def)
    then obtain k where k: "ack_dup_action s ?a d (upd s (\<lambda>_. s1) m) = Inr k"
      "(if TCP_SEQ_GEQ (sb_head_seq buf) ?a then Inr (ack_advance s ?a buf k)
        else ack_release s ts ?a buf (ack_advance s ?a buf k)) = Inr m'"
      by (rule andThen_InrE)
    show thesis by (rule valid [OF cw buf False d k(1)]) (use k(2) in \<open>auto split: if_splits\<close>)
  qed
qed

lemma ack_release_cases:
  assumes "ack_release s ts a buf m = Inr m'"
  obtains (empty) "a = sb_head_seq buf" "m' = m"
  | (data) p k s2 where "a \<noteq> sb_head_seq buf"
      "acked_packets (a - sb_head_seq buf) (eff_mss (sndvar (streams m s))) = Inr p"
      "release_rtt s ts m = Inr k" "grow_cwnd p (streams k s) = Inr s2"
      "release_remove s ts a (a - sb_head_seq buf) buf (upd s (\<lambda>_. s2) k) = Inr m'"
proof (cases "a = sb_head_seq buf")
  case True
  then show thesis using empty assms by (simp add: ack_release_def)
next
  case False
  then have "a - sb_head_seq buf > 0" by (simp add: word_greater_zero_iff)
  with assms have "andThen (acked_packets (a - sb_head_seq buf) (eff_mss (sndvar (streams m s)))) (\<lambda>p.
      andThen (release_rtt s ts m) (\<lambda>k. andThen (grow_cwnd p (streams k s)) (\<lambda>s2.
      release_remove s ts a (a - sb_head_seq buf) buf (upd s (\<lambda>_. s2) k)))) = Inr m'"
    by (simp add: ack_release_def Let_def)
  then show thesis by (elim andThen_InrE) (rule data [OF False])
qed

context mgr_step
begin

lemma rtt_closed: "P m \<Longrightarrow> mine s \<Longrightarrow> P (cmt_tcp_estimate_rtt s t m)"
  by (simp add: cmt_tcp_estimate_rtt_def Let_def rcv_closed)

lemma release_rtt_closed: "P m \<Longrightarrow> mine s \<Longrightarrow> release_rtt s ts m = Inr m' \<Longrightarrow> P m'"
  by (auto simp: release_rtt_def Let_def snd_links_def split: if_splits intro!: snd_closed rtt_closed)

lemma release_remove_closed:
  assumes "P m" "mine s" "release_remove s ts a r buf m = Inr m'"
  shows "P m'"
proof -
  obtain ret b where b: "SBRemove buf (ucast r) = (ret, b)" by fastforce
  define m1 where "m1 = upd_snd s (\<lambda>v. v\<lparr>sndbuf := Some b\<rparr>) m"
  define m2 where "m2 = upd_snd s (\<lambda>v. v\<lparr>snd_una := a, snd_wnd := sb_size b - sb_len b\<rparr>) m1"
  have m1: "P m1" unfolding m1_def using assms by (intro snd_closed) (simp_all add: snd_links_def)
  then have m2: "P m2" unfolding m2_def using assms(2) by (intro snd_closed) (simp_all add: snd_links_def)
  have "m' = m1 \<or> update_retransmission_timer s ts m2 = Inr m'"
    using assms(3) by (auto simp: release_remove_def b Let_def m1_def [symmetric] m2_def [symmetric] split: if_splits)
  then show ?thesis using m1 rtx_timer_closed [OF m2 assms(2)] by blast
qed

lemma release_closed:
  assumes "P m" "mine s" "ack_release s ts a buf m = Inr m'"
  shows "P m'"
  using assms(3)
proof (cases rule: ack_release_cases)
  case (data p k s2)
  have "P k" using release_rtt_closed [OF assms(1,2) data(3)] .
  then have "P (upd s (\<lambda>_. s2) k)" using assms(2) links_grow [OF data(4)] state_grow [OF data(4)] by (intro upd_law)
  then show ?thesis using assms(2) data(5) by (rule release_remove_closed)
qed (use assms in simp)

lemma dup_action_closed:
  assumes "P m" "mine s" "ack_dup_action s a d m = Inr m'"
  shows "P m'"
proof -
  have "P (upd s (fast_retransmit a) m)" "P (upd s dup_inflate m)"
    using assms by (auto intro: upd_law)
  then show ?thesis using assms addsend_law [of "upd s (fast_retransmit a) m" s m']
    by (auto simp: ack_dup_action_def Let_def split: if_splits)
qed

lemma advance_closed:
  assumes "P m" "mine s"
  shows "P (ack_advance s a buf m)"
proof -
  have "P (upd s (\<lambda>s. s\<lparr>snd_nxt := a\<rparr>) m)" using assms by (intro upd_law) (simp_all add: links_def)
  then show ?thesis using assms by (simp add: ack_advance_def Let_def remsend_law)
qed

lemma ack_closed:
  assumes "P m" "mine s" "cmt_tcp_process_ack s ts h sq a w p m = Inr m'"
  shows "P m'"
  using assms(3)
proof (cases rule: process_ack_cases)
  case (valid cw buf d s1 k)
  have "links s1 = links (streams m s)" "state s1 = state (streams m s)"
    using links_front [of sq "adjust_fin_ack a (streams m s)" cw p "streams m s"]
      state_front [of sq "adjust_fin_ack a (streams m s)" cw p "streams m s"] valid(4) by simp_all
  then have "P (upd s (\<lambda>_. s1) m)" using assms(1,2) by (intro upd_law)
  then have "P k" using assms(2) valid(5) by (rule dup_action_closed)
  then have "P (ack_advance s (adjust_fin_ack a (streams m s)) buf k)" using assms(2) by (rule advance_closed)
  then show ?thesis using valid(6) release_closed [OF _ assms(2)] by (auto split: if_splits)
qed (use assms in simp)

end

end
