(* ===== verification/Tcp_Handlers.thy ===== *)
theory Tcp_Handlers
  imports Tcp_Ack Tcp_Options Checksum
begin

text \<open>
  Creation of streams (\<open>src/tcp_stream.c\<close>) and the handlers of the connection states of
  \<open>src/tcp.c\<close>. What the handlers call and the repository does not define, or defines by calls
  of the object pools, is the record \<open>env\<close>: the pools, the clock, the random numbers, the
  receive buffer operations, \<open>NextIndex\<close>, \<open>cmt_tcp_flush_read_event\<close> and
  \<open>cmt_tcp_handle_close_wait\<close>; and \<open>e_head\<close> is what the unassigned \<open>head\<close> of \<open>stream_ht_search\<close>
  leads to, a chain of streams or an abort.
\<close>

subsection \<open>The environment\<close>

record env =
  e_get_stream :: "mgr \<Rightarrow> nat option"
  e_snd_get :: "mgr \<Rightarrow> tcp_send option"
  e_rcv_get :: "mgr \<Rightarrow> tcp_recv option"
  e_rcvbuf_get :: "mgr \<Rightarrow> u32 \<Rightarrow> recv_buffer option"
  e_rand :: "mgr \<Rightarrow> u32"
  e_timeval :: "int \<times> int"
  e_recv_put :: "recv_buffer \<Rightarrow> u8 list \<Rightarrow> u32 \<Rightarrow> u32 \<Rightarrow> (int \<times> recv_buffer) res"
  e_recv_remove :: "recv_buffer \<Rightarrow> u64 \<Rightarrow> (u64 \<times> recv_buffer) res"
  e_next_index :: "u32 \<Rightarrow> u32 \<Rightarrow> u32"
  e_flush :: "tcp_recv \<Rightarrow> tcp_recv"
  e_close_wait :: "nat \<Rightarrow> u32 \<Rightarrow> tcphdr \<Rightarrow> u32 \<Rightarrow> u32 \<Rightarrow> int \<Rightarrow> u16 \<Rightarrow> mgr \<Rightarrow> mgr res"
  e_head :: "mgr \<Rightarrow> flow \<Rightarrow> nat list res"
  e_proto :: u16
  e_fuel :: nat

definition CMT_TCP_SOCK_STREAM :: nat where "CMT_TCP_SOCK_STREAM = 1"
definition INADDR_ANY :: u32 where "INADDR_ANY = 0"
definition TCP_HEADER_LEN :: int where "TCP_HEADER_LEN = 20"

text \<open>The IP header fields the handlers read, in network order.\<close>

record iphdr =
  ip_src :: u32
  ip_dst :: u32
  ihl :: nat
  tot_len :: u16

subsection \<open>Creating a stream\<close>

text \<open>What \<open>create_tcp_stream\<close> stores in the send and receive parts and in the stream.\<close>

definition init_send :: "u32 \<Rightarrow> tcp_send \<Rightarrow> tcp_send" where
  "init_send rnd v =
     v\<lparr>ip_id := 0, mss := TCP_DEFAULT_MSS, wscale_mine := TCP_DEFAULT_WSCALE, wscale_peer := 0,
       nif_out := 0, iss := rnd mod TCP_MAX_SEQ, snd_una := rnd mod TCP_MAX_SEQ,
       snd_wnd := CMT_SEND_BUFFER_SIZE, rto := TCP_INITIAL_RTO\<rparr>"

definition init_recv :: "tcp_recv \<Rightarrow> tcp_recv" where
  "init_recv r = r\<lparr>irs := 0, rcv_wnd := TCP_INITIAL_WINDOW, snd_wl1 := 0 - 1\<rparr>"

definition create_tcp_stream ::
  "env \<Rightarrow> nat \<Rightarrow> u32 \<Rightarrow> u16 \<Rightarrow> u32 \<Rightarrow> u16 \<Rightarrow> mgr \<Rightarrow> nat option \<times> mgr" where
  "create_tcp_stream E ty sa sp da dp m =
     (case e_get_stream E m of None \<Rightarrow> (None, m) | Some sid \<Rightarrow>
      case e_snd_get E m of None \<Rightarrow> (None, m) | Some sv \<Rightarrow>
      case e_rcv_get E m of None \<Rightarrow> (None, m) | Some rv \<Rightarrow>
        let m = upd sid (\<lambda>s. s\<lparr>sndvar := sv, rcvvar := rv, saddr := sa, sport := sp, daddr := da, dport := dp\<rparr>) m;
            m = m\<lparr>flow_table := stream_ht_insert (streams m) (flow_table m) sid\<rparr>;
            rnd = e_rand E m;
            m = upd sid (\<lambda>s. s\<lparr>stream_type := ty, state := CMT_TCP_LISTEN, on_rto_idx := - 1,
                  sndvar := init_send rnd (sndvar s), rcvvar := init_recv (rcvvar s),
                  snd_nxt := rnd mod TCP_MAX_SEQ, rcv_nxt := 0\<rparr>) m
        in (Some sid, m))"

subsection \<open>Opening\<close>

definition cmt_tcp_filter_synpkt :: "mgr \<Rightarrow> u32 \<Rightarrow> u16 \<Rightarrow> bool" where
  "cmt_tcp_filter_synpkt m ip port =
     (case listen_ht_search (\<lambda>l. l_port (lsnrs m l)) (listen_table m) port of
        None \<Rightarrow> False
      | Some l \<Rightarrow>
          (if l_port (lsnrs m l) = port then
             (if l_addr (lsnrs m l) \<noteq> INADDR_ANY then ip = l_addr (lsnrs m l) else False)
           else False))"

definition parse_into :: "env \<Rightarrow> nat \<Rightarrow> u32 \<Rightarrow> u8 list \<Rightarrow> tcphdr \<Rightarrow> mgr \<Rightarrow> mgr res" where
  "parse_into E sid cur_ts opts tcph m =
     andThen (with_fuel (cmt_tcp_parse_options (e_fuel E) (streams m sid) cur_ts opts
                          (int (4 * doff tcph) - TCP_HEADER_LEN))) (\<lambda>s.
     Inr (upd sid (\<lambda>_. s) m))"

definition cmt_tcp_passive_open ::
  "env \<Rightarrow> u32 \<Rightarrow> iphdr \<Rightarrow> tcphdr \<Rightarrow> u8 list \<Rightarrow> u32 \<Rightarrow> u16 \<Rightarrow> mgr \<Rightarrow> (nat option \<times> mgr) res" where
  "cmt_tcp_passive_open E cur_ts iph tcph opts sq wnd m =
     (case create_tcp_stream E CMT_TCP_SOCK_STREAM (ip_dst iph) (dest tcph) (ip_src iph) (source tcph) m of
        (None, m) \<Rightarrow> Inr (None, m)
      | (Some sid, m) \<Rightarrow>
          let m = upd sid (\<lambda>s. s\<lparr>rcvvar := (rcvvar s)\<lparr>irs := sq\<rparr>, rcv_nxt := sq,
                              sndvar := (sndvar s)\<lparr>peer_wnd := ucast wnd, cwnd := 1\<rparr>\<rparr>) m;
              m = upd_rcv sid (\<lambda>r. r\<lparr>rcvbuf := e_rcvbuf_get E m (sq + 1)\<rparr>) m;
              m = (if rcvbuf (rcvvar (streams m sid)) = None
                   then set_reason sid TCP_NO_MEM (set_state sid CMT_TCP_CLOSE m) else m)
          in andThen (parse_into E sid cur_ts opts tcph m) (\<lambda>m. Inr (Some sid, m)))"

definition cmt_tcp_active_open ::
  "env \<Rightarrow> nat \<Rightarrow> u32 \<Rightarrow> tcphdr \<Rightarrow> u8 list \<Rightarrow> u32 \<Rightarrow> u32 \<Rightarrow> u16 \<Rightarrow> mgr \<Rightarrow> mgr res" where
  "cmt_tcp_active_open E sid cur_ts tcph opts sq ackno wnd m =
     (let m = upd sid (\<lambda>s. s\<lparr>snd_nxt := ackno, rcv_nxt := sq + 1,
            sndvar := (sndvar s)\<lparr>peer_wnd := ucast wnd\<rparr>,
            rcvvar := (rcvvar s)\<lparr>irs := sq, snd_wl1 := sq - 1, last_ack_seq := ackno\<rparr>\<rparr>) m in
      andThen (parse_into E sid cur_ts opts tcph m) (\<lambda>m.
      let m = upd_snd sid (\<lambda>v. v\<lparr>cwnd := (if cwnd v = 1 then ucast (mss v) * 2 else ucast (mss v)),
                               ssthresh := ucast (mss v) * 10\<rparr>) m
      in update_retransmission_timer sid cur_ts m))"

text \<open>A segment for no stream: a SYN opens one, or it is answered with a reset.\<close>

definition cmt_create_stream ::
  "env \<Rightarrow> u32 \<Rightarrow> iphdr \<Rightarrow> tcphdr \<Rightarrow> u8 list \<Rightarrow> u32 \<Rightarrow> u32 \<Rightarrow> int \<Rightarrow> u16 \<Rightarrow> mgr \<Rightarrow> (nat option \<times> mgr) res" where
  "cmt_create_stream E cur_ts iph tcph opts sq ackno plen wnd m =
     (let reset = (\<lambda>rs ra fl. cmt_tcppkt_alone (ip_dst iph) (dest tcph) (ip_src iph) (source tcph) rs ra fl) in
      if syn tcph \<and> \<not> ack tcph then
        (if \<not> cmt_tcp_filter_synpkt m (ip_dst iph) (dest tcph)
         then Inr (None, reset 0 (sq + word_of_int plen + 1) (CMT_TCPHDR_RST OR CMT_TCPHDR_ACK) m)
         else
           andThen (cmt_tcp_passive_open E cur_ts iph tcph opts sq wnd m) (\<lambda>(r, m).
           case r of
             None \<Rightarrow> Inr (None, reset 0 (sq + word_of_int plen + 1) (CMT_TCPHDR_RST OR CMT_TCPHDR_ACK) m)
           | Some sid \<Rightarrow> Inr (Some sid, m)))
      else if rst tcph then Inr (None, m)
      else if ack tcph then Inr (None, reset ackno 0 CMT_TCPHDR_RST m)
      else Inr (None, reset 0 (sq + word_of_int plen) (CMT_TCPHDR_RST OR CMT_TCPHDR_ACK) m))"

subsection \<open>Acceptability of a segment\<close>

text \<open>The timestamp check; \<open>None\<close> when the segment has none and is refused.\<close>

definition check_timestamp :: "nat \<Rightarrow> u32 \<Rightarrow> tcphdr \<Rightarrow> u8 list \<Rightarrow> mgr \<Rightarrow> mgr option res" where
  "check_timestamp sid cur_ts tcph opts m =
     (if \<not> rst tcph \<and> saw_timestamp (streams m sid) then
        andThen (cmt_tcp_parse_timestamp opts (int (4 * doff tcph) - TCP_HEADER_LEN)) (\<lambda>ts.
        case ts of
          None \<Rightarrow> Inr None
        | Some (ts_val, ts_ref) \<Rightarrow>
            if TCP_SEQ_LT ts_val (ts_recent (rcvvar (streams m sid)))
            then Inr (Some (cmt_tcp_enqueue_acklist sid ACK_OPT_NOW m))
            else
              let m = (if TCP_SEQ_GT ts_val (ts_recent (rcvvar (streams m sid)))
                       then upd_rcv sid (\<lambda>r. r\<lparr>ts_last_ts_upd := cur_ts\<rparr>) m else m)
              in Inr (Some (upd_rcv sid (\<lambda>r. r\<lparr>ts_recent := ts_val, ts_lastack_rcvd := ts_ref\<rparr>) m)))
      else Inr (Some m))"

definition cmt_tcp_validseq ::
  "nat \<Rightarrow> u32 \<Rightarrow> tcphdr \<Rightarrow> u8 list \<Rightarrow> u32 \<Rightarrow> int \<Rightarrow> mgr \<Rightarrow> (bool \<times> mgr) res" where
  "cmt_tcp_validseq sid cur_ts tcph opts sq plen m =
     andThen (check_timestamp sid cur_ts tcph opts m) (\<lambda>r.
     case r of
       None \<Rightarrow> Inr (False, m)
     | Some m \<Rightarrow>
         let s = streams m sid in
         if \<not> TCP_SEQ_BETWEEN (sq + word_of_int plen) (rcv_nxt s) (rcv_nxt s + rcv_wnd (rcvvar s)) then
           (if rst tcph then Inr (False, m)
            else if state s = CMT_TCP_ESTABLISHED then
              (if sq + 1 = rcv_nxt s then Inr (False, cmt_tcp_enqueue_acklist sid ACK_OPT_AGGREGATE m)
               else if TCP_SEQ_LEQ sq (rcv_nxt s)
               then Inr (False, cmt_tcp_enqueue_acklist sid ACK_OPT_AGGREGATE m)
               else Inr (False, cmt_tcp_enqueue_acklist sid ACK_OPT_NOW m))
            else
              let m = (if state s = CMT_TCP_TIME_WAIT then add_to_timewait_list sid cur_ts m else m)
              in Inr (False, cmt_tcp_addto_controllist sid m))
         else Inr (True, m))"

subsection \<open>Payload and resets\<close>

text \<open>The call that tells the application there is data, unless its socket does not block.\<close>

definition flush_read :: "env \<Rightarrow> nat \<Rightarrow> mgr \<Rightarrow> mgr" where
  "flush_read E sid m =
     (case sock (streams m sid) of
        Some opts \<Rightarrow> if opts AND CMT_TCP_NONBLOCK = 0 then upd_rcv sid (e_flush E) m else m
      | None \<Rightarrow> m)"

definition cmt_tcp_process_payload ::
  "env \<Rightarrow> nat \<Rightarrow> u8 list \<Rightarrow> u32 \<Rightarrow> int \<Rightarrow> mgr \<Rightarrow> (int \<times> mgr) res" where
  "cmt_tcp_process_payload E sid payload sq plen m =
     (let s = streams m sid; last = sq + word_of_int plen in
      if TCP_SEQ_LT last (rcv_nxt s) then Inr (0, m)
      else if TCP_SEQ_GT last (rcv_nxt s + rcv_wnd (rcvvar s)) then Inr (0, m)
      else
        let m = (if rcvbuf (rcvvar s) = None
                 then upd_rcv sid (\<lambda>r. r\<lparr>rcvbuf := e_rcvbuf_get E m (irs r + 1)\<rparr>) m else m) in
        case rcvbuf (rcvvar (streams m sid)) of
          None \<Rightarrow> Inr (- 1, set_reason sid TCP_NO_MEM (set_state sid CMT_TCP_CLOSE m))
        | Some b \<Rightarrow>
            andThen (e_recv_put E b payload (word_of_int plen) sq) (\<lambda>(_, b).
            andThen (if state s = CMT_TCP_FIN_WAIT_1 \<or> state s = CMT_TCP_FIN_WAIT_2
                     then e_recv_remove E b (rb_cum_len b) else Inr (0, b)) (\<lambda>(_, b).
            let m = upd sid (\<lambda>s. s\<lparr>rcv_nxt := rb_head_seq b + ucast (rb_cum_len b),
                   rcvvar := (rcvvar s)\<lparr>rcvbuf := Some b,
                     rcv_wnd := word_of_int (rb_chunk_size b) - ucast (rb_cum_len b)\<rparr>\<rparr>) m
            in Inr (1, if state s = CMT_TCP_ESTABLISHED then flush_read E sid m else m))))"

definition cmt_tcp_process_rst :: "nat \<Rightarrow> u32 \<Rightarrow> mgr \<Rightarrow> int \<times> mgr" where
  "cmt_tcp_process_rst sid ackno m =
     (let s = streams m sid in
      if state s \<le> CMT_TCP_SYN_SENT then (0, m)
      else if state s = CMT_TCP_SYN_RCVD then
        (1, if ackno = snd_nxt s
            then stream_destroy sid (set_reason sid TCP_RESET (set_state sid CMT_TCP_CLOSE m)) else m)
      else if state s \<in> {CMT_TCP_FIN_WAIT_1, CMT_TCP_FIN_WAIT_2, CMT_TCP_LAST_ACK,
                         CMT_TCP_FIN_CLOSING, CMT_TCP_TIME_WAIT}
      then (1, stream_destroy sid (set_reason sid TCP_ACTIVE_CLOSE (set_state sid CMT_TCP_CLOSE m)))
      else
        (1, if \<not> (on_closeq (sndvar s) \<or> on_closeq_int (sndvar s) \<or> on_resetq (sndvar s) \<or> on_resetq_int (sndvar s))
            then set_reason sid TCP_RESET (set_state sid CMT_TCP_CLOSE_WAIT m) else m))"

text \<open>
  The text the handlers of the data states share: acknowledge what \<open>process_payload\<close> took,
  and process the acknowledgement when there is a send buffer.
\<close>

definition take_payload :: "env \<Rightarrow> nat \<Rightarrow> u8 list \<Rightarrow> u32 \<Rightarrow> int \<Rightarrow> mgr \<Rightarrow> mgr res" where
  "take_payload E sid payload sq plen m =
     (if plen > 0 then
        andThen (cmt_tcp_process_payload E sid payload sq plen m) (\<lambda>(r, m).
        Inr (cmt_tcp_enqueue_acklist sid (if r \<noteq> 0 then ACK_OPT_AGGREGATE else ACK_OPT_NOW) m))
      else Inr m)"

definition ack_if_buffered :: "nat \<Rightarrow> u32 \<Rightarrow> tcphdr \<Rightarrow> u32 \<Rightarrow> u32 \<Rightarrow> u16 \<Rightarrow> int \<Rightarrow> mgr \<Rightarrow> mgr res" where
  "ack_if_buffered sid cur_ts tcph sq ackno wnd plen m =
     (if sndbuf (sndvar (streams m sid)) \<noteq> None
      then cmt_tcp_process_ack sid cur_ts tcph sq ackno wnd plen m else Inr m)"

subsection \<open>Handlers of the opening states\<close>

definition cmt_tcp_handle_listen :: "nat \<Rightarrow> tcphdr \<Rightarrow> mgr \<Rightarrow> mgr res" where
  "cmt_tcp_handle_listen sid tcph m =
     (if syn tcph then
        let m = (if state (streams m sid) = CMT_TCP_LISTEN
                 then upd sid (\<lambda>s. s\<lparr>rcv_nxt := rcv_nxt s + 1\<rparr>) m else m)
        in Inr (cmt_tcp_addto_controllist sid (set_state sid CMT_TCP_SYN_RCVD m))
      else Inl AssertFailed)"

definition syn_sent_established :: "nat \<Rightarrow> iphdr \<Rightarrow> tcphdr \<Rightarrow> u32 \<Rightarrow> int \<Rightarrow> mgr \<Rightarrow> mgr res" where
  "syn_sent_established sid iph tcph sq plen m =
     (let m = upd sid (\<lambda>s. s\<lparr>sndvar := (sndvar s)\<lparr>nrtx := 0\<rparr>, rcv_nxt := irs (rcvvar s) + 1\<rparr>) m;
          m = set_state sid CMT_TCP_ESTABLISHED (remove_from_rto_list sid m);
          m = (if sock (streams m sid) \<noteq> None then m
               else stream_destroy sid (set_reason sid TCP_ACTIVE_CLOSE
                 (cmt_tcppkt_alone (ip_src iph) (dest tcph) (ip_dst iph) (source tcph)
                    0 (sq + word_of_int plen + 1) (CMT_TCPHDR_RST OR CMT_TCPHDR_ACK) m)))
      in add_to_timeout_list sid (cmt_tcp_addto_controllist sid m))"

definition cmt_tcp_handle_syn_sent ::
  "env \<Rightarrow> nat \<Rightarrow> u32 \<Rightarrow> iphdr \<Rightarrow> tcphdr \<Rightarrow> u8 list \<Rightarrow> u32 \<Rightarrow> u32 \<Rightarrow> int \<Rightarrow> u16 \<Rightarrow> mgr \<Rightarrow> mgr res" where
  "cmt_tcp_handle_syn_sent E sid cur_ts iph tcph opts sq ackno plen wnd m =
     (if ack tcph \<and> (TCP_SEQ_LEQ ackno (iss (sndvar (streams m sid))) \<or> TCP_SEQ_GT ackno (snd_nxt (streams m sid)))
      then Inr (if \<not> rst tcph
                then cmt_tcppkt_alone (ip_dst iph) (dest tcph) (ip_src iph) (source tcph) ackno 0 CMT_TCPHDR_RST m
                else m)
      else
        let m = (if ack tcph then upd_snd sid (\<lambda>v. v\<lparr>snd_una := snd_una v + 1\<rparr>) m else m) in
        if rst tcph \<and> ack tcph then
          let m = set_reason sid TCP_RESET (set_state sid CMT_TCP_CLOSE_WAIT m)
          in Inr (if sock (streams m sid) \<noteq> None then m else stream_destroy sid m)
        else if syn tcph \<and> ack tcph then
          andThen (cmt_tcp_active_open E sid cur_ts tcph opts sq ackno wnd m)
            (syn_sent_established sid iph tcph sq plen)
        else
          Inr (cmt_tcp_addto_controllist sid
            (upd sid (\<lambda>s. s\<lparr>state := CMT_TCP_SYN_RCVD, snd_nxt := iss (sndvar s)\<rparr>) m)))"

text \<open>
  The accept step: the listener is looked up and used without a test for null; a full accept
  queue closes the stream again.
\<close>

definition syn_rcvd_accept :: "env \<Rightarrow> nat \<Rightarrow> tcphdr \<Rightarrow> mgr \<Rightarrow> mgr res" where
  "syn_rcvd_accept E sid tcph m =
     (case listen_ht_search (\<lambda>l. l_port (lsnrs m l)) (listen_table m) (dest tcph) of
        None \<Rightarrow> Inl NullDeref
      | Some l \<Rightarrow>
          andThen (stream_enqueue (e_next_index E) (acceptq (lsnrs m l)) sid) (\<lambda>(ret, q).
          let m = m\<lparr>lsnrs := (lsnrs m)(l := (lsnrs m l)\<lparr>acceptq := q\<rparr>)\<rparr>;
              m = (if ret < 0
                   then cmt_tcp_addto_controllist sid
                     (upd sid (\<lambda>s. s\<lparr>close_reason := TCP_NOT_ACCEPTED, state := CMT_TCP_CLOSE\<rparr>) m)
                   else m)
          in add_to_timeout_list sid m))"

definition cmt_tcp_handle_syn_rcvd :: "env \<Rightarrow> nat \<Rightarrow> tcphdr \<Rightarrow> u32 \<Rightarrow> mgr \<Rightarrow> mgr res" where
  "cmt_tcp_handle_syn_rcvd E sid tcph ackno m =
     (if ack tcph then
        if ackno \<noteq> iss (sndvar (streams m sid)) + 1 then Inl ProcessExit
        else
          let m = upd sid (\<lambda>s. s\<lparr>snd_nxt := ackno, rcv_nxt := irs (rcvvar s) + 1,
                sndvar := (sndvar s)\<lparr>snd_una := snd_una (sndvar s) + 1, nrtx := 0,
                  cwnd := (if cwnd (sndvar s) = 1 then ucast (mss (sndvar s)) * 2 else ucast (mss (sndvar s)))\<rparr>\<rparr>) m;
              m = set_state sid CMT_TCP_ESTABLISHED (remove_from_rto_list sid m)
          in syn_rcvd_accept E sid tcph m
      else
        Inr (cmt_tcp_addto_controllist sid (upd sid (\<lambda>s. s\<lparr>snd_nxt := iss (sndvar s)\<rparr>) m)))"

subsection \<open>Handlers of the data and closing states\<close>

text \<open>The FIN at the end of \<open>handle_established\<close>, \<open>endseq\<close> being the segment's end.\<close>

definition established_fin :: "env \<Rightarrow> nat \<Rightarrow> u32 \<Rightarrow> mgr \<Rightarrow> mgr" where
  "established_fin E sid endseq m =
     (if endseq = rcv_nxt (streams m sid)
      then flush_read E sid (cmt_tcp_addto_controllist sid
             (upd sid (\<lambda>s. s\<lparr>state := CMT_TCP_CLOSE_WAIT, rcv_nxt := rcv_nxt s + 1\<rparr>) m))
      else cmt_tcp_enqueue_acklist sid ACK_OPT_NOW m)"

definition cmt_tcp_handle_established ::
  "env \<Rightarrow> nat \<Rightarrow> u32 \<Rightarrow> tcphdr \<Rightarrow> u32 \<Rightarrow> u32 \<Rightarrow> u8 list \<Rightarrow> int \<Rightarrow> u16 \<Rightarrow> mgr \<Rightarrow> mgr res" where
  "cmt_tcp_handle_established E sid cur_ts tcph sq ackno payload plen wnd m =
     (if syn tcph
      then Inr (cmt_tcp_addto_controllist sid (upd sid (\<lambda>s. s\<lparr>snd_nxt := ackno\<rparr>) m))
      else
        andThen (take_payload E sid payload sq plen m) (\<lambda>m.
        andThen (if ack tcph then ack_if_buffered sid cur_ts tcph sq ackno wnd plen m else Inr m) (\<lambda>m.
        Inr (if fin tcph then established_fin E sid (sq + word_of_int plen) m else m))))"

definition cmt_tcp_handle_last_ack ::
  "nat \<Rightarrow> u32 \<Rightarrow> tcphdr \<Rightarrow> u32 \<Rightarrow> u32 \<Rightarrow> int \<Rightarrow> u16 \<Rightarrow> mgr \<Rightarrow> mgr res" where
  "cmt_tcp_handle_last_ack sid cur_ts tcph sq ackno plen wnd m =
     (if TCP_SEQ_LT sq (rcv_nxt (streams m sid)) then Inr m
      else if ack tcph then
        andThen (ack_if_buffered sid cur_ts tcph sq ackno wnd plen m) (\<lambda>m.
        if \<not> is_fin_sent (sndvar (streams m sid)) then Inr m
        else if ackno = fss (sndvar (streams m sid)) + 1 then
          andThen (update_retransmission_timer sid cur_ts
                     (upd_snd sid (\<lambda>v. v\<lparr>snd_una := snd_una v + 1\<rparr>) m)) (\<lambda>m.
          Inr (stream_destroy sid (set_reason sid TCP_PASSIVE_CLOSE (set_state sid CMT_TCP_CLOSE m))))
        else Inr (cmt_tcp_addto_controllist sid m))
      else Inr (cmt_tcp_addto_controllist sid m))"

text \<open>The acknowledgement of the FIN in \<open>handle_fin_wait_1\<close>.\<close>

definition fin_wait_1_acked :: "nat \<Rightarrow> u32 \<Rightarrow> mgr \<Rightarrow> mgr" where
  "fin_wait_1_acked sid ackno m =
     (if is_fin_sent (sndvar (streams m sid)) \<and> ackno = fss (sndvar (streams m sid)) + 1 then
        let m = upd_snd sid (\<lambda>v. v\<lparr>snd_una := ackno\<rparr>) m;
            m = (if TCP_SEQ_GT ackno (snd_nxt (streams m sid)) then upd sid (\<lambda>s. s\<lparr>snd_nxt := ackno\<rparr>) m else m)
        in set_state sid CMT_TCP_FIN_WAIT_2 (remove_from_rto_list sid (upd_snd sid (\<lambda>v. v\<lparr>nrtx := 0\<rparr>) m))
      else m)"

definition fin_wait_1_fin :: "nat \<Rightarrow> u32 \<Rightarrow> u32 \<Rightarrow> mgr \<Rightarrow> mgr res" where
  "fin_wait_1_fin sid cur_ts endseq m =
     (if endseq = rcv_nxt (streams m sid) then
        let m = upd sid (\<lambda>s. s\<lparr>rcv_nxt := rcv_nxt s + 1\<rparr>) m in
        if state (streams m sid) = CMT_TCP_FIN_WAIT_1
        then Inr (cmt_tcp_addto_controllist sid (set_state sid CMT_TCP_FIN_CLOSING m))
        else if state (streams m sid) = CMT_TCP_FIN_WAIT_2
        then Inr (cmt_tcp_addto_controllist sid
               (add_to_timewait_list sid cur_ts (set_state sid CMT_TCP_TIME_WAIT m)))
        else Inl AssertFailed
      else Inr m)"

definition cmt_tcp_handle_fin_wait_1 ::
  "env \<Rightarrow> nat \<Rightarrow> u32 \<Rightarrow> tcphdr \<Rightarrow> u32 \<Rightarrow> u32 \<Rightarrow> u8 list \<Rightarrow> int \<Rightarrow> u16 \<Rightarrow> mgr \<Rightarrow> mgr res" where
  "cmt_tcp_handle_fin_wait_1 E sid cur_ts tcph sq ackno payload plen wnd m =
     (if TCP_SEQ_LT sq (rcv_nxt (streams m sid)) then Inr (cmt_tcp_addto_controllist sid m)
      else if \<not> ack tcph then Inr m
      else
        andThen (ack_if_buffered sid cur_ts tcph sq ackno wnd plen m) (\<lambda>m.
        andThen (take_payload E sid payload sq plen (fin_wait_1_acked sid ackno m)) (\<lambda>m.
        if fin tcph then fin_wait_1_fin sid cur_ts (sq + word_of_int plen) m else Inr m)))"

definition fin_wait_2_fin :: "nat \<Rightarrow> u32 \<Rightarrow> u32 \<Rightarrow> mgr \<Rightarrow> mgr" where
  "fin_wait_2_fin sid cur_ts endseq m =
     (if endseq = rcv_nxt (streams m sid)
      then cmt_tcp_addto_controllist sid (add_to_timewait_list sid cur_ts
             (upd sid (\<lambda>s. s\<lparr>state := CMT_TCP_TIME_WAIT, rcv_nxt := rcv_nxt s + 1\<rparr>) m))
      else m)"

definition cmt_tcp_handle_fin_wait_2 ::
  "env \<Rightarrow> nat \<Rightarrow> u32 \<Rightarrow> tcphdr \<Rightarrow> u32 \<Rightarrow> u32 \<Rightarrow> u8 list \<Rightarrow> int \<Rightarrow> u16 \<Rightarrow> mgr \<Rightarrow> mgr res" where
  "cmt_tcp_handle_fin_wait_2 E sid cur_ts tcph sq ackno payload plen wnd m =
     (if \<not> ack tcph then Inr m
      else
        andThen (ack_if_buffered sid cur_ts tcph sq ackno wnd plen m) (\<lambda>m.
        andThen (take_payload E sid payload sq plen m) (\<lambda>m.
        Inr (if fin tcph then fin_wait_2_fin sid cur_ts (sq + word_of_int plen) m else m))))"

definition cmt_tcp_handle_closing ::
  "nat \<Rightarrow> u32 \<Rightarrow> tcphdr \<Rightarrow> u32 \<Rightarrow> u32 \<Rightarrow> int \<Rightarrow> u16 \<Rightarrow> mgr \<Rightarrow> mgr res" where
  "cmt_tcp_handle_closing sid cur_ts tcph sq ackno plen wnd m =
     (if \<not> ack tcph then Inr m
      else
        andThen (ack_if_buffered sid cur_ts tcph sq ackno wnd plen m) (\<lambda>m.
        if \<not> is_fin_sent (sndvar (streams m sid)) then Inr m
        else if ackno \<noteq> fss (sndvar (streams m sid)) + 1 then Inr m
        else
          andThen (update_retransmission_timer sid cur_ts
            (upd sid (\<lambda>s. s\<lparr>snd_nxt := ackno, sndvar := (sndvar s)\<lparr>snd_una := ackno\<rparr>\<rparr>) m)) (\<lambda>m.
          Inr (add_to_timewait_list sid cur_ts (set_state sid CMT_TCP_TIME_WAIT m)))))"

definition handle_time_wait :: "nat \<Rightarrow> u32 \<Rightarrow> mgr \<Rightarrow> mgr res" where
  "handle_time_wait sid cur_ts m =
     andThen (if on_timewait_list (streams m sid)
              then andThen (remove_from_timewait_list sid m) (\<lambda>m. Inr (add_to_timewait_list sid cur_ts m))
              else Inr m) (\<lambda>m.
     Inr (cmt_tcp_addto_controllist sid m))"

subsection \<open>Input\<close>

text \<open>
  A segment as it is handed to \<open>cmt_tcp_process\<close>: the IP header fields and the bytes from the
  TCP header to the end of the packet. The header is read from the bytes as the packed struct of
  \<open>include/tcp.h\<close> is laid out on a little-endian host.
\<close>

definition le16 :: "u8 list \<Rightarrow> nat \<Rightarrow> u16" where
  "le16 bs i = ucast (bs ! i) + 256 * ucast (bs ! (i + 1))"

definition le32 :: "u8 list \<Rightarrow> nat \<Rightarrow> u32" where
  "le32 bs i = ucast (bs ! i) OR push_bit 8 (ucast (bs ! (i + 1))) OR
               push_bit 16 (ucast (bs ! (i + 2))) OR push_bit 24 (ucast (bs ! (i + 3)))"

definition tcp_header :: "u8 list \<Rightarrow> tcphdr res" where
  "tcp_header bs =
     (if length bs < 20 then Inl OutOfBounds
      else Inr \<lparr>source = le16 bs 0, dest = le16 bs 2, seq = le32 bs 4, ack_seq = le32 bs 8,
                doff = unat (drop_bit 4 (bs ! 12)),
                fin = bit (bs ! 13) 0, syn = bit (bs ! 13) 1, rst = bit (bs ! 13) 2,
                psh = bit (bs ! 13) 3, ack = bit (bs ! 13) 4, urg = bit (bs ! 13) 5,
                window = le16 bs 14, check = le16 bs 16\<rparr>)"

text \<open>Milliseconds from a \<open>timeval\<close>: \<open>HZ\<close> is 1000, \<open>TIME_TICK\<close> 1000.\<close>

definition TIMEVAL_TO_TS :: "int \<times> int \<Rightarrow> u32" where
  "TIMEVAL_TO_TS tv = word_of_int (fst tv * 1000 + snd tv div 1000)"

text \<open>The switch over the state.\<close>

definition dispatch ::
  "env \<Rightarrow> nat \<Rightarrow> u32 \<Rightarrow> iphdr \<Rightarrow> tcphdr \<Rightarrow> u8 list \<Rightarrow> u32 \<Rightarrow> u32 \<Rightarrow> u8 list \<Rightarrow> int \<Rightarrow> u16 \<Rightarrow> mgr \<Rightarrow> mgr res" where
  "dispatch E sid ts iph tcph opts sq ackno payload plen wnd m =
     (case state (streams m sid) of
        CMT_TCP_LISTEN \<Rightarrow> cmt_tcp_handle_listen sid tcph m
      | CMT_TCP_SYN_SENT \<Rightarrow> cmt_tcp_handle_syn_sent E sid ts iph tcph opts sq ackno plen wnd m
      | CMT_TCP_SYN_RCVD \<Rightarrow>
          (if syn tcph \<and> sq = irs (rcvvar (streams m sid)) then cmt_tcp_handle_listen sid tcph m
           else
             andThen (cmt_tcp_handle_syn_rcvd E sid tcph ackno m) (\<lambda>m.
             if plen > 0 \<and> state (streams m sid) = CMT_TCP_ESTABLISHED
             then cmt_tcp_handle_established E sid ts tcph sq ackno payload plen wnd m else Inr m))
      | CMT_TCP_ESTABLISHED \<Rightarrow> cmt_tcp_handle_established E sid ts tcph sq ackno payload plen wnd m
      | CMT_TCP_CLOSE_WAIT \<Rightarrow> e_close_wait E sid ts tcph sq ackno plen wnd m
      | CMT_TCP_LAST_ACK \<Rightarrow> cmt_tcp_handle_last_ack sid ts tcph sq ackno plen wnd m
      | CMT_TCP_FIN_WAIT_1 \<Rightarrow> cmt_tcp_handle_fin_wait_1 E sid ts tcph sq ackno payload plen wnd m
      | CMT_TCP_FIN_WAIT_2 \<Rightarrow> cmt_tcp_handle_fin_wait_2 E sid ts tcph sq ackno payload plen wnd m
      | CMT_TCP_FIN_CLOSING \<Rightarrow> cmt_tcp_handle_closing sid ts tcph sq ackno plen wnd m
      | CMT_TCP_TIME_WAIT \<Rightarrow> handle_time_wait sid ts m
      | CMT_TCP_CLOSE \<Rightarrow> Inr m)"

text \<open>The window, the activity mark and the reset mark of a stream that got a valid segment.\<close>

definition refreshed :: "nat \<Rightarrow> u32 \<Rightarrow> u32 \<Rightarrow> tcphdr \<Rightarrow> mgr \<Rightarrow> mgr" where
  "refreshed sid ts w tcph m =
     (let m = update_timeout_list sid
            (upd sid (\<lambda>s. s\<lparr>sndvar := (sndvar s)\<lparr>peer_wnd := w\<rparr>, last_active_ts := ts\<rparr>) m)
      in if rst tcph then upd sid (\<lambda>s. s\<lparr>have_reset := True\<rparr>) m else m)"

text \<open>What happens to a segment once its stream is known.\<close>

definition process_segment ::
  "env \<Rightarrow> nat \<Rightarrow> u32 \<Rightarrow> iphdr \<Rightarrow> tcphdr \<Rightarrow> u8 list \<Rightarrow> u32 \<Rightarrow> u32 \<Rightarrow> u8 list \<Rightarrow> int \<Rightarrow> u16 \<Rightarrow> mgr \<Rightarrow> (int \<times> mgr) res" where
  "process_segment E sid ts iph tcph opts sq ackno payload plen wnd m =
     andThen (if state (streams m sid) > CMT_TCP_SYN_RCVD
              then cmt_tcp_validseq sid ts tcph opts sq plen m else Inr (True, m)) (\<lambda>(valid, m).
     if \<not> valid then Inr (1, m)
     else
       andThen (if syn tcph then Inr (ucast wnd)
                else c_shl (ucast wnd) (unat (wscale_peer (sndvar (streams m sid))))) (\<lambda>w.
       let m = refreshed sid ts w tcph m;
           (r, m) = (if rst tcph \<and> state (streams m sid) > CMT_TCP_SYN_SENT
                     then cmt_tcp_process_rst sid ackno m else (0, m))
       in if r \<noteq> 0 then Inr (1, m)
          else andThen (dispatch E sid ts iph tcph opts sq ackno payload plen wnd m) (\<lambda>m. Inr (1, m))))"

definition cmt_tcp_process :: "env \<Rightarrow> iphdr \<Rightarrow> u8 list \<Rightarrow> mgr \<Rightarrow> (int \<times> mgr) res" where
  "cmt_tcp_process E iph bs m =
     (if 4 * ihl iph \<noteq> 20 then Inl AssertFailed
      else
        andThen (tcp_header bs) (\<lambda>tcph.
        let tcp_len = int (unat (ntohs (tot_len iph))) - int (4 * ihl iph);
            plen = tcp_len - int (4 * doff tcph);
            payload = drop (4 * doff tcph) bs;
            opts = drop 20 bs in
        andThen (cmt_tcp_calculate_checksum (e_proto E) bs (word_of_int tcp_len) (ip_src iph) (ip_dst iph)) (\<lambda>ck.
        if ck \<noteq> 0 then Inr (- 1, m)
        else
          let key = \<lparr>saddr = ip_dst iph, daddr = ip_src iph, sport = dest tcph, dport = source tcph\<rparr>;
              ts = TIMEVAL_TO_TS (e_timeval E);
              sq = ntohl (seq tcph); ackno = ntohl (ack_seq tcph); wnd = ntohs (window tcph) in
          andThen (stream_ht_search (streams m) (e_head E m key) key) (\<lambda>found.
          andThen (case found of
                     Some sid \<Rightarrow> Inr (Some sid, m)
                   | None \<Rightarrow> cmt_create_stream E ts iph tcph opts sq ackno plen wnd m) (\<lambda>(r, m).
          case r of
            None \<Rightarrow> Inr (- 2, m)
          | Some sid \<Rightarrow> process_segment E sid ts iph tcph opts sq ackno payload plen wnd m)))))"

end
