(* ===== verification/Tcp_Ack_Facts.thy ===== *)
theory Tcp_Ack_Facts
  imports Tcp_Ack
begin

text \<open>
  What \<open>cmt_tcp_process_ack\<close> does: the data it releases, the congestion window it leaves, when
  it retransmits, and the inputs on which it divides by zero.
\<close>

subsection \<open>Fields the stages keep\<close>

lemma ack_window_keeps [simp]:
  "snd_nxt (ack_window sq a w s) = snd_nxt s" "state (ack_window sq a w s) = state s"
  "sndbuf (sndvar (ack_window sq a w s)) = sndbuf (sndvar s)"
  "snd_una (sndvar (ack_window sq a w s)) = snd_una (sndvar s)"
  "cwnd (sndvar (ack_window sq a w s)) = cwnd (sndvar s)"
  "ssthresh (sndvar (ack_window sq a w s)) = ssthresh (sndvar s)"
  "mss (sndvar (ack_window sq a w s)) = mss (sndvar s)"
  "eff_mss (sndvar (ack_window sq a w s)) = eff_mss (sndvar s)"
  "last_ack_seq (rcvvar (ack_window sq a w s)) = last_ack_seq (rcvvar s)"
  "dup_acks (rcvvar (ack_window sq a w s)) = dup_acks (rcvvar s)"
  "saw_timestamp (ack_window sq a w s) = saw_timestamp s"
  "rto (sndvar (ack_window sq a w s)) = rto (sndvar s)"
  by (simp_all add: ack_window_def Let_def)

lemma ack_dup_count_keeps [simp]:
  "snd_nxt (ack_dup_count d a s) = snd_nxt s" "state (ack_dup_count d a s) = state s"
  "sndvar (ack_dup_count d a s) = sndvar s" "saw_timestamp (ack_dup_count d a s) = saw_timestamp s"
  by (simp_all add: ack_dup_count_def)

lemma fast_retransmit_keeps [simp]:
  "sndbuf (sndvar (fast_retransmit a s)) = sndbuf (sndvar s)" "state (fast_retransmit a s) = state s"
  "snd_una (sndvar (fast_retransmit a s)) = snd_una (sndvar s)"
  by (simp_all add: fast_retransmit_def Let_def)

lemma dup_inflate_keeps [simp]:
  "sndbuf (sndvar (dup_inflate s)) = sndbuf (sndvar s)" "state (dup_inflate s) = state s"
  "snd_una (sndvar (dup_inflate s)) = snd_una (sndvar s)"
  by (simp_all add: dup_inflate_def Let_def)

lemma dup_action_keeps:
  assumes "ack_dup_action s a d m = Inr k"
  shows "sndbuf (sndvar (streams k s)) = sndbuf (sndvar (streams m s))"
    "snd_una (sndvar (streams k s)) = snd_una (sndvar (streams m s))"
    "state (streams k s) = state (streams m s)"
  using assms
  by (auto simp: ack_dup_action_def Let_def split: if_splits dest!: streams_addto_sendlist)

lemma advance_keeps [simp]:
  "sndbuf (sndvar (streams (ack_advance s a buf m) s)) = sndbuf (sndvar (streams m s))"
  "snd_una (sndvar (streams (ack_advance s a buf m) s)) = snd_una (sndvar (streams m s))"
  "state (streams (ack_advance s a buf m) s) = state (streams m s)"
  "cwnd (sndvar (streams (ack_advance s a buf m) s)) = cwnd (sndvar (streams m s))"
  "ssthresh (sndvar (streams (ack_advance s a buf m) s)) = ssthresh (sndvar (streams m s))"
  "mss (sndvar (streams (ack_advance s a buf m) s)) = mss (sndvar (streams m s))"
  "eff_mss (sndvar (streams (ack_advance s a buf m) s)) = eff_mss (sndvar (streams m s))"
  by (simp_all add: ack_advance_def Let_def)

lemma estimate_keeps [simp]:
  "sndvar (streams (cmt_tcp_estimate_rtt s t m) s) = sndvar (streams m s)"
  "state (streams (cmt_tcp_estimate_rtt s t m) s) = state (streams m s)"
  by (simp_all add: cmt_tcp_estimate_rtt_def Let_def)

lemma release_rtt_keeps:
  assumes "release_rtt s ts m = Inr k"
  shows "sndbuf (sndvar (streams k s)) = sndbuf (sndvar (streams m s))"
    "snd_una (sndvar (streams k s)) = snd_una (sndvar (streams m s))"
    "state (streams k s) = state (streams m s)" "cwnd (sndvar (streams k s)) = cwnd (sndvar (streams m s))"
    "ssthresh (sndvar (streams k s)) = ssthresh (sndvar (streams m s))"
    "mss (sndvar (streams k s)) = mss (sndvar (streams m s))"
  using assms by (auto simp: release_rtt_def Let_def split: if_splits)

lemma grow_keeps:
  assumes "grow_cwnd p s = Inr s2"
  shows "sndbuf (sndvar s2) = sndbuf (sndvar s)" "snd_una (sndvar s2) = snd_una (sndvar s)" "state s2 = state s"
  using assms by (auto simp: grow_cwnd_def Let_def andThen_Inr_iff split: if_splits)

lemma rtx_timer_keeps:
  assumes "update_retransmission_timer s ts m = Inr k"
  shows "sndbuf (sndvar (streams k s)) = sndbuf (sndvar (streams m s))"
    "snd_una (sndvar (streams k s)) = snd_una (sndvar (streams m s))"
    "cwnd (sndvar (streams k s)) = cwnd (sndvar (streams m s))"
    "state (streams k s) = state (streams m s)"
  using assms by (auto simp: update_retransmission_timer_def Let_def split: if_splits)

subsection \<open>Released data\<close>

text \<open>
  Send buffer and first unacknowledged byte agree: the buffer starts at \<open>snd_una\<close>. The size
  is bounded by half the sequence space, since the code converts lengths to signed integers.
\<close>

definition una_ok :: "tcp_stream \<Rightarrow> bool" where
  "una_ok s \<longleftrightarrow> (\<exists>b. sndbuf (sndvar s) = Some b \<and> sb_inv b \<and> unat (sb_size b) < 2147483648 \<and>
     snd_una (sndvar s) = sb_head_seq b)"

text \<open>How many bytes an acknowledgement frees.\<close>

definition acked_bytes :: "send_buffer \<Rightarrow> u32 \<Rightarrow> nat" where
  "acked_bytes b a =
     (if TCP_SEQ_GT a (sb_end b) \<or> TCP_SEQ_GEQ (sb_head_seq b) a then 0
      else min (unat (a - sb_head_seq b)) (unat (sb_len b)))"

lemma acked_exact:
  assumes "\<not> TCP_SEQ_GT a (sb_end b)" "\<not> TCP_SEQ_GEQ (sb_head_seq b) a" "unat (sb_len b) < 2147483648"
    and "sb_len b \<noteq> 0"
  shows "0 < unat (a - sb_head_seq b)" "unat (a - sb_head_seq b) \<le> unat (sb_len b)"
proof -
  define d where "d = a - sb_head_seq b"
  have ne: "a \<noteq> sb_head_seq b" using assms(2) by (auto simp: seq_iffs)
  then have "d \<noteq> 0" by (simp add: d_def)
  then show pos: "0 < unat (a - sb_head_seq b)" by (simp add: d_def unat_gt_0)
  have "\<not> unat (sb_head_seq b - a) < 2147483648" using assms(2) by (simp add: seq_iffs)
  with unat_flip [OF ne] unat_u32_less [of d] have d31: "unat d \<le> 2147483648" by (simp add: d_def)
  have e: "a - sb_end b = d - sb_len b" by (simp add: d_def sb_end_def)
  show "unat (a - sb_head_seq b) \<le> unat (sb_len b)"
  proof (rule ccontr)
    assume "\<not> ?thesis"
    then have gt: "unat (sb_len b) < unat d" by (simp add: d_def)
    then have "unat (d - sb_len b) = unat d - unat (sb_len b)" by (simp add: unat_sub_no_wrap)
    moreover have "0 < unat (sb_len b)" using assms(4) by (simp add: unat_gt_0)
    ultimately have "unat (a - sb_end b) < 2147483648" using d31 e by simp
    moreover have "a \<noteq> sb_end b" using gt by (auto simp: sb_end_def d_def)
    ultimately show False using assms(1) by (simp add: seq_iffs)
  qed
qed

lemma release_remove_data:
  assumes "release_remove s ts a r buf m = Inr m'" "sb_inv buf" "unat (sb_size buf) < 2147483648"
    and "r \<noteq> 0" "snd_una (sndvar (streams m s)) = sb_head_seq buf"
    and "a = sb_head_seq buf + r" "unat r \<le> unat (sb_len buf) \<or> sb_len buf = 0"
  shows "\<exists>b'. sndbuf (sndvar (streams m' s)) = Some b' \<and> sb_inv b' \<and> sb_size b' = sb_size buf \<and>
    sb_contents b' = drop (min (unat r) (unat (sb_len buf))) (sb_contents buf) \<and>
    snd_una (sndvar (streams m' s)) = sb_head_seq b' \<and> sb_end b' = sb_end buf"
proof -
  define n where "n = min (unat r) (unat (sb_len buf))"
  have n: "sb_taken buf (ucast r) = n" by (simp add: sb_taken_def n_def)
  have len: "unat (sb_len buf) \<le> unat (sb_size buf)" using assms(2) by (auto simp: sb_inv_def)
  have r0: "(ucast r :: u64) \<noteq> 0" using assms(4) by (metis unat_0 unat_eq_zero unat_ucast_u32_u64)
  from SBRemove_spec [OF assms(2), of "ucast r"] n r0 obtain b' where b':
    "SBRemove buf (ucast r) = (if n = 0 then - 2 else of_nat n, b')" "sb_inv b'"
    "sb_contents b' = drop n (sb_contents buf)" "sb_size b' = sb_size buf"
    "sb_head_seq b' = sb_head_seq buf + of_nat n" "sb_end b' = sb_end buf"
    by (auto simp: sb_end_def)
  have n31: "n < 2147483648" using len assms(3) by (simp add: n_def)
  show ?thesis
  proof (cases "n = 0")
    case True
    have "sint (ucast (- 2 :: u64) :: u32) \<le> 0" by simp
    then show ?thesis
      using assms(1,5) b' True by (auto simp: release_remove_def Let_def n_def [symmetric])
  next
    case False
    have "unat (of_nat n :: u32) = n" using n31 by (simp add: unat_of_nat)
    then have u: "uint (of_nat n :: u32) = int n" by (metis uint_nat)
    have "(ucast (of_nat n :: u64) :: u32) = of_nat n"
      using n31 by (simp add: word_unat_eq_iff unat_ucast_u64_u32 unat_of_nat)
    then have "sint (ucast (of_nat n :: u64) :: u32) = int n"
      using n31 u by (simp only: sint_u32) simp
    with False have pos: "\<not> sint (ucast (of_nat n :: u64) :: u32) \<le> 0" by simp
    have "n = unat r" using False assms(7) by (auto simp: n_def)
    then have "a = sb_head_seq b'" using b'(5) assms(6) by simp
    moreover obtain k where "update_retransmission_timer s ts k = Inr m'"
      "sndbuf (sndvar (streams k s)) = Some b'" "snd_una (sndvar (streams k s)) = a"
      using assms(1) b'(1) False pos by (simp add: release_remove_def Let_def)
    ultimately show ?thesis using b' rtx_timer_keeps [of s ts k m'] by (auto simp: n_def [symmetric])
  qed
qed

text \<open>An acknowledgement of new data, which resets the count of duplicates.\<close>

lemma process_new:
  assumes "sndbuf (sndvar (streams m s)) = Some buf" "ack_cwindow h w (streams m s) = Inr cw"
    and "a' = adjust_fin_ack a (streams m s)" "\<not> TCP_SEQ_GT a' (sb_end buf)"
    and "\<not> TCP_SEQ_GEQ (sb_head_seq buf) a'" "a' \<noteq> last_ack_seq (rcvvar (streams m s)) \<or> p \<noteq> 0"
  shows "cmt_tcp_process_ack s ts h sq a w p m =
    ack_release s ts a' buf (ack_advance s a' buf
      (upd s (\<lambda>_. ack_dup_count False a' (ack_window sq a' cw (streams m s))) m))"
proof -
  let ?s1 = "ack_dup_count False a' (ack_window sq a' cw (streams m s))"
  have "ack_front sq a' cw p (streams m s) = (False, ?s1)"
    using assms(6) by (auto simp: ack_front_def Let_def is_dup_def)
  moreover have "ack_dup_action s a' False (upd s (\<lambda>_. ?s1) m) = Inr (upd s (\<lambda>_. ?s1) m)"
    by (simp add: ack_dup_action_def Let_def ack_dup_count_def)
  ultimately show ?thesis using assms by (simp add: cmt_tcp_process_ack_def Let_def)
qed

subsection \<open>Properties\<close>

text \<open>
  C3: Accounting of acknowledged data. If the send buffer starts at the first unacknowledged
  byte, then after any segment whose acknowledgement is processed it still does; the bytes that
  left the buffer are exactly the acknowledged prefix, in order, never more than the buffer held,
  and the sequence number at its end has not moved. Acknowledgements outside the sent data
  release nothing.
\<close>

theorem process_ack_releases:
  assumes "una_ok (streams m s)" "cmt_tcp_process_ack s ts h sq a w p m = Inr m'"
    and "sndbuf (sndvar (streams m s)) = Some b" "n = acked_bytes b (adjust_fin_ack a (streams m s))"
  shows "una_ok (streams m' s) \<and> (\<exists>b'. sndbuf (sndvar (streams m' s)) = Some b' \<and>
    sb_contents b' = drop n (sb_contents b) \<and> sb_end b' = sb_end b \<and>
    sb_head_seq b' = sb_head_seq b + of_nat n)"
proof -
  define a' where "a' = adjust_fin_ack a (streams m s)"
  have b: "sb_inv b" "unat (sb_size b) < 2147483648" "snd_una (sndvar (streams m s)) = sb_head_seq b"
    using assms(1,3) by (auto simp: una_ok_def)
  have len: "unat (sb_len b) < 2147483648" using b by (auto simp: sb_inv_def)
  have keep: ?thesis if "n = 0" "sndbuf (sndvar (streams m' s)) = Some b"
    "snd_una (sndvar (streams m' s)) = sb_head_seq b"
    using that b by (auto simp: una_ok_def)
  show ?thesis using assms(2)
  proof (cases rule: process_ack_cases)
    case (invalid buf)
    then show ?thesis using keep assms(3,4) b by (simp add: acked_bytes_def)
  next
    case (valid cw buf d s1 k)
    have buf: "buf = b" using valid(2) assms(3) by simp
    have "snd (ack_front sq a' cw p (streams m s)) = s1" using valid(4) by (simp add: a'_def)
    then have s1: "sndbuf (sndvar s1) = Some b" "snd_una (sndvar s1) = sb_head_seq b"
      using assms(3) b(3) by (auto simp: ack_front_def Let_def)
    let ?k = "ack_advance s a' b k"
    have k: "sndbuf (sndvar (streams ?k s)) = Some b" "snd_una (sndvar (streams ?k s)) = sb_head_seq b"
      using dup_action_keeps [OF valid(5)] s1 by simp_all
    show ?thesis
    proof (cases "TCP_SEQ_GEQ (sb_head_seq b) a'")
      case True
      then have "m' = ?k" using valid(6) buf by (simp add: a'_def)
      then show ?thesis using keep k True assms(4) by (simp add: acked_bytes_def a'_def [symmetric])
    next
      case False
      then have rel: "ack_release s ts a' b ?k = Inr m'" using valid(6) buf by (simp add: a'_def)
      have n: "n = min (unat (a' - sb_head_seq b)) (unat (sb_len b))"
        using False valid(3) assms(4) buf by (simp add: acked_bytes_def a'_def [symmetric])
      show ?thesis using rel
      proof (cases rule: ack_release_cases)
        case empty
        then show ?thesis using False by (simp add: seq_iffs)
      next
        case (data q k2 s2)
        let ?k3 = "upd s (\<lambda>_. s2) k2"
        have k3: "snd_una (sndvar (streams ?k3 s)) = sb_head_seq b"
          using k release_rtt_keeps [OF data(3)] grow_keeps [OF data(4)] by simp
        have le: "unat (a' - sb_head_seq b) \<le> unat (sb_len b) \<or> sb_len b = 0"
          using acked_exact [OF _ False len] valid(3) buf by (auto simp: a'_def)
        from release_remove_data [OF data(5) b(1,2) _ k3 _ le] data(1) obtain b' where b':
          "sndbuf (sndvar (streams m' s)) = Some b'" "sb_inv b'" "sb_size b' = sb_size b"
          "sb_contents b' = drop n (sb_contents b)" "snd_una (sndvar (streams m' s)) = sb_head_seq b'"
          "sb_end b' = sb_end b" by (auto simp: n)
        have "length (sb_contents b') = unat (sb_len b) - n"
          using b'(4) length_sb_contents [OF b(1)] by simp
        then have "unat (sb_len b') = unat (sb_len b) - n" using length_sb_contents [OF b'(2)] by simp
        moreover have "n \<le> unat (sb_len b)" by (simp add: n)
        ultimately have "unat (sb_len b') + n = unat (sb_len b)" by simp
        then have "of_nat (unat (sb_len b') + n) = (of_nat (unat (sb_len b)) :: u32)" by simp
        then have "sb_len b' + of_nat n = sb_len b" by simp
        then have "sb_head_seq b' + sb_len b' = sb_head_seq b + (sb_len b' + of_nat n)"
          using b'(6) by (simp only: sb_end_def)
        then have "sb_head_seq b' + sb_len b' = (sb_head_seq b + of_nat n) + sb_len b'"
          by (simp only: ac_simps)
        then have "sb_head_seq b' = sb_head_seq b + of_nat n" by simp
        then show ?thesis using b' b(2) by (auto simp: una_ok_def)
      qed
    qed
  qed
qed

lemma unat_minus_one_u32 [simp]: "unat (- 1 :: u32) = 4294967295"
  by (simp add: unsigned_minus_1_eq_mask mask_eq_exp_minus_1)

text \<open>An established stream with three unacknowledged bytes from sequence number 500.\<close>

definition sent_buf :: send_buffer where
  "sent_buf = \<lparr>sb_data = [7, 8, 9, 0], sb_head = 0, head_off = 0, tail_off = 3, sb_len = 3,
     sb_cum_len = 3, sb_size = 4, sb_head_seq = 500, sb_init_seq = 500\<rparr>"

definition sent_stream :: tcp_stream where
  "sent_stream = blank_stream\<lparr>state := CMT_TCP_ESTABLISHED, snd_nxt := 503,
     sndvar := blank_send\<lparr>mss := 112, eff_mss := 100, rto := 10, cwnd := 100, ssthresh := 1000,
       peer_wnd := 1000, snd_una := 500, sndbuf := Some sent_buf\<rparr>\<rparr>"

definition sent_mgr :: mgr where
  "sent_mgr = with_stream 3 (\<lambda>_. sent_stream)"

definition ack_hdr :: tcphdr where
  "ack_hdr = \<lparr>source = 0, dest = 0, seq = 0, ack_seq = 0, doff = 5, fin = False, syn = False, rst = False,
     psh = False, ack = True, urg = False, window = 0, check = 0\<rparr>"

lemma sent_stream_at [simp]: "streams sent_mgr 3 = sent_stream"
  by (simp add: sent_mgr_def with_stream_def)

lemma sent_una_ok: "una_ok sent_stream"
  by (simp add: una_ok_def sent_stream_def sent_buf_def sb_inv_def blank_stream_def)

lemma adjust_established [simp]: "state s = CMT_TCP_ESTABLISHED \<Longrightarrow> adjust_fin_ack a s = a"
  by (simp add: adjust_fin_ack_def)

lemma sent_acked: "acked_bytes sent_buf 502 = 2"
  by (simp add: acked_bytes_def sent_buf_def sb_end_def seq_iffs)

lemma sent_run: "\<exists>m'. cmt_tcp_process_ack 3 9 ack_hdr 20 502 1000 0 sent_mgr = Inr m'"
proof -
  have "cmt_tcp_process_ack 3 9 ack_hdr 20 502 1000 0 sent_mgr =
    ack_release 3 9 502 sent_buf (ack_advance 3 502 sent_buf
      (upd 3 (\<lambda>_. ack_dup_count False 502 (ack_window 20 502 1000 sent_stream)) sent_mgr))"
    by (subst process_new [where buf = sent_buf and cw = 1000 and a' = 502])
      (simp_all add: sent_stream_def ack_cwindow_def ack_hdr_def blank_stream_def blank_send_def
        blank_recv_def sent_buf_def sb_end_def seq_iffs adjust_fin_ack_def)
  then show ?thesis
    by (simp add: ack_release_def acked_packets_def c_div_def release_rtt_def grow_cwnd_def
        release_remove_def SBRemove_def update_retransmission_timer_def sent_stream_def sent_buf_def
        blank_stream_def blank_send_def blank_recv_def ack_advance_def seq_iffs state_order Let_def
        ack_window_def ack_dup_count_def)
qed

theorem process_ack_releases_witness:
  "\<exists>m' b'. cmt_tcp_process_ack 3 9 ack_hdr 20 502 1000 0 sent_mgr = Inr m' \<and>
     sndbuf (sndvar (streams m' 3)) = Some b' \<and> sb_contents b' = [9] \<and> una_ok (streams m' 3)"
proof -
  obtain m' where m': "cmt_tcp_process_ack 3 9 ack_hdr 20 502 1000 0 sent_mgr = Inr m'"
    using sent_run by blast
  have s: "sndbuf (sndvar (streams sent_mgr 3)) = Some sent_buf" "una_ok (streams sent_mgr 3)"
    "2 = acked_bytes sent_buf (adjust_fin_ack 502 (streams sent_mgr 3))"
    using sent_una_ok sent_acked by (simp_all add: sent_stream_def)
  have "drop 2 (sb_contents sent_buf) = [9]" by (simp add: sb_contents_def sent_buf_def)
  then show ?thesis using process_ack_releases [OF s(2) m' s(1,3)] m' by auto
qed

lemma ack_release_div0:
  assumes "eff_mss (sndvar (streams m s)) = 0" "a \<noteq> sb_head_seq buf"
  shows "ack_release s ts a buf m = Inl DivByZero"
proof -
  have "a - sb_head_seq buf > 0" using assms(2) by (simp add: word_greater_zero_iff)
  then show ?thesis using assms(1) by (simp add: ack_release_def Let_def acked_packets_def c_div_def)
qed

text \<open>
  A stream whose effective segment size is zero, as it is when the peer sent no MSS option
  or announced a size of twelve, divides by zero on the first acknowledgement of new data.
\<close>

theorem process_ack_divides_by_zero:
  assumes "sndbuf (sndvar (streams m s)) = Some buf" "ack_cwindow h w (streams m s) = Inr cw"
    and "a' = adjust_fin_ack a (streams m s)" "\<not> TCP_SEQ_GT a' (sb_end buf)"
    and "\<not> TCP_SEQ_GEQ (sb_head_seq buf) a'" "a' \<noteq> last_ack_seq (rcvvar (streams m s)) \<or> p \<noteq> 0"
    and "eff_mss (sndvar (streams m s)) = 0"
  shows "cmt_tcp_process_ack s ts h sq a w p m = Inl DivByZero"
proof -
  have "a' \<noteq> sb_head_seq buf" using assms(5) by (auto simp: seq_iffs)
  then show ?thesis unfolding process_new [OF assms(1-6)]
    by (rule ack_release_div0 [rotated]) (simp add: assms(7))
qed

theorem process_ack_divides_by_zero_witness:
  "cmt_tcp_process_ack 3 9 ack_hdr 20 502 1000 0
     (upd_snd 3 (\<lambda>v. v\<lparr>eff_mss := 0\<rparr>) sent_mgr) = Inl DivByZero"
  by (rule process_ack_divides_by_zero [where buf = sent_buf and cw = 1000 and a' = 502])
    (simp_all add: sent_stream_def ack_cwindow_def ack_hdr_def blank_stream_def blank_send_def
      blank_recv_def sent_buf_def sb_end_def seq_iffs adjust_fin_ack_def)

lemma release_remove_cwnd:
  "release_remove s ts a r buf m = Inr m' \<Longrightarrow> cwnd (sndvar (streams m' s)) = cwnd (sndvar (streams m s))"
  by (auto simp: release_remove_def Let_def case_prod_unfold split: if_splits dest!: rtx_timer_keeps(3))

text \<open>
  C26: Growth of the congestion window. From the state ESTABLISHED on, an acknowledgement of new
  data that is not a duplicate adds one segment size per segment acknowledged while the window is
  below the slow start threshold, and leaves the window as it is above: the additive growth of
  congestion avoidance is in the branch of the states before ESTABLISHED.
\<close>

theorem process_ack_cwnd:
  assumes "sndbuf (sndvar (streams m s)) = Some buf" "ack_cwindow h w (streams m s) = Inr cw"
    and "a' = adjust_fin_ack a (streams m s)" "\<not> TCP_SEQ_GT a' (sb_end buf)"
    and "\<not> TCP_SEQ_GEQ (sb_head_seq buf) a'" "a' \<noteq> last_ack_seq (rcvvar (streams m s)) \<or> p \<noteq> 0"
    and "state (streams m s) \<ge> CMT_TCP_ESTABLISHED" "v = sndvar (streams m s)"
    and "cmt_tcp_process_ack s ts h sq a w p m = Inr m'"
  shows "cwnd (sndvar (streams m' s)) =
    (if cwnd v < ssthresh v \<and> cwnd v + ucast (mss v) > cwnd v
     then cwnd v + ucast (mss v) * ucast (ucast ((a' - sb_head_seq buf) div ucast (eff_mss v)) :: u16)
     else cwnd v)"
proof -
  let ?m = "ack_advance s a' buf
      (upd s (\<lambda>_. ack_dup_count False a' (ack_window sq a' cw (streams m s))) m)"
  have "ack_release s ts a' buf ?m = Inr m'" using assms(9) unfolding process_new [OF assms(1-6)] .
  then show ?thesis
  proof (cases rule: ack_release_cases)
    case empty
    then show ?thesis using assms(5) by (simp add: seq_iffs)
  next
    case (data q k s2)
    let ?r = "a' - sb_head_seq buf"
    have "?r div ucast (eff_mss v) * ucast (eff_mss v) \<le> ?r"
      by (rule word_div_mult_le)
    then have q: "q = ucast (?r div ucast (eff_mss v))"
      using data(2) assms(8) by (auto simp: acked_packets_def andThen_Inr_iff not_less)
    have "state (streams k s) \<ge> CMT_TCP_ESTABLISHED" "cwnd (sndvar (streams k s)) = cwnd v"
      "ssthresh (sndvar (streams k s)) = ssthresh v" "mss (sndvar (streams k s)) = mss v"
      using release_rtt_keeps [OF data(3)] assms(7,8) by simp_all
    then have "cwnd (sndvar s2) = (if cwnd v < ssthresh v \<and> cwnd v + ucast (mss v) > cwnd v
        then cwnd v + ucast (mss v) * ucast q else cwnd v)"
      using data(4) by (auto simp: grow_cwnd_def Let_def split: if_splits)
    then show ?thesis using release_remove_cwnd [OF data(5)] q by simp
  qed
qed

theorem process_ack_cwnd_witness:
  "\<exists>m'. cmt_tcp_process_ack 3 9 ack_hdr 20 502 1000 0 sent_mgr = Inr m' \<and>
     cwnd (sndvar (streams m' 3)) = 100"
proof -
  obtain m' where m': "cmt_tcp_process_ack 3 9 ack_hdr 20 502 1000 0 sent_mgr = Inr m'"
    using sent_run by blast
  have "cwnd (sndvar (streams m' 3)) = 100"
    by (subst process_ack_cwnd [OF _ _ _ _ _ _ _ refl m', where buf = sent_buf and cw = 1000 and a' = 502])
      (simp_all add: sent_stream_def ack_cwindow_def ack_hdr_def blank_stream_def blank_send_def
        blank_recv_def sent_buf_def sb_end_def seq_iffs adjust_fin_ack_def state_order)
  then show ?thesis using m' by blast
qed

text \<open>
  C25: Fast retransmit. The third duplicate acknowledgement of a stream moves \<open>snd_nxt\<close> back
  to the acknowledged byte, halves the flight into the slow start threshold (at least two
  segments), sets the congestion window three segments above it and puts the stream on the send
  list.
\<close>

theorem process_ack_fast_retransmit:
  assumes "sndbuf (sndvar (streams m s)) = Some buf" "ack_cwindow h w (streams m s) = Inr cw"
    and "a' = adjust_fin_ack a (streams m s)" "\<not> TCP_SEQ_GT a' (sb_end buf)" "TCP_SEQ_GEQ (sb_head_seq buf) a'"
    and "ack_window sq a' cw (streams m s) = streams m s"
    and "is_dup (peer_wnd (sndvar (streams m s)) + snd_wl1 (rcvvar (streams m s))) a' p (streams m s)"
    and "dup_acks (rcvvar (streams m s)) = 2" "v = sndvar (streams m s)"
  shows "\<exists>m'. cmt_tcp_process_ack s ts h sq a w p m = Inr m' \<and> snd_nxt (streams m' s) = a' \<and>
    ssthresh (sndvar (streams m' s)) = max (min (cwnd v) (peer_wnd v) div 2) (2 * ucast (mss v)) \<and>
    cwnd (sndvar (streams m' s)) = ssthresh (sndvar (streams m' s)) + 3 * ucast (mss v) \<and>
    on_snd m' s"
proof -
  define s1 where "s1 = ack_dup_count True a' (streams m s)"
  have f: "ack_front sq a' cw p (streams m s) = (True, s1)"
    using assms(6,7) by (simp add: ack_front_def Let_def s1_def)
  have s1: "dup_acks (rcvvar s1) = 3" "sndvar s1 = v" "snd_nxt s1 = snd_nxt (streams m s)"
    using assms(8,9) by (simp_all add: s1_def ack_dup_count_def)
  have lt: "TCP_SEQ_LT a' (snd_nxt s1)" using assms(7) s1 by (auto simp: is_dup_def)
  obtain k where k: "cmt_tcp_addto_sendlist s (upd s (fast_retransmit a') (upd s (\<lambda>_. s1) m)) = Inr k"
    using addto_sendlist_defined [of "upd s (fast_retransmit a') (upd s (\<lambda>_. s1) m)" s] assms(1,9) s1(2)
    by auto
  have ks: "streams k s = sndvar_update (on_send_list_update (\<lambda>_. True)) (fast_retransmit a' s1)"
    using streams_addto_sendlist [OF k] by simp
  then have "snd_nxt (streams k s) = a'" using lt by (simp add: fast_retransmit_def Let_def)
  then have adv: "ack_advance s a' buf k = k" by (simp add: ack_advance_def)
  have "cmt_tcp_process_ack s ts h sq a w p m = Inr k"
    using assms(1-5) f k adv s1(1) by (simp add: cmt_tcp_process_ack_def Let_def ack_dup_action_def)
  then show ?thesis using ks s1(2) lt
    by (auto simp: fast_retransmit_def Let_def on_snd_def max_def)
qed

definition dup_mgr :: mgr where
  "dup_mgr = with_stream 3 (\<lambda>_. sent_stream\<lparr>rcvvar := blank_recv\<lparr>dup_acks := 2, last_ack_seq := 500,
     snd_wl1 := 500, snd_wl2 := 500\<rparr>\<rparr>)"

theorem process_ack_fast_retransmit_witness:
  "\<exists>m'. cmt_tcp_process_ack 3 9 ack_hdr 500 500 1000 0 dup_mgr = Inr m' \<and>
     ssthresh (sndvar (streams m' 3)) = 224 \<and> cwnd (sndvar (streams m' 3)) = 560"
proof -
  have "\<exists>m'. cmt_tcp_process_ack 3 9 ack_hdr 500 500 1000 0 dup_mgr = Inr m' \<and> snd_nxt (streams m' 3) = 500 \<and>
    ssthresh (sndvar (streams m' 3)) = max (min (cwnd (sndvar (streams dup_mgr 3))) (peer_wnd (sndvar (streams dup_mgr 3))) div 2)
        (2 * ucast (mss (sndvar (streams dup_mgr 3)))) \<and>
    cwnd (sndvar (streams m' 3)) = ssthresh (sndvar (streams m' 3)) + 3 * ucast (mss (sndvar (streams dup_mgr 3))) \<and>
    on_snd m' 3"
    by (rule process_ack_fast_retransmit [where buf = sent_buf and cw = 1000 and a' = 500])
      (simp_all add: dup_mgr_def with_stream_def sent_stream_def ack_cwindow_def ack_hdr_def
        blank_stream_def blank_send_def blank_recv_def sent_buf_def sb_end_def seq_iffs
        adjust_fin_ack_def ack_window_def is_dup_def)
  then show ?thesis
    by (auto simp: dup_mgr_def with_stream_def sent_stream_def blank_send_def max_def min_def)
qed

text \<open>
  Without a window update a segment can only count as a duplicate acknowledgement when the
  sequence number and the acknowledgement number of the last window update are equal, since the
  right edge is computed from the one and compared with the other: numbers of the two directions
  of a connection, which agree only by chance.
\<close>

theorem dup_needs_equal_window_marks:
  assumes "ack_window sq a cw s = s" "fst (ack_front sq a cw p s)"
  shows "snd_wl1 (rcvvar s) = snd_wl2 (rcvvar s)"
  using assms by (simp add: ack_front_def Let_def is_dup_def)

theorem dup_needs_equal_window_marks_witness:
  "snd_wl1 (rcvvar (streams dup_mgr 3)) = snd_wl2 (rcvvar (streams dup_mgr 3))"
  by (rule dup_needs_equal_window_marks [where sq = 500 and a = 500 and cw = 1000 and p = 0])
    (simp_all add: dup_mgr_def with_stream_def sent_stream_def blank_stream_def blank_send_def
      blank_recv_def seq_iffs ack_window_def is_dup_def ack_front_def)

lemma max_one_u32: "max t (1 :: u32) = (if t = 0 then 1 else t)"
proof (cases "t = 0")
  case False
  then have "1 \<le> unat t" by (simp add: Suc_le_eq unat_gt_0)
  then have "1 \<le> t" by (simp add: unat_mono_le)
  with False show ?thesis by (auto simp: max_def)
qed (simp add: max_def)

lemma rtt_sample_srtt [simp]: "srtt (rtt_sample m r) = srtt r + 3"
  by (simp add: rtt_sample_def Let_def)

lemma rtt_period_srtt [simp]: "srtt (rtt_period s r) = srtt r"
  by (simp add: rtt_period_def Let_def)

text \<open>
  The estimator. The first sample of \<open>t\<close> ticks gives a smoothed time of eight and a
  deviation of two samples, so the retransmission timeout becomes three samples; every later
  sample raises the smoothed time by three, whatever its value.
\<close>

theorem estimate_rtt_values:
  "srtt (rcvvar (streams (cmt_tcp_estimate_rtt s t m) s)) =
     (if srtt (rcvvar (streams m s)) = 0 then 8 * max t 1 else srtt (rcvvar (streams m s)) + 3) \<and>
   (srtt (rcvvar (streams m s)) = 0 \<and> t < 0x10000000 \<longrightarrow>
     drop_bit 3 (srtt (rcvvar (streams (cmt_tcp_estimate_rtt s t m) s))) +
       rttvar (rcvvar (streams (cmt_tcp_estimate_rtt s t m) s)) = 3 * max t 1)"
proof (cases "srtt (rcvvar (streams m s)) = 0")
  case False
  then show ?thesis by (simp add: cmt_tcp_estimate_rtt_def)
next
  case True
  define k where "k = (if uint t = 0 then 1 else uint t)"
  have "word_of_int k = (if t = 0 then 1 else t)"
    unfolding k_def uint_0_iff by (cases "t = 0") (simp_all only: if_True if_False refl word_of_int_uint word_of_int_1)
  then have m: "word_of_int k = max t 1" by (simp only: max_one_u32)
  have "word_of_int (k * 8) = 8 * max t 1" "word_of_int (k * 2) = 2 * max t 1"
    unfolding m [symmetric] by simp_all
  then have v: "srtt (rcvvar (streams (cmt_tcp_estimate_rtt s t m) s)) = 8 * max t 1"
    "rttvar (rcvvar (streams (cmt_tcp_estimate_rtt s t m) s)) = 2 * max t 1"
    using True unfolding cmt_tcp_estimate_rtt_def k_def [symmetric] by (simp_all add: Let_def rtt_first_def)
  have "drop_bit 3 (8 * max t 1) = max t 1" if "t < 0x10000000"
  proof -
    have "unat (max t 1) < 268435456" using that by (simp add: max_one_u32 unat_mono_less)
    then show ?thesis
      by (simp add: word_unat_eq_iff drop_bit_eq_div unat_div unat_word_ariths)
  qed
  then show ?thesis using v True by (auto simp: algebra_simps)
qed

theorem estimate_rtt_values_witness:
  "drop_bit 3 (srtt (rcvvar (streams (cmt_tcp_estimate_rtt 3 50 sent_mgr) 3))) +
     rttvar (rcvvar (streams (cmt_tcp_estimate_rtt 3 50 sent_mgr) 3)) = 150"
proof -
  have "srtt (rcvvar (streams sent_mgr 3)) = 0 \<and> (50 :: u32) < 0x10000000"
    by (simp add: sent_stream_def blank_stream_def blank_recv_def)
  with estimate_rtt_values [of 3 50 sent_mgr]
  have "drop_bit 3 (srtt (rcvvar (streams (cmt_tcp_estimate_rtt 3 50 sent_mgr) 3))) +
     rttvar (rcvvar (streams (cmt_tcp_estimate_rtt 3 50 sent_mgr) 3)) = 3 * max 50 1" by blast
  also have "\<dots> = 150" by (simp add: max_one_u32)
  finally show ?thesis .
qed

end
