(* ===== verification/Tcp_Process.thy ===== *)
theory Tcp_Process
  imports Tcp_Handlers Tcp_Ack_Facts
begin

text \<open>
  The ways through a segment and through a packet, the lemmas of the locales \<open>mgr_step\<close> and
  \<open>mgr_closed\<close> for every handler, the dispatch and the opening of a stream, and a concrete
  environment, manager and packet for the examples.
\<close>

subsection \<open>Parsing keeps the links\<close>

lemma parse_frame:
  "parse_options_loop fuel ts mem len i s = Some (Inr s') \<Longrightarrow> links s' = links s \<and> state s' = state s"
proof (induction fuel arbitrary: i s)
  case (Suc fuel)
  from Suc.prems show ?case
    by (auto simp: parse_options_loop.simps(2) Let_def split: if_splits sum.splits dest!: Suc.IH)
      (simp_all add: links_def snd_links_def)
qed (simp add: parse_options_loop.simps)

subsection \<open>The ways through a segment\<close>

lemma refreshed_stream:
  "streams (refreshed s ts w h m) s =
     (streams m s)\<lparr>sndvar := (sndvar (streams m s))\<lparr>peer_wnd := w\<rparr>, last_active_ts := ts,
       have_reset := (rst h \<or> have_reset (streams m s))\<rparr>"
  by (simp add: refreshed_def Let_def)

lemma process_rst_zero: "fst (cmt_tcp_process_rst s a m) = 0 \<longleftrightarrow> state (streams m s) \<le> CMT_TCP_SYN_SENT"
  by (simp add: cmt_tcp_process_rst_def Let_def)

lemma process_segment_cases:
  assumes "process_segment E s ts iph h opts sq a pl p w m = Inr (r, m')"
  obtains (invalid) "r = 1" "CMT_TCP_SYN_RCVD < state (streams m s)"
      "cmt_tcp_validseq s ts h opts sq p m = Inr (False, m')"
  | (valid) k wd where "r = 1"
      "if CMT_TCP_SYN_RCVD < state (streams m s)
       then cmt_tcp_validseq s ts h opts sq p m = Inr (True, k) else k = m"
      "if rst h \<and> CMT_TCP_SYN_SENT < state (streams k s)
       then m' = snd (cmt_tcp_process_rst s a (refreshed s ts wd h k))
       else dispatch E s ts iph h opts sq a pl p w (refreshed s ts wd h k) = Inr m'"
proof -
  obtain v k where v: "(if CMT_TCP_SYN_RCVD < state (streams m s)
              then cmt_tcp_validseq s ts h opts sq p m else Inr (True, m)) = Inr (v, k)"
    using assms unfolding process_segment_def by (elim andThen_InrE) fastforce
  show thesis
  proof (cases v)
    case False
    then show thesis using invalid v assms by (auto simp: process_segment_def split: if_splits)
  next
    case True
    obtain wd where wd: "(if syn h then Inr (ucast w)
                else c_shl (ucast w) (unat (wscale_peer (sndvar (streams k s))))) = Inr wd"
      using assms v True unfolding process_segment_def by (auto elim: andThen_InrE)
    let ?n = "refreshed s ts wd h k"
    have st: "state (streams ?n s) = state (streams k s)" by (simp add: refreshed_stream)
    have eq: "(case (if rst h \<and> CMT_TCP_SYN_SENT < state (streams k s) then cmt_tcp_process_rst s a ?n else (0, ?n)) of
        (r, m) \<Rightarrow> if r \<noteq> 0 then Inr (1, m)
          else andThen (dispatch E s ts iph h opts sq a pl p w m) (\<lambda>m. Inr (1, m))) = Inr (r, m')"
      using assms v True wd unfolding process_segment_def by (simp add: Let_def st)
    show thesis
    proof (cases "rst h \<and> CMT_TCP_SYN_SENT < state (streams k s)")
      case c: True
      then have "fst (cmt_tcp_process_rst s a ?n) \<noteq> 0" unfolding process_rst_zero st by (simp add: not_le)
      then show thesis using eq c v True by (intro valid [of k wd]) (auto split: prod.splits if_splits)
    next
      case c: False
      then show thesis using eq v True by (intro valid [of k wd]) (auto simp: andThen_Inr_iff split: if_splits)
    qed
  qed
qed

subsection \<open>Every handler is a sequence of elementary steps\<close>

text \<open>The steps that keep the state.\<close>

context mgr_step
begin

lemma keep_closed:
  assumes "P m" "mine s" "\<And>x. links (f x) = links x" "\<And>x. state (f x) = state x"
  shows "P (upd s f m)"
  using assms by (intro upd_law)

lemma parse_closed:
  assumes "P m" "mine s" "parse_into E s ts opts h m = Inr m'"
  shows "P m'"
proof -
  obtain x where x: "cmt_tcp_parse_options (e_fuel E) (streams m s) ts opts (int (4 * doff h) - TCP_HEADER_LEN) = Some (Inr x)"
    "m' = upd s (\<lambda>_. x) m"
    using assms(3) by (auto simp: parse_into_def andThen_Inr_iff with_fuel_Inr)
  have "links x = links (streams m s) \<and> state x = state (streams m s)"
    using x(1) unfolding cmt_tcp_parse_options_def by (rule parse_frame)
  then show ?thesis unfolding x(2) using assms(1,2) by (auto intro: upd_law)
qed

lemma active_open_closed:
  assumes "P m" "mine s" "cmt_tcp_active_open E s ts h opts sq a w m = Inr m'"
  shows "P m'"
proof -
  define m0 where "m0 = upd s (\<lambda>s. s\<lparr>snd_nxt := a, rcv_nxt := sq + 1,
            sndvar := (sndvar s)\<lparr>peer_wnd := ucast w\<rparr>,
            rcvvar := (rcvvar s)\<lparr>irs := sq, snd_wl1 := sq - 1, last_ack_seq := a\<rparr>\<rparr>) m"
  have p0: "P m0" unfolding m0_def using assms(1,2)
    by (rule keep_closed) (simp_all add: links_def snd_links_def)
  obtain m1 where m1: "parse_into E s ts opts h m0 = Inr m1"
    "update_retransmission_timer s ts (upd_snd s (\<lambda>v. v\<lparr>cwnd := (if cwnd v = 1 then ucast (mss v) * 2 else ucast (mss v)),
                               ssthresh := ucast (mss v) * 10\<rparr>) m1) = Inr m'"
    using assms(3) unfolding cmt_tcp_active_open_def Let_def m0_def [symmetric] by (rule andThen_InrE)
  have "P m1" using p0 assms(2) m1(1) by (rule parse_closed)
  then have "P (upd_snd s (\<lambda>v. v\<lparr>cwnd := (if cwnd v = 1 then ucast (mss v) * 2 else ucast (mss v)),
                               ssthresh := ucast (mss v) * 10\<rparr>) m1)"
    using assms(2) by (rule snd_closed) (simp add: snd_links_def)
  then show ?thesis using assms(2) m1(2) by (rule rtx_timer_closed)
qed

lemma timestamp_closed:
  assumes "P m" "mine s" "check_timestamp s ts h opts m = Inr (Some m')"
  shows "P m'"
  using assms
  by (auto simp: check_timestamp_def andThen_Inr_iff Let_def split: if_splits option.splits
      intro: enqack_closed intro!: rcv_closed)

lemma validseq_closed:
  assumes "P m" "mine s" "cmt_tcp_validseq s ts h opts sq p m = Inr (v, m')"
  shows "P m'"
proof -
  obtain r where r: "check_timestamp s ts h opts m = Inr r"
    using assms(3) by (auto simp: cmt_tcp_validseq_def andThen_Inr_iff)
  show ?thesis
  proof (cases r)
    case None
    then show ?thesis using assms r by (simp add: cmt_tcp_validseq_def)
  next
    case (Some k)
    then have "P k" using timestamp_closed [OF assms(1,2)] r by simp
    then show ?thesis using assms(2,3) r Some
      by (auto simp: cmt_tcp_validseq_def Let_def split: if_splits
          intro: enqack_closed addctl_law intro!: addtw_law addctl_law)
  qed
qed

lemma flush_closed: "P m \<Longrightarrow> mine s \<Longrightarrow> P (flush_read E s m)"
  by (auto simp: flush_read_def rcv_closed split: option.splits)

lemma buffered_closed:
  "P m \<Longrightarrow> mine s \<Longrightarrow> ack_if_buffered s ts h sq a w p m = Inr m' \<Longrightarrow> P m'"
  by (auto simp: ack_if_buffered_def split: if_splits intro: ack_closed)

lemma refresh_closed:
  assumes "P m" "mine s"
  shows "P (update_timeout_list s (upd s (\<lambda>s. s\<lparr>sndvar := (sndvar s)\<lparr>peer_wnd := w\<rparr>, last_active_ts := ts\<rparr>) m))"
  using assms by (auto simp: links_def snd_links_def intro!: updto_law keep_closed)

end

text \<open>The steps that may change it.\<close>

context mgr_closed
begin

lemma plain_closed:
  assumes "P m" "mine s" "\<And>x. links (f x) = links x"
  shows "P (upd s f m)"
  using assms by (intro upd_any)

lemma payload_closed:
  assumes "P m" "mine s" "cmt_tcp_process_payload E s pl sq p m = Inr (r, m')"
  shows "P m'"
proof -
  define m0 where "m0 = (if rcvbuf (rcvvar (streams m s)) = None
                 then upd_rcv s (\<lambda>r. r\<lparr>rcvbuf := e_rcvbuf_get E m (irs r + 1)\<rparr>) m else m)"
  have p0: "P m0" using assms by (simp add: m0_def rcv_closed)
  have u: "P (upd s (\<lambda>s. s\<lparr>rcv_nxt := a, rcvvar := (rcvvar s)\<lparr>rcvbuf := b, rcv_wnd := w\<rparr>\<rparr>) m0)" for a b w
    using p0 assms(2) by (rule plain_closed) (simp add: links_def)
  show ?thesis using assms p0 unfolding cmt_tcp_process_payload_def Let_def m0_def [symmetric]
    by (auto simp: andThen_Inr_iff split: if_splits option.splits
        intro!: flush_closed u intro: reason_closed state_closed)
qed

lemma rst_closed: "P m \<Longrightarrow> mine s \<Longrightarrow> P (snd (cmt_tcp_process_rst s a m))"
  by (auto simp: cmt_tcp_process_rst_def Let_def intro!: call_closed reason_closed state_closed)

lemma take_payload_closed:
  "P m \<Longrightarrow> mine s \<Longrightarrow> take_payload E s pl sq p m = Inr m' \<Longrightarrow> P m'"
  by (auto simp: take_payload_def andThen_Inr_iff split: if_splits intro!: enqack_closed
      intro: payload_closed)

lemma listen_closed: "P m \<Longrightarrow> mine s \<Longrightarrow> cmt_tcp_handle_listen s h m = Inr m' \<Longrightarrow> P m'"
  by (auto simp: cmt_tcp_handle_listen_def Let_def links_def snd_links_def split: if_splits
      intro!: addctl_law state_closed plain_closed)

lemma sent_established_closed:
  assumes "P m" "mine s" "syn_sent_established s iph h sq p m = Inr m'"
  shows "P m'"
proof -
  have "P (upd s (\<lambda>s. s\<lparr>sndvar := (sndvar s)\<lparr>nrtx := 0\<rparr>, rcv_nxt := irs (rcvvar s) + 1\<rparr>) m)"
    using assms(1,2) by (rule plain_closed) (simp add: links_def snd_links_def)
  then show ?thesis using assms(2,3)
    by (auto simp: syn_sent_established_def Let_def split: if_splits elim!: addto_law [rotated 2]
        intro!: addctl_law call_closed reason_closed state_closed remrto_law)
qed

lemma syn_sent_closed:
  assumes "P m" "mine s" "cmt_tcp_handle_syn_sent E s ts iph h opts sq a p w m = Inr m'"
  shows "P m'"
proof -
  define m0 where "m0 = (if ack h then upd_snd s (\<lambda>v. v\<lparr>snd_una := snd_una v + 1\<rparr>) m else m)"
  have p0: "P m0" using assms(1,2) by (auto simp: m0_def snd_links_def intro!: snd_closed)
  have u: "P (upd s (\<lambda>s. s\<lparr>state := CMT_TCP_SYN_RCVD, snd_nxt := iss (sndvar s)\<rparr>) m0)"
    using p0 assms(2) by (rule plain_closed) (simp add: links_def)
  have x: "P (if sock (streams k s) \<noteq> None then k else stream_destroy s k)" if "P k" for k
    using that by (simp add: call_closed)
  consider (bad) "ack h \<and> (TCP_SEQ_LEQ a (iss (sndvar (streams m s))) \<or> TCP_SEQ_GT a (snd_nxt (streams m s)))"
    | (rst) "\<not> (ack h \<and> (TCP_SEQ_LEQ a (iss (sndvar (streams m s))) \<or> TCP_SEQ_GT a (snd_nxt (streams m s))))"
      "rst h \<and> ack h"
    | (syn) "\<not> (ack h \<and> (TCP_SEQ_LEQ a (iss (sndvar (streams m s))) \<or> TCP_SEQ_GT a (snd_nxt (streams m s))))"
      "\<not> (rst h \<and> ack h)" "syn h \<and> ack h"
    | (other) "\<not> (ack h \<and> (TCP_SEQ_LEQ a (iss (sndvar (streams m s))) \<or> TCP_SEQ_GT a (snd_nxt (streams m s))))"
      "\<not> (rst h \<and> ack h)" "\<not> (syn h \<and> ack h)"
    by blast
  then show ?thesis
  proof cases
    case bad
    then have "m' = (if \<not> rst h then cmt_tcppkt_alone (ip_dst iph) (dest h) (ip_src iph) (source h) a 0 CMT_TCPHDR_RST m
                else m)"
      using assms(3) unfolding cmt_tcp_handle_syn_sent_def by simp
    then show ?thesis using assms(1) by (simp add: call_closed)
  next
    case rst
    have "P (set_reason s TCP_RESET (set_state s CMT_TCP_CLOSE_WAIT m0))"
      using p0 assms(2) by (intro reason_closed state_closed)
    from x [OF this] show ?thesis
      using assms(3) rst unfolding cmt_tcp_handle_syn_sent_def Let_def m0_def [symmetric] by simp
  next
    case syn
    then obtain k where k: "cmt_tcp_active_open E s ts h opts sq a w m0 = Inr k"
      "syn_sent_established s iph h sq p k = Inr m'"
      using assms(3) unfolding cmt_tcp_handle_syn_sent_def Let_def m0_def [symmetric]
      by (auto simp: andThen_Inr_iff)
    show ?thesis by (rule sent_established_closed [OF active_open_closed [OF p0 assms(2) k(1)] assms(2) k(2)])
  next
    case other
    then show ?thesis using assms(2,3) u unfolding cmt_tcp_handle_syn_sent_def Let_def m0_def [symmetric]
      by (auto intro: addctl_law)
  qed
qed

lemma accept_closed:
  assumes "P m" "mine s" "syn_rcvd_accept E s h m = Inr m'"
  shows "P m'"
proof -
  have u: "P (cmt_tcp_addto_controllist s (upd s (\<lambda>s. s\<lparr>close_reason := TCP_NOT_ACCEPTED, state := CMT_TCP_CLOSE\<rparr>) k))"
    if "P k" for k
    using that assms(2) by (intro addctl_law plain_closed) (simp_all add: links_def)
  show ?thesis using assms
    by (auto simp: syn_rcvd_accept_def Let_def andThen_Inr_iff split: option.splits if_splits
        elim!: addto_law [rotated 2] intro!: u accept_law)
qed

lemma syn_rcvd_closed:
  assumes "P m" "mine s" "cmt_tcp_handle_syn_rcvd E s h a m = Inr m'"
  shows "P m'"
proof -
  have u: "P (upd s (\<lambda>s. s\<lparr>snd_nxt := a, rcv_nxt := irs (rcvvar s) + 1,
                sndvar := (sndvar s)\<lparr>snd_una := snd_una (sndvar s) + 1, nrtx := 0,
                  cwnd := (if cwnd (sndvar s) = 1 then ucast (mss (sndvar s)) * 2 else ucast (mss (sndvar s)))\<rparr>\<rparr>) m)"
    "P (upd s (\<lambda>s. s\<lparr>snd_nxt := iss (sndvar s)\<rparr>) m)"
    using assms(1,2) by (auto simp: links_def snd_links_def intro!: plain_closed)
  show ?thesis
  proof (cases "ack h")
    case True
    show ?thesis
      by (rule accept_closed [OF state_closed [OF remrto_law [OF u(1) assms(2)] assms(2)] assms(2)])
        (use assms(3) True in \<open>auto simp: cmt_tcp_handle_syn_rcvd_def Let_def split: if_splits\<close>)
  next
    case False
    then show ?thesis using assms u(2) by (auto simp: cmt_tcp_handle_syn_rcvd_def intro!: addctl_law)
  qed
qed

lemma established_fin_closed: "P m \<Longrightarrow> mine s \<Longrightarrow> P (established_fin E s e m)"
  by (auto simp: established_fin_def links_def intro!: flush_closed addctl_law plain_closed enqack_closed)

lemma established_closed:
  assumes "P m" "mine s" "cmt_tcp_handle_established E s ts h sq a pl p w m = Inr m'"
  shows "P m'"
proof (cases "syn h")
  case True
  have "P (upd s (\<lambda>s. s\<lparr>snd_nxt := a\<rparr>) m)"
    using assms(1,2) by (rule plain_closed) (simp add: links_def)
  then show ?thesis using assms True by (auto simp: cmt_tcp_handle_established_def intro: addctl_law)
next
  case False
  then obtain k l where k: "take_payload E s pl sq p m = Inr k"
    "(if ack h then ack_if_buffered s ts h sq a w p k else Inr k) = Inr l"
    "m' = (if fin h then established_fin E s (sq + word_of_int p) l else l)"
    using assms(3) by (auto simp: cmt_tcp_handle_established_def andThen_Inr_iff)
  have "P k" using assms(1,2) k(1) by (rule take_payload_closed)
  then have "P l" using assms(2) k(2) by (auto split: if_splits intro: buffered_closed)
  then show ?thesis unfolding k(3) using assms(2) by (simp add: established_fin_closed)
qed

lemma last_ack_closed:
  assumes "P m" "mine s" "cmt_tcp_handle_last_ack s ts h sq a p w m = Inr m'"
  shows "P m'"
proof -
  consider "m' = m" | "m' = cmt_tcp_addto_controllist s m"
    | k where "ack_if_buffered s ts h sq a w p m = Inr k"
      "m' = k \<or> m' = cmt_tcp_addto_controllist s k \<or>
       (\<exists>l. update_retransmission_timer s ts (upd_snd s (\<lambda>v. v\<lparr>snd_una := snd_una v + 1\<rparr>) k) = Inr l \<and>
         m' = stream_destroy s (set_reason s TCP_PASSIVE_CLOSE (set_state s CMT_TCP_CLOSE l)))"
    using assms(3) by (auto simp: cmt_tcp_handle_last_ack_def andThen_Inr_iff split: if_splits)
  then show ?thesis
  proof cases
    case 3
    then have k: "P k" using assms(1,2) by (blast intro: buffered_closed)
    then have "P (upd_snd s (\<lambda>v. v\<lparr>snd_una := snd_una v + 1\<rparr>) k)"
      using assms(2) by (rule snd_closed) (simp add: snd_links_def)
    then show ?thesis using k 3(2) assms(2)
      by (auto intro: addctl_law rtx_timer_closed intro!: call_closed reason_closed state_closed)
  qed (use assms addctl_law in auto)
qed

lemma fin_wait_1_acked_closed:
  assumes "P m" "mine s"
  shows "P (fin_wait_1_acked s a m)"
  using assms
  by (auto simp: fin_wait_1_acked_def Let_def snd_links_def links_def
      intro!: state_closed remrto_law snd_closed plain_closed)

lemma fin_wait_1_fin_closed:
  assumes "P m" "mine s" "fin_wait_1_fin s ts e m = Inr m'"
  shows "P m'"
proof -
  have u: "P (upd s (\<lambda>s. s\<lparr>rcv_nxt := rcv_nxt s + 1\<rparr>) m)"
    using assms(1,2) by (rule plain_closed) (simp add: links_def)
  show ?thesis
    using assms by (auto simp: fin_wait_1_fin_def Let_def split: if_splits
        intro!: addctl_law addtw_law state_closed u)
qed

lemma fin_wait_1_closed:
  assumes "P m" "mine s" "cmt_tcp_handle_fin_wait_1 E s ts h sq a pl p w m = Inr m'"
  shows "P m'"
proof -
  consider "m' = cmt_tcp_addto_controllist s m" | "m' = m"
    | k l where "ack_if_buffered s ts h sq a w p m = Inr k"
      "take_payload E s pl sq p (fin_wait_1_acked s a k) = Inr l"
      "(if fin h then fin_wait_1_fin s ts (sq + word_of_int p) l else Inr l) = Inr m'"
    using assms(3) by (auto simp: cmt_tcp_handle_fin_wait_1_def andThen_Inr_iff split: if_splits)
  then show ?thesis
  proof cases
    case 3
    have "P k" using assms(1,2) 3(1) by (rule buffered_closed)
    then have "P (fin_wait_1_acked s a k)" using assms(2) by (rule fin_wait_1_acked_closed)
    then have "P l" using assms(2) 3(2) by (rule take_payload_closed)
    then show ?thesis using assms(2) 3(3) by (auto split: if_splits intro: fin_wait_1_fin_closed)
  qed (use assms addctl_law in auto)
qed

lemma fin_wait_2_closed:
  assumes "P m" "mine s" "cmt_tcp_handle_fin_wait_2 E s ts h sq a pl p w m = Inr m'"
  shows "P m'"
proof -
  consider "m' = m"
    | k l where "ack_if_buffered s ts h sq a w p m = Inr k" "take_payload E s pl sq p k = Inr l"
      "m' = (if fin h then fin_wait_2_fin s ts (sq + word_of_int p) l else l)"
    using assms(3) by (auto simp: cmt_tcp_handle_fin_wait_2_def andThen_Inr_iff split: if_splits)
  then show ?thesis
  proof cases
    case 2
    have "P k" using assms(1,2) 2(1) by (rule buffered_closed)
    then have "P l" using assms(2) 2(2) by (rule take_payload_closed)
    moreover have "P (fin_wait_2_fin s ts e l)" if "P l" for e
      using that assms(2) by (auto simp: fin_wait_2_fin_def links_def
          intro!: addctl_law addtw_law plain_closed)
    ultimately show ?thesis unfolding 2(3) by simp
  qed (use assms in simp)
qed

lemma closing_closed:
  assumes "P m" "mine s" "cmt_tcp_handle_closing s ts h sq a p w m = Inr m'"
  shows "P m'"
proof -
  consider "m' = m"
    | k where "ack_if_buffered s ts h sq a w p m = Inr k"
      "m' = k \<or> (\<exists>l. update_retransmission_timer s ts
         (upd s (\<lambda>s. s\<lparr>snd_nxt := a, sndvar := (sndvar s)\<lparr>snd_una := a\<rparr>\<rparr>) k) = Inr l \<and>
         m' = add_to_timewait_list s ts (set_state s CMT_TCP_TIME_WAIT l))"
    using assms(3) by (auto simp: cmt_tcp_handle_closing_def andThen_Inr_iff split: if_splits)
  then show ?thesis
  proof cases
    case 2
    have k: "P k" using assms(1,2) 2(1) by (rule buffered_closed)
    then have "P (upd s (\<lambda>s. s\<lparr>snd_nxt := a, sndvar := (sndvar s)\<lparr>snd_una := a\<rparr>\<rparr>) k)"
      using assms(2) by (rule plain_closed) (simp add: links_def snd_links_def)
    then show ?thesis using k 2(2) assms(2)
      by (auto intro: rtx_timer_closed intro!: addtw_law state_closed)
  qed (use assms in simp)
qed

lemma time_wait_closed:
  assumes "P m" "mine s" "handle_time_wait s ts m = Inr m'"
  shows "P m'"
  using assms by (auto simp: handle_time_wait_def andThen_Inr_iff split: if_splits
      intro: remtw_law intro!: addctl_law addtw_law)

lemma dispatch_closed:
  assumes "P m" "mine s" "dispatch E s ts iph h opts sq a pl p w m = Inr m'"
    and known: "state (streams m s) \<noteq> CMT_TCP_CLOSE_WAIT"
  shows "P m'"
proof (cases "state (streams m s)")
  case CMT_TCP_SYN_RCVD
  show ?thesis
  proof (cases "syn h \<and> sq = irs (rcvvar (streams m s))")
    case False
    then obtain k where k: "cmt_tcp_handle_syn_rcvd E s h a m = Inr k"
      "m' = k \<or> cmt_tcp_handle_established E s ts h sq a pl p w k = Inr m'"
      using assms(3) CMT_TCP_SYN_RCVD
      by (auto simp: dispatch_def andThen_Inr_iff split: if_splits)
    have "P k" using assms(1,2) k(1) by (rule syn_rcvd_closed)
    then show ?thesis using k(2) assms(2) by (auto intro: established_closed)
  qed (use assms CMT_TCP_SYN_RCVD in \<open>auto simp: dispatch_def intro: listen_closed\<close>)
next
  case CMT_TCP_CLOSE_WAIT
  then show ?thesis using known by simp
qed (use assms in \<open>auto simp: dispatch_def intro: listen_closed syn_sent_closed established_closed
      last_ack_closed fin_wait_1_closed fin_wait_2_closed closing_closed time_wait_closed\<close>)

end

lemma validseq_state:
  "cmt_tcp_validseq s ts h opts sq p m = Inr (v, k) \<Longrightarrow> state (streams k t) = state (streams m t)"
  by (rule stm.validseq_closed [OF refl]) simp_all

lemma parse_state: "parse_into E s ts opts h m = Inr k \<Longrightarrow> state (streams k t) = state (streams m t)"
  by (rule stm.parse_closed [OF refl]) simp_all

context mgr_closed
begin

lemma refreshed_closed: "P m \<Longrightarrow> mine s \<Longrightarrow> P (refreshed s ts w h m)"
  by (auto simp: refreshed_def Let_def links_def intro!: refresh_closed plain_closed)

lemma segment_closed:
  assumes "P m" "mine s" "process_segment E s ts iph h opts sq a pl p w m = Inr (r, m')"
    and known: "state (streams m s) \<noteq> CMT_TCP_CLOSE_WAIT"
  shows "P m'"
  using assms(3)
proof (cases rule: process_segment_cases)
  case invalid
  then show ?thesis using assms(1,2) by (blast intro: validseq_closed)
next
  case (valid k wd)
  have "P k" using valid(2) assms(1,2) by (auto split: if_splits intro: validseq_closed)
  then have r: "P (refreshed s ts wd h k)" using assms(2) by (rule refreshed_closed)
  have "state (streams k s) = state (streams m s)"
    using valid(2) validseq_state by (auto split: if_splits)
  then have "state (streams (refreshed s ts wd h k) s) \<noteq> CMT_TCP_CLOSE_WAIT"
    using known by (simp add: refreshed_stream)
  then show ?thesis using r valid(3) assms(2)
    by (auto split: if_splits intro: rst_closed dispatch_closed)
qed

end

subsection \<open>Opened streams\<close>

text \<open>
  A stream and a send part that are on no list and in no table: \<open>create_tcp_stream\<close> does not
  clear the flags of what the pools return.
\<close>

definition fresh_streams :: "env \<Rightarrow> mgr \<Rightarrow> bool" where
  "fresh_streams E m \<longleftrightarrow>
     (\<forall>sid sv. e_get_stream E m = Some sid \<longrightarrow> e_snd_get E m = Some sv \<longrightarrow>
        sid \<notin> ht_members (flow_table m) \<and> on_rto_idx (streams m sid) < 0 \<and>
        \<not> on_timewait_list (streams m sid) \<and> \<not> on_timeout_list (streams m sid) \<and>
        snd_links (sndvar (streams m sid)) = (False, False, False) \<and>
        snd_links sv = (False, False, False))"

definition segment_key :: "iphdr \<Rightarrow> tcphdr \<Rightarrow> flow" where
  "segment_key iph h = \<lparr>saddr = ip_dst iph, daddr = ip_src iph, sport = dest h, dport = source h\<rparr>"

lemma create_stream_ok:
  assumes ok: "mgr_ok m" and fresh: "fresh_streams E m"
    and new: "\<forall>t\<in>ht_members (flow_table m). \<not> equal_flow (streams m t) \<lparr>saddr = sa, daddr = da, sport = sp, dport = dp\<rparr>"
    and c: "create_tcp_stream E ty sa sp da dp m = (Some sid, m')"
  shows "mgr_ok m' \<and> (\<forall>t. t \<noteq> sid \<longrightarrow> streams m' t = streams m t) \<and> sid \<notin> ht_members (flow_table m) \<and>
    ht_members (flow_table m') = insert sid (ht_members (flow_table m)) \<and> listen_table m' = listen_table m \<and>
    saddr (streams m' sid) = sa \<and> daddr (streams m' sid) = da \<and> sport (streams m' sid) = sp \<and> dport (streams m' sid) = dp"
proof -
  obtain sv rv where g: "e_get_stream E m = Some sid" "e_snd_get E m = Some sv" "e_rcv_get E m = Some rv"
    using c by (auto simp: create_tcp_stream_def Let_def split: option.splits)
  define m1 where "m1 = upd sid (\<lambda>s. s\<lparr>sndvar := sv, rcvvar := rv, saddr := sa, sport := sp, daddr := da, dport := dp\<rparr>) m"
  define m2 where "m2 = m1\<lparr>flow_table := stream_ht_insert (streams m1) (flow_table m1) sid\<rparr>"
  define f where "f = (\<lambda>s :: tcp_stream. s\<lparr>stream_type := ty, state := CMT_TCP_LISTEN, on_rto_idx := - 1,
                  sndvar := init_send (e_rand E m2) (sndvar s), rcvvar := init_recv (rcvvar s),
                  snd_nxt := e_rand E m2 mod TCP_MAX_SEQ, rcv_nxt := 0\<rparr>)"
  have m': "m' = upd sid f m2"
    using c g by (simp add: create_tcp_stream_def Let_def m1_def m2_def f_def)
  have F: "sid \<notin> ht_members (flow_table m)" "on_rto_idx (streams m sid) < 0"
    "\<not> on_timewait_list (streams m sid)" "\<not> on_timeout_list (streams m sid)"
    "snd_links (sndvar (streams m sid)) = (False, False, False)" "snd_links sv = (False, False, False)"
    using fresh g by (auto simp: fresh_streams_def)
  have ht: "ht_ok hash_flow equal_flow (streams m) (flow_table m)" using ok by (simp add: mgr_ok_def)
  have ht1: "ht_ok hash_flow equal_flow (streams m1) (flow_table m)"
  proof -
    have "p \<noteq> sid" if "p \<in> set (table (flow_table m) i)" for p i
      using F(1) that by (auto simp: in_ht_members)
    then show ?thesis using ht by (auto simp: ht_ok_def m1_def)
  qed
  have key: "streams m1 sid = (streams m sid)\<lparr>sndvar := sv, rcvvar := rv, saddr := sa, sport := sp, daddr := da, dport := dp\<rparr>"
    by (simp add: m1_def)
  have none: "ht_search hash_flow equal_flow (streams m1) (flow_table m) (streams m1 sid) = None"
  proof -
    have "\<not> equal_flow (streams m1 p) (streams m1 sid)" if "p \<in> set (table (flow_table m) i)" for p i
    proof
      assume e: "equal_flow (streams m1 p) (streams m1 sid)"
      have "p \<noteq> sid" using F(1) that by (auto simp: in_ht_members)
      then have e': "equal_flow (streams m p) \<lparr>saddr = sa, daddr = da, sport = sp, dport = dp\<rparr>"
        using e by (simp add: m1_def equal_flow_def)
      then show False using new that by (auto simp: in_ht_members)
    qed
    then show ?thesis unfolding ht_search_def find_None_all using flows.eq_sym by blast
  qed
  have ft2: "flow_table m2 = ht_insert hash_flow (streams m1) (flow_table m) sid"
    by (simp add: m2_def m1_def stream_ht_insert_generic)
  have ht2: "ht_ok hash_flow equal_flow (streams m1) (flow_table m2)"
    unfolding ft2 by (rule flows.insert_ok [OF ht1 none])
  have "mgr_ok m'"
  proof -
    have s: "sender_ok m'" using ok F(5,6)
      by (intro sender_ok_frame [of m m'])
        (auto simp: mgr_ok_def m' m2_def m1_def f_def init_send_def snd_links_def)
    have t: "timers_ok m'" using ok F(2-4)
      by (auto simp: mgr_ok_def m' m2_def m1_def f_def timers_ok_def rto_ok_def list_ok_def on_tw_def on_to_def)
    have "ht_ok hash_flow equal_flow (streams m') (flow_table m2)"
      by (rule ht_ok_flow_frame [of m1]) (use ht2 in \<open>auto simp: m' m2_def f_def\<close>)
    then show ?thesis using s t by (simp add: mgr_ok_def m')
  qed
  moreover have "ht_members (flow_table m') = insert sid (ht_members (flow_table m))"
    using flows.insert_members [of _ "streams m1" "flow_table m" sid] by (auto simp: m' ft2)
  ultimately show ?thesis using F(1) by (simp add: m' m2_def m1_def f_def)
qed


text \<open>What is known of a created stream whatever the pools returned.\<close>

lemma create_tcp_stream_from_pool:
  "create_tcp_stream E ty sa sp da dp m = (Some sid, m') \<Longrightarrow> e_get_stream E m = Some sid"
  by (auto simp: create_tcp_stream_def Let_def split: option.splits)

lemma create_tcp_stream_others:
  "create_tcp_stream E ty sa sp da dp m = (Some sid, m') \<Longrightarrow> t \<noteq> sid \<Longrightarrow> t \<in> ht_members (flow_table m) \<Longrightarrow>
    streams m' t = streams m t \<and> t \<in> ht_members (flow_table m')"
  by (auto simp: create_tcp_stream_def Let_def stream_ht_insert_generic flows.insert_members split: option.splits)

lemma create_none: "create_tcp_stream E ty sa sp da dp m = (None, m') \<Longrightarrow> m' = m"
  by (auto simp: create_tcp_stream_def Let_def split: option.splits)

context mgr_closed
begin

lemma passive_closed:
  assumes p: "cmt_tcp_passive_open E ts iph h opts sq w m = Inr (Some sid, m')"
    and c: "\<And>k. create_tcp_stream E CMT_TCP_SOCK_STREAM (ip_dst iph) (dest h) (ip_src iph) (source h) m = (Some sid, k) \<Longrightarrow> P k"
    and mine: "mine sid"
  shows "P m'"
proof -
  obtain x k where k: "create_tcp_stream E CMT_TCP_SOCK_STREAM (ip_dst iph) (dest h) (ip_src iph) (source h) m = (x, k)"
    by fastforce
  have x: "x = Some sid" using p k
    by (cases x) (auto simp: cmt_tcp_passive_open_def Let_def andThen_Inr_iff)
  define m1 where "m1 = upd sid (\<lambda>s. s\<lparr>rcvvar := (rcvvar s)\<lparr>irs := sq\<rparr>, rcv_nxt := sq,
                              sndvar := (sndvar s)\<lparr>peer_wnd := ucast w, cwnd := 1\<rparr>\<rparr>) k"
  define m2 where "m2 = upd_rcv sid (\<lambda>r. r\<lparr>rcvbuf := e_rcvbuf_get E m1 (sq + 1)\<rparr>) m1"
  define m3 where "m3 = (if rcvbuf (rcvvar (streams m2 sid)) = None
                   then set_reason sid TCP_NO_MEM (set_state sid CMT_TCP_CLOSE m2) else m2)"
  have "P m1" unfolding m1_def using c k x mine by (intro plain_closed) (auto simp: links_def snd_links_def)
  then have "P m2" unfolding m2_def using mine by (rule rcv_closed)
  then have m3: "P m3" unfolding m3_def using mine by (auto intro: reason_closed state_closed)
  have "cmt_tcp_passive_open E ts iph h opts sq w m =
      andThen (parse_into E sid ts opts h m3) (\<lambda>m. Inr (Some sid, m))"
    by (simp only: cmt_tcp_passive_open_def k x option.case prod.case Let_def m3_def m2_def m1_def)
  then have "andThen (parse_into E sid ts opts h m3) (\<lambda>m. Inr (Some sid, m)) = Inr (Some sid, m')"
    using p by simp
  then have "parse_into E sid ts opts h m3 = Inr m'" by (simp add: andThen_Inr_iff)
  then show ?thesis by (rule parse_closed [OF m3 mine])
qed

end

lemma passive_open_cases:
  assumes "cmt_tcp_passive_open E ts iph h opts sq w m = Inr (r, m')"
  obtains "r = None" "m' = m"
  | sid k where "r = Some sid"
     "create_tcp_stream E CMT_TCP_SOCK_STREAM (ip_dst iph) (dest h) (ip_src iph) (source h) m = (Some sid, k)"
proof (cases "create_tcp_stream E CMT_TCP_SOCK_STREAM (ip_dst iph) (dest h) (ip_src iph) (source h) m")
  case (Pair x k)
  then show thesis using that assms
    by (cases x) (auto simp: cmt_tcp_passive_open_def Let_def andThen_Inr_iff dest: create_none)
qed

lemma create_stream_cases:
  assumes "cmt_create_stream E ts iph h opts sq a pl w m = Inr (r, m')"
  obtains (refused) c where "r = None" "m' = m \<or> m' = log_call c m"
  | (opened) sid where "r = Some sid" "syn h" "\<not> ack h" "cmt_tcp_filter_synpkt m (ip_dst iph) (dest h)"
     "cmt_tcp_passive_open E ts iph h opts sq w m = Inr (Some sid, m')"
proof (cases "syn h \<and> \<not> ack h \<and> cmt_tcp_filter_synpkt m (ip_dst iph) (dest h)")
  case True
  then obtain x k where k: "cmt_tcp_passive_open E ts iph h opts sq w m = Inr (x, k)"
    using assms by (auto simp: cmt_create_stream_def Let_def andThen_Inr_iff)
  show thesis
  proof (cases x)
    case None
    then have "k = m" using k by (auto elim: passive_open_cases)
    then show thesis using assms True k None refused
      by (auto simp: cmt_create_stream_def Let_def cmt_tcppkt_alone_def)
  next
    case (Some sid)
    then show thesis using assms True k opened by (auto simp: cmt_create_stream_def Let_def)
  qed
next
  case False
  then have "r = None \<and> (m' = m \<or> (\<exists>c. m' = log_call c m))"
    using assms by (auto simp: cmt_create_stream_def Let_def cmt_tcppkt_alone_def split: if_splits)
  then show thesis using refused by blast
qed

subsection \<open>The ways through a packet\<close>

lemma process_cases:
  assumes "cmt_tcp_process E iph bs m = Inr (r, m')"
  obtains (checksum) "r = - 1" "m' = m"
  | (refused) h c where "tcp_header bs = Inr h" "r = - 2" "m' = m \<or> m' = log_call c m"
     "stream_ht_search (streams m) (e_head E m (segment_key iph h)) (segment_key iph h) = Inr None"
  | (known) h sid ts opts sq a pl p w where "tcp_header bs = Inr h"
     "stream_ht_search (streams m) (e_head E m (segment_key iph h)) (segment_key iph h) = Inr (Some sid)"
     "process_segment E sid ts iph h opts sq a pl p w m = Inr (r, m')"
  | (opened) h sid k ts opts sq a pl p w where "tcp_header bs = Inr h"
     "stream_ht_search (streams m) (e_head E m (segment_key iph h)) (segment_key iph h) = Inr None"
     "cmt_tcp_passive_open E ts iph h opts sq w m = Inr (Some sid, k)"
     "process_segment E sid ts iph h opts sq a pl p w k = Inr (r, m')"
proof -
  have ihl: "ihl iph = 5" using assms by (auto simp: cmt_tcp_process_def split: if_splits)
  obtain h where h: "tcp_header bs = Inr h"
    using assms ihl by (auto simp: cmt_tcp_process_def andThen_Inr_iff)
  define len where "len = int (unat (ntohs (tot_len iph))) - int (4 * ihl iph)"
  define pl where "pl = drop (4 * doff h) bs"
  define p where "p = len - int (4 * doff h)"
  define ts where "ts = TIMEVAL_TO_TS (e_timeval E)"
  let ?opts = "drop 20 bs" and ?sq = "ntohl (seq h)" and ?a = "ntohl (ack_seq h)" and ?w = "ntohs (window h)"
  obtain ck where ck: "cmt_tcp_calculate_checksum (e_proto E) bs (word_of_int len) (ip_src iph) (ip_dst iph) = Inr ck"
    using assms ihl h by (auto simp: cmt_tcp_process_def andThen_Inr_iff Let_def len_def)
  let ?search = "stream_ht_search (streams m) (e_head E m (segment_key iph h)) (segment_key iph h)"
  have eq: "(if ck \<noteq> 0 then Inr (- 1, m)
        else andThen ?search (\<lambda>found.
          andThen (case found of
                     Some sid \<Rightarrow> Inr (Some sid, m)
                   | None \<Rightarrow> cmt_create_stream E ts iph h ?opts ?sq ?a p ?w m) (\<lambda>(x, m).
          case x of
            None \<Rightarrow> Inr (- 2, m)
          | Some sid \<Rightarrow> process_segment E sid ts iph h ?opts ?sq ?a pl p ?w m))) = Inr (r, m')"
    using assms ck unfolding cmt_tcp_process_def Let_def segment_key_def len_def pl_def p_def ts_def
    by (cases "ck = 0") (simp_all add: ihl h ck)
  show thesis
  proof (cases "ck = 0")
    case False
    then show thesis using eq checksum by simp
  next
    case True
    then obtain found where f: "?search = Inr found" using eq by (auto simp: andThen_Inr_iff)
    show thesis
    proof (cases found)
      case (Some sid)
      then show thesis using eq f True known [OF h, of sid] by simp
    next
      case None
      then obtain x k where x: "cmt_create_stream E ts iph h ?opts ?sq ?a p ?w m = Inr (x, k)"
        "(case x of None \<Rightarrow> Inr (- 2, k) | Some sid \<Rightarrow> process_segment E sid ts iph h ?opts ?sq ?a pl p ?w k) = Inr (r, m')"
        using eq f True by (auto simp: andThen_Inr_iff)
      have n: "?search = Inr None" using f None by simp
      from x(1) show thesis
      proof (cases rule: create_stream_cases)
        case (refused c)
        then show thesis using x(2) that(2) [OF h _ _ n] by simp
      next
        case (opened sid)
        then show thesis using x(2) that(4) [OF h n] by simp
      qed
    qed
  qed
qed

text \<open>A stream that has just been opened is in one of two states.\<close>

lemma passive_open_state:
  assumes "cmt_tcp_passive_open E ts iph h opts sq w m = Inr (Some sid, m')"
  shows "state (streams m' sid) = CMT_TCP_LISTEN \<or> state (streams m' sid) = CMT_TCP_CLOSE"
proof -
  obtain x k where k: "create_tcp_stream E CMT_TCP_SOCK_STREAM (ip_dst iph) (dest h) (ip_src iph) (source h) m = (x, k)"
    by fastforce
  have x: "x = Some sid" using assms k
    by (cases x) (auto simp: cmt_tcp_passive_open_def Let_def andThen_Inr_iff)
  have st: "state (streams k sid) = CMT_TCP_LISTEN"
    using k x by (auto simp: create_tcp_stream_def Let_def split: option.splits)
  obtain n where n: "parse_into E sid ts opts h n = Inr m'"
    "state (streams n sid) = CMT_TCP_LISTEN \<or> state (streams n sid) = CMT_TCP_CLOSE"
    using assms st by (auto simp: cmt_tcp_passive_open_def k x Let_def andThen_Inr_iff split: if_splits)
  then show ?thesis using parse_state [OF n(1), of sid] by simp
qed

subsection \<open>A manager with a listener and a packet for it\<close>

definition quiet_env :: env where
  "quiet_env = \<lparr>e_get_stream = (\<lambda>_. Some 1), e_snd_get = (\<lambda>_. Some blank_send),
     e_rcv_get = (\<lambda>_. Some blank_recv),
     e_rcvbuf_get = (\<lambda>_ sq. Some \<lparr>rb_cum_len = 0, rb_last_len = 0, rb_chunk_size = 8192,
        rb_head_seq = sq, rb_init_seq = sq, fctx = None\<rparr>),
     e_rand = (\<lambda>_. 1000), e_timeval = (1, 0), e_recv_put = (\<lambda>b _ _ _. Inr (0, b)),
     e_recv_remove = (\<lambda>b _. Inr (0, b)), e_next_index = cyclic_succ, e_flush = (\<lambda>r. r),
     e_close_wait = (\<lambda>_ _ _ _ _ _ _ m. Inr m),
     e_head = (\<lambda>m key. Inr (table (flow_table m) (unat (hash_flow key)))), e_proto = 6, e_fuel = 10\<rparr>"

definition listening_mgr :: mgr where
  "listening_mgr = idle_mgr\<lparr>lsnrs := (\<lambda>_. \<lparr>l_port = 20480, l_addr = 5,
       acceptq = \<lparr>sq_capacity = 1, sq_head = 0, sq_tail = 0, sq_q = [None, None]\<rparr>\<rparr>),
     listen_table := \<lparr>ht_count = 1, bins = 0, table = (\<lambda>i. if i = 0 then [0] else [])\<rparr>\<rparr>"

definition syn_packet :: "u8 list" where
  "syn_packet = [18, 52, 0, 80, 0, 0, 0, 7, 0, 0, 0, 0, 80, 2, 255, 255, 143, 88, 0, 0]"

definition from_nine :: iphdr where
  "from_nine = \<lparr>ip_src = 9, ip_dst = 5, ihl = 5, tot_len = 0x2800\<rparr>"

definition syn_hdr :: tcphdr where
  "syn_hdr = \<lparr>source = 13330, dest = 20480, seq = 117440512, ack_seq = 0, doff = 5, fin = False,
     syn = True, rst = False, psh = False, ack = False, urg = False, window = 65535, check = 22671\<rparr>"

lemma syn_packet_header: "tcp_header syn_packet = Inr syn_hdr"
  by (simp add: tcp_header_def syn_packet_def syn_hdr_def le16_def le32_def)

lemma syn_packet_checksum: "cmt_tcp_calculate_checksum 6 syn_packet 20 9 5 = Inr 0"
  by (simp add: cmt_tcp_calculate_checksum_def sum_buf_def odd_word_def syn_packet_def word_le_def fold_sum_def pseudo_sum_def htons_def)

lemma listening_ok: "mgr_ok listening_mgr"
  unfolding listening_mgr_def by (rule mgr_ok_frame [OF idle_mgr_ok]) simp_all

lemma quiet_fresh: "fresh_streams quiet_env listening_mgr"
  by (simp add: fresh_streams_def quiet_env_def listening_mgr_def idle_defs in_ht_members snd_links_def)

end
