(* ===== verification/Tcp_Handshake.thy ===== *)
theory Tcp_Handshake
  imports Tcp_Process
begin

text \<open>
  The passive opening of a connection, from the SYN of the client to the accept queue.
\<close>

subsection \<open>The first segment\<close>

lemma parse_no_options:
  "doff h = 5 \<Longrightarrow> 0 < e_fuel E \<Longrightarrow> parse_into E s ts opts h m = Inr m"
  by (cases "e_fuel E")
    (simp_all add: parse_into_def cmt_tcp_parse_options_def TCP_HEADER_LEN_def upd_def parse_options_loop.simps)

lemma create_spec:
  assumes "e_get_stream E m = Some s" "e_snd_get E m = Some sv" "e_rcv_get E m = Some rv"
    "create_tcp_stream E ty sa sp da dp m = (r, k)"
  shows "r = Some s" "snd_nxt (streams k s) = iss (sndvar (streams k s))" "state (streams k s) = CMT_TCP_LISTEN"
    "saddr (streams k s) = sa" "daddr (streams k s) = da" "sport (streams k s) = sp" "dport (streams k s) = dp"
    "\<exists>rest. table (flow_table k) (unat (hash_flow \<lparr>saddr = sa, daddr = da, sport = sp, dport = dp\<rparr>)) = s # rest"
    "snder k = snder m" "on_control_list (sndvar (streams k s)) = on_control_list sv"
proof -
  have "hash_flow ((streams m s)\<lparr>sndvar := sv, rcvvar := rv, saddr := sa, sport := sp, daddr := da, dport := dp\<rparr>) =
      hash_flow \<lparr>saddr = sa, daddr = da, sport = sp, dport = dp\<rparr>"
    by (rule hash_flow_cong) (simp add: equal_flow_def)
  then show "r = Some s" "snd_nxt (streams k s) = iss (sndvar (streams k s))" "state (streams k s) = CMT_TCP_LISTEN"
    "saddr (streams k s) = sa" "daddr (streams k s) = da" "sport (streams k s) = sp" "dport (streams k s) = dp"
    "\<exists>rest. table (flow_table k) (unat (hash_flow \<lparr>saddr = sa, daddr = da, sport = sp, dport = dp\<rparr>)) = s # rest"
    "snder k = snder m" "on_control_list (sndvar (streams k s)) = on_control_list sv"
    using assms by (auto simp: create_tcp_stream_def Let_def init_send_def stream_ht_insert_def)
qed

lemma listen_refreshed:
  assumes "state (streams k s) = CMT_TCP_LISTEN" "syn h" "\<not> rst h"
  shows "process_segment E s ts iph h opts sq a pl p w k =
    Inr (1, cmt_tcp_addto_controllist s (set_state s CMT_TCP_SYN_RCVD
      (upd s (\<lambda>s. s\<lparr>rcv_nxt := rcv_nxt s + 1\<rparr>) (refreshed s ts (ucast w) h k))))"
  using assms by (simp add: process_segment_def state_order Let_def dispatch_def cmt_tcp_handle_listen_def refreshed_stream)

text \<open>
  C8: A SYN for a listening address opens a connection. When the pools have a stream, a send, a
  receive part and a receive buffer left, a SYN without options for an address and port the
  filter admits creates a stream and leaves it in SYN_RCVD, expecting the byte after the peer's
  initial number, as the first stream of the bucket of its flow. The stream is appended to the
  control list, from which the SYN-ACK is sent, if the send part the pool returned does not say
  that it is on that list; if it does (nothing clears the flag of a part that is used again), the
  control list stays as it was and no SYN-ACK is due.
\<close>

theorem passive_open_syn:
  assumes seg: "syn h" "\<not> ack h" "\<not> rst h" "doff h = 5" "0 < e_fuel E"
    and filter: "cmt_tcp_filter_synpkt m (ip_dst iph) (dest h)"
    and pool: "e_get_stream E m = Some s" "e_snd_get E m = Some sv" "e_rcv_get E m = Some rv"
      "\<forall>k. e_rcvbuf_get E k (sq + 1) = Some b"
  shows "\<exists>k m'. cmt_create_stream E ts iph h opts sq a pl w m = Inr (Some s, k) \<and>
     process_segment E s ts iph h opts sq a payload pl w k = Inr (1, m') \<and>
     state (streams m' s) = CMT_TCP_SYN_RCVD \<and> irs (rcvvar (streams m' s)) = sq \<and>
     rcv_nxt (streams m' s) = sq + 1 \<and> snd_nxt (streams m' s) = iss (sndvar (streams m' s)) \<and>
     on_control_list (sndvar (streams m' s)) \<and>
     control_list (snder m') = (if on_control_list sv then control_list (snder m) else control_list (snder m) @ [s]) \<and>
     equal_flow (streams m' s) (segment_key iph h) \<and>
     (\<exists>rest. table (flow_table m') (unat (hash_flow (segment_key iph h))) = s # rest)"
proof -
  obtain r j where rj: "create_tcp_stream E CMT_TCP_SOCK_STREAM (ip_dst iph) (dest h) (ip_src iph) (source h) m = (r, j)"
    by fastforce
  note c = create_spec [OF pool(1-3) rj]
  define k where "k = upd_rcv s (\<lambda>r. r\<lparr>rcvbuf := Some b\<rparr>)
     (upd s (\<lambda>s. s\<lparr>rcvvar := (rcvvar s)\<lparr>irs := sq\<rparr>, rcv_nxt := sq,
                              sndvar := (sndvar s)\<lparr>peer_wnd := ucast w, cwnd := 1\<rparr>\<rparr>) j)"
  have "cmt_tcp_passive_open E ts iph h opts sq w m = Inr (Some s, k)"
    using seg pool(4) c(1) by (simp add: cmt_tcp_passive_open_def rj Let_def parse_no_options k_def)
  then have k: "cmt_create_stream E ts iph h opts sq a pl w m = Inr (Some s, k)"
    using seg filter by (simp add: cmt_create_stream_def)
  have st: "state (streams k s) = CMT_TCP_LISTEN" using c(3) by (simp add: k_def)
  let ?r = "upd s (\<lambda>s. s\<lparr>rcv_nxt := rcv_nxt s + 1\<rparr>) (refreshed s ts (ucast w) h k)"
  have tab: "flow_table ?r = flow_table j" "snder ?r = snder m"
    "on_control_list (sndvar (streams ?r s)) = on_control_list sv"
    using seg(3) c(9,10) by (simp_all add: refreshed_def Let_def k_def)
  define m' where "m' = cmt_tcp_addto_controllist s (set_state s CMT_TCP_SYN_RCVD
      (upd s (\<lambda>s. s\<lparr>rcv_nxt := rcv_nxt s + 1\<rparr>) (refreshed s ts (ucast w) h k)))"
  have ft: "flow_table m' = flow_table j" using tab(1) by (simp add: m'_def)
  have cl: "control_list (snder m') = (if on_control_list sv then control_list (snder m) else control_list (snder m) @ [s])"
    using tab(2,3) by (simp add: m'_def cmt_tcp_addto_controllist_def cmt_tcp_getsender_def Let_def)
  have fl: "saddr (streams m' s) = ip_dst iph" "daddr (streams m' s) = ip_src iph"
    "sport (streams m' s) = dest h" "dport (streams m' s) = source h"
    using c(4-7) by (simp_all add: m'_def refreshed_stream k_def)
  have "equal_flow (streams m' s) (segment_key iph h)"
    "\<exists>rest. table (flow_table m') (unat (hash_flow (segment_key iph h))) = s # rest"
    using c(8) fl by (simp_all add: ft equal_flow_def segment_key_def)
  then show ?thesis using cl k listen_refreshed [OF st seg(1,3), folded m'_def] c(2)
    by (intro exI [of _ k] exI [of _ m']) (simp add: m'_def refreshed_stream k_def)
qed

theorem passive_open_syn_witness:
  "\<exists>k m'. cmt_create_stream quiet_env 0 from_nine syn_hdr [] 7 0 0 65535 listening_mgr = Inr (Some 1, k) \<and>
     process_segment quiet_env 1 0 from_nine syn_hdr [] 7 0 [] 0 65535 k = Inr (1, m') \<and>
     state (streams m' 1) = CMT_TCP_SYN_RCVD \<and> rcv_nxt (streams m' 1) = 8 \<and> control_list (snder m') = [1]"
proof -
  have "cmt_tcp_filter_synpkt listening_mgr (ip_dst from_nine) (dest syn_hdr)"
    by (simp add: cmt_tcp_filter_synpkt_def listening_mgr_def listen_ht_search_def hash_listener_def
        equal_listener_def from_nine_def syn_hdr_def INADDR_ANY_def NUM_BINS_LISTENER_def)
  from passive_open_syn [of syn_hdr quiet_env listening_mgr from_nine 1 blank_send blank_recv 7, OF _ _ _ _ _ this]
  show ?thesis by (fastforce simp: syn_hdr_def quiet_env_def blank_send_def listening_mgr_def idle_mgr_def)
qed

subsection \<open>The third segment\<close>

lemma syn_rcvd_completes:
  assumes h: "ack h" and a: "a = iss (sndvar (streams m s)) + 1"
    and l: "listen_ht_search (\<lambda>l. l_port (lsnrs m l)) (listen_table m) (dest h) = Some l"
    and nx: "\<forall>cap i. unat i \<le> unat cap \<longrightarrow> unat (e_next_index E cap i) = Suc (unat i) mod Suc (unat cap)"
    and inv: "sq_inv (acceptq (lsnrs m l))" and nt: "\<not> on_timeout_list (streams m s)"
  shows "\<exists>m'. cmt_tcp_handle_syn_rcvd E s h a m = Inr m' \<and> on_timeout_list (streams m' s) \<and>
        on_rto_idx (streams m' s) < 0 \<and> sq_inv (acceptq (lsnrs m' l)) \<and>
        (if length (sq_contents (acceptq (lsnrs m l))) < unat (sq_capacity (acceptq (lsnrs m l)))
         then state (streams m' s) = CMT_TCP_ESTABLISHED \<and>
           sq_contents (acceptq (lsnrs m' l)) = sq_contents (acceptq (lsnrs m l)) @ [s]
         else state (streams m' s) = CMT_TCP_CLOSE \<and> close_reason (streams m' s) = TCP_NOT_ACCEPTED \<and>
           on_control_list (sndvar (streams m' s)) \<and>
           sq_contents (acceptq (lsnrs m' l)) = sq_contents (acceptq (lsnrs m l)))"
proof -
  let ?m1 = "upd s (\<lambda>s. s\<lparr>snd_nxt := a, rcv_nxt := irs (rcvvar s) + 1,
                sndvar := (sndvar s)\<lparr>snd_una := snd_una (sndvar s) + 1, nrtx := 0,
                  cwnd := (if cwnd (sndvar s) = 1 then ucast (mss (sndvar s)) * 2 else ucast (mss (sndvar s)))\<rparr>\<rparr>) m"
  let ?m2 = "set_state s CMT_TCP_ESTABLISHED (remove_from_rto_list s ?m1)"
  have eq: "cmt_tcp_handle_syn_rcvd E s h a m = syn_rcvd_accept E s h ?m2"
    unfolding cmt_tcp_handle_syn_rcvd_def Let_def using h a by simp
  have same: "lsnrs ?m2 = lsnrs m" "listen_table ?m2 = listen_table m"
    by (simp_all add: remove_from_rto_list_def rto_remove_def set_rto_idx_def Let_def)
  have n: "next_index (e_next_index E)" using nx by unfold_locales blast
  let ?q = "acceptq (lsnrs m l)" and ?room = "length (sq_contents (acceptq (lsnrs m l))) < unat (sq_capacity (acceptq (lsnrs m l)))"
  obtain q where q: "stream_enqueue (e_next_index E) ?q s = Inr (if ?room then 0 else - 1, q)" "sq_inv q"
    "sq_contents q = (if ?room then sq_contents ?q @ [s] else sq_contents ?q)"
    using next_index.enqueue_spec [OF n inv, of s] by blast
  define m3 where "m3 = ?m2\<lparr>lsnrs := (lsnrs m)(l := (lsnrs m l)\<lparr>acceptq := q\<rparr>)\<rparr>"
  define m4 where "m4 = (if ?room then m3 else cmt_tcp_addto_controllist s
                     (upd s (\<lambda>s. s\<lparr>close_reason := TCP_NOT_ACCEPTED, state := CMT_TCP_CLOSE\<rparr>) m3))"
  have acc: "syn_rcvd_accept E s h ?m2 = add_to_timeout_list s m4"
    unfolding syn_rcvd_accept_def same l option.case q(1) by (simp add: m4_def m3_def)
  have "lsnrs m4 = lsnrs m3"
    by (simp add: m4_def sender_list_defs Let_def)
  then have q4: "acceptq (lsnrs m4 l) = q" by (simp add: m3_def)
  have m4: "on_rto_idx (streams m4 s) < 0" "\<not> on_timeout_list (streams m4 s)"
    "if ?room then state (streams m4 s) = CMT_TCP_ESTABLISHED
     else state (streams m4 s) = CMT_TCP_CLOSE \<and> close_reason (streams m4 s) = TCP_NOT_ACCEPTED \<and>
       on_control_list (sndvar (streams m4 s))"
    using nt by (auto simp: m4_def m3_def)
  show ?thesis
    unfolding eq acc using m4 q q4 by (simp add: add_to_timeout_list_def)
qed

text \<open>
  C9: The ACK that completes a passive opening. With any acknowledgement number but the one after
  the initial number the process exits; without a listener on the port it dereferences null.
  Otherwise, with a well-formed accept queue, the stream becomes ESTABLISHED, leaves the
  retransmission slots and enters the accept queue at its tail and the timeout list; if the queue
  is full it is closed with the reason NOT_ACCEPTED instead, with a packet due, and the queue is
  as it was.
\<close>

theorem handshake_outcomes:
  assumes "ack h"
  shows "(a \<noteq> iss (sndvar (streams m s)) + 1 \<longrightarrow> cmt_tcp_handle_syn_rcvd E s h a m = Inl ProcessExit) \<and>
    (a = iss (sndvar (streams m s)) + 1 \<longrightarrow>
      listen_ht_search (\<lambda>l. l_port (lsnrs m l)) (listen_table m) (dest h) = None \<longrightarrow>
      cmt_tcp_handle_syn_rcvd E s h a m = Inl NullDeref) \<and>
    (a = iss (sndvar (streams m s)) + 1 \<longrightarrow>
      listen_ht_search (\<lambda>l. l_port (lsnrs m l)) (listen_table m) (dest h) = Some l \<longrightarrow>
      (\<forall>cap i. unat i \<le> unat cap \<longrightarrow> unat (e_next_index E cap i) = Suc (unat i) mod Suc (unat cap)) \<longrightarrow>
      sq_inv (acceptq (lsnrs m l)) \<longrightarrow> \<not> on_timeout_list (streams m s) \<longrightarrow>
      (\<exists>m'. cmt_tcp_handle_syn_rcvd E s h a m = Inr m' \<and> on_timeout_list (streams m' s) \<and>
        on_rto_idx (streams m' s) < 0 \<and> sq_inv (acceptq (lsnrs m' l)) \<and>
        (if length (sq_contents (acceptq (lsnrs m l))) < unat (sq_capacity (acceptq (lsnrs m l)))
         then state (streams m' s) = CMT_TCP_ESTABLISHED \<and>
           sq_contents (acceptq (lsnrs m' l)) = sq_contents (acceptq (lsnrs m l)) @ [s]
         else state (streams m' s) = CMT_TCP_CLOSE \<and> close_reason (streams m' s) = TCP_NOT_ACCEPTED \<and>
           on_control_list (sndvar (streams m' s)) \<and>
           sq_contents (acceptq (lsnrs m' l)) = sq_contents (acceptq (lsnrs m l)))))"
proof (intro conjI impI, goal_cases)
  case 1
  then show ?case using assms by (simp add: cmt_tcp_handle_syn_rcvd_def)
next
  case 2
  then show ?case using assms
    by (simp add: cmt_tcp_handle_syn_rcvd_def syn_rcvd_accept_def Let_def remove_from_rto_list_def
        rto_remove_def set_rto_idx_def)
next
  case 3
  show ?case by (rule syn_rcvd_completes [OF assms 3])
qed

definition rcvd_mgr :: mgr where
  "rcvd_mgr = upd 1 (\<lambda>s. s\<lparr>state := CMT_TCP_SYN_RCVD, sndvar := (sndvar s)\<lparr>iss := 1000\<rparr>\<rparr>) listening_mgr"

lemma rcvd_mgr_listener:
  "listen_ht_search (\<lambda>l. l_port (lsnrs rcvd_mgr l)) (listen_table rcvd_mgr) 20480 = Some 0"
  by (simp add: rcvd_mgr_def listening_mgr_def listen_ht_search_def hash_listener_def equal_listener_def
      NUM_BINS_LISTENER_def)

theorem handshake_outcomes_witness:
  "(\<exists>m'. cmt_tcp_handle_syn_rcvd quiet_env 1 (syn_hdr\<lparr>syn := False, ack := True\<rparr>) 1001 rcvd_mgr = Inr m' \<and>
    state (streams m' 1) = CMT_TCP_ESTABLISHED \<and> sq_contents (acceptq (lsnrs m' 0)) = [1]) \<and>
   cmt_tcp_handle_syn_rcvd quiet_env 1 (syn_hdr\<lparr>syn := False, ack := True\<rparr>) 1002 rcvd_mgr = Inl ProcessExit \<and>
   cmt_tcp_handle_syn_rcvd quiet_env 1 (syn_hdr\<lparr>syn := False, ack := True\<rparr>) 1001
     (rcvd_mgr\<lparr>listen_table := \<lparr>ht_count = 0, bins = 0, table = (\<lambda>_. [])\<rparr>\<rparr>) = Inl NullDeref"
proof (intro conjI)
  let ?h = "syn_hdr\<lparr>syn := False, ack := True\<rparr>"
  have q: "acceptq (lsnrs rcvd_mgr 0) = \<lparr>sq_capacity = 1, sq_head = 0, sq_tail = 0, sq_q = [None, None]\<rparr>"
    by (simp add: rcvd_mgr_def listening_mgr_def)
  have c: "sq_contents (acceptq (lsnrs rcvd_mgr 0)) = []" "sq_inv (acceptq (lsnrs rcvd_mgr 0))"
    by (simp_all add: q sq_contents_def sq_cells_def sq_count_def sq_slots_def cyc_slice_def sq_inv_def)
  have f: "1001 = iss (sndvar (streams rcvd_mgr 1)) + 1" "\<not> on_timeout_list (streams rcvd_mgr 1)"
    by (simp_all add: rcvd_mgr_def listening_mgr_def idle_defs)
  have l: "listen_ht_search (\<lambda>l. l_port (lsnrs rcvd_mgr l)) (listen_table rcvd_mgr) (dest ?h) = Some 0"
    using rcvd_mgr_listener by (simp add: syn_hdr_def)
  have n: "\<forall>cap i. unat i \<le> unat cap \<longrightarrow>
      unat (e_next_index quiet_env cap i) = Suc (unat i) mod Suc (unat cap)"
    using cyc.next_law by (simp add: quiet_env_def)
  have h: "ack ?h" by simp
  show "\<exists>m'. cmt_tcp_handle_syn_rcvd quiet_env 1 ?h 1001 rcvd_mgr = Inr m' \<and>
    state (streams m' 1) = CMT_TCP_ESTABLISHED \<and> sq_contents (acceptq (lsnrs m' 0)) = [1]"
    using handshake_outcomes [OF h, THEN conjunct2, THEN conjunct2, rule_format, OF f(1) l n [rule_format] c(2) f(2)] c(1) q by auto
  show "cmt_tcp_handle_syn_rcvd quiet_env 1 ?h 1002 rcvd_mgr = Inl ProcessExit"
    using handshake_outcomes [OF h, THEN conjunct1, of 1002 rcvd_mgr 1] f(1) by simp
  show "cmt_tcp_handle_syn_rcvd quiet_env 1 ?h 1001
     (rcvd_mgr\<lparr>listen_table := \<lparr>ht_count = 0, bins = 0, table = (\<lambda>_. [])\<rparr>\<rparr>) = Inl NullDeref"
    by (rule handshake_outcomes [THEN conjunct2, THEN conjunct1, rule_format]) (use f(1) in \<open>simp_all add: listen_ht_search_def\<close>)
qed

end
