(* ===== verification/Tcp_Transitions.thy ===== *)
theory Tcp_Transitions
  imports Tcp_Handshake
begin

text \<open>
  The connection states: the edges a segment may take a stream along, which handler takes which,
  and what makes a stream ESTABLISHED. Then the checks in front of the handlers: the acceptance
  window, the window scale, segments for no stream.
\<close>

subsection \<open>The edges\<close>

text \<open>
  The edges of \<open>src/tcp.c\<close> for a segment with header \<open>h\<close>. The handler of CLOSE_WAIT is not
  in the repository, so its edges are only those of a reset.
\<close>

inductive segment_edge :: "tcphdr \<Rightarrow> tcp_state \<Rightarrow> tcp_state \<Rightarrow> bool" for h where
  stay: "segment_edge h s s"
| reset_closes: "rst h \<Longrightarrow> CMT_TCP_SYN_SENT < s \<Longrightarrow> s \<notin> {CMT_TCP_ESTABLISHED, CMT_TCP_CLOSE_WAIT} \<Longrightarrow>
    segment_edge h s CMT_TCP_CLOSE"
| reset_established: "rst h \<Longrightarrow> segment_edge h CMT_TCP_ESTABLISHED CMT_TCP_CLOSE_WAIT"
| listen: "syn h \<Longrightarrow> segment_edge h CMT_TCP_LISTEN CMT_TCP_SYN_RCVD"
| sent_reset: "rst h \<Longrightarrow> ack h \<Longrightarrow> segment_edge h CMT_TCP_SYN_SENT CMT_TCP_CLOSE_WAIT"
| sent_established: "syn h \<Longrightarrow> ack h \<Longrightarrow> \<not> rst h \<Longrightarrow> segment_edge h CMT_TCP_SYN_SENT CMT_TCP_ESTABLISHED"
| sent_other: "\<not> (rst h \<and> ack h) \<Longrightarrow> \<not> (syn h \<and> ack h) \<Longrightarrow> segment_edge h CMT_TCP_SYN_SENT CMT_TCP_SYN_RCVD"
| rcvd_established: "ack h \<Longrightarrow> \<not> rst h \<Longrightarrow> segment_edge h CMT_TCP_SYN_RCVD CMT_TCP_ESTABLISHED"
| rcvd_refused: "ack h \<Longrightarrow> \<not> rst h \<Longrightarrow> segment_edge h CMT_TCP_SYN_RCVD CMT_TCP_CLOSE"
| rcvd_fin: "ack h \<Longrightarrow> fin h \<Longrightarrow> \<not> rst h \<Longrightarrow> segment_edge h CMT_TCP_SYN_RCVD CMT_TCP_CLOSE_WAIT"
| no_memory: "s \<in> {CMT_TCP_ESTABLISHED, CMT_TCP_FIN_WAIT_1, CMT_TCP_FIN_WAIT_2} \<Longrightarrow> \<not> rst h \<Longrightarrow>
    segment_edge h s CMT_TCP_CLOSE"
| passive_close: "fin h \<Longrightarrow> \<not> rst h \<Longrightarrow> segment_edge h CMT_TCP_ESTABLISHED CMT_TCP_CLOSE_WAIT"
| last_ack: "ack h \<Longrightarrow> \<not> rst h \<Longrightarrow> segment_edge h CMT_TCP_LAST_ACK CMT_TCP_CLOSE"
| fin_acked: "ack h \<Longrightarrow> \<not> rst h \<Longrightarrow> segment_edge h CMT_TCP_FIN_WAIT_1 CMT_TCP_FIN_WAIT_2"
| simultaneous: "ack h \<Longrightarrow> fin h \<Longrightarrow> \<not> rst h \<Longrightarrow> segment_edge h CMT_TCP_FIN_WAIT_1 CMT_TCP_FIN_CLOSING"
| both_closed: "ack h \<Longrightarrow> fin h \<Longrightarrow> \<not> rst h \<Longrightarrow> s \<in> {CMT_TCP_FIN_WAIT_1, CMT_TCP_FIN_WAIT_2} \<Longrightarrow>
    segment_edge h s CMT_TCP_TIME_WAIT"
| closing_acked: "ack h \<Longrightarrow> \<not> rst h \<Longrightarrow> segment_edge h CMT_TCP_FIN_CLOSING CMT_TCP_TIME_WAIT"

subsection \<open>The handlers and the state\<close>

lemma flush_state [simp]: "state (streams (flush_read E s m) t) = state (streams m t)"
  by (rule stm.flush_closed) simp_all

lemma payload_state:
  assumes "cmt_tcp_process_payload E s pl sq p m = Inr (r, m')"
  shows "state (streams m' s) = state (streams m s) \<or> state (streams m' s) = CMT_TCP_CLOSE"
  using assms by (auto simp: cmt_tcp_process_payload_def Let_def andThen_Inr_iff split: if_splits option.splits)

lemma take_payload_state:
  assumes "take_payload E s pl sq p m = Inr m'"
  shows "state (streams m' s) = state (streams m s) \<or> state (streams m' s) = CMT_TCP_CLOSE"
  using assms payload_state [of E s pl sq p m]
  by (fastforce simp: take_payload_def andThen_Inr_iff split: if_splits)

lemma buffered_state:
  "ack_if_buffered s ts h sq a w p m = Inr m' \<Longrightarrow> state (streams m' t) = state (streams m t)"
  by (rule stm.buffered_closed [OF refl]) simp_all

lemma rtx_state:
  "update_retransmission_timer s ts m = Inr m' \<Longrightarrow> state (streams m' t) = state (streams m t)"
  by (rule stm.rtx_timer_closed [OF refl]) simp_all

lemma established_state:
  assumes "cmt_tcp_handle_established E s ts h sq a pl p w m = Inr m'"
  shows "state (streams m' s) \<in> {state (streams m s), CMT_TCP_CLOSE} \<or> (fin h \<and> state (streams m' s) = CMT_TCP_CLOSE_WAIT)"
proof (cases "syn h")
  case True
  then show ?thesis using assms by (auto simp: cmt_tcp_handle_established_def)
next
  case False
  then obtain k l where k: "take_payload E s pl sq p m = Inr k"
    "(if ack h then ack_if_buffered s ts h sq a w p k else Inr k) = Inr l"
    "m' = (if fin h then established_fin E s (sq + word_of_int p) l else l)"
    using assms by (auto simp: cmt_tcp_handle_established_def andThen_Inr_iff)
  have "state (streams l s) = state (streams k s)" using k(2) by (auto split: if_splits dest: buffered_state)
  then show ?thesis using take_payload_state [OF k(1)] unfolding k(3)
    by (auto simp: established_fin_def)
qed

lemma last_ack_state:
  assumes "cmt_tcp_handle_last_ack s ts h sq a p w m = Inr m'"
  shows "state (streams m' s) = state (streams m s) \<or> (ack h \<and> state (streams m' s) = CMT_TCP_CLOSE)"
  using assms by (auto simp: cmt_tcp_handle_last_ack_def andThen_Inr_iff split: if_splits dest: buffered_state)

lemma fin_wait_1_acked_state:
  "state (streams (fin_wait_1_acked s a m) s) \<in> {state (streams m s), CMT_TCP_FIN_WAIT_2}"
  by (auto simp: fin_wait_1_acked_def Let_def)

lemma fin_wait_1_fin_state:
  assumes "fin_wait_1_fin s ts e m = Inr m'"
  shows "state (streams m' s) = state (streams m s) \<or>
    (state (streams m s) = CMT_TCP_FIN_WAIT_1 \<and> state (streams m' s) = CMT_TCP_FIN_CLOSING) \<or>
    (state (streams m s) = CMT_TCP_FIN_WAIT_2 \<and> state (streams m' s) = CMT_TCP_TIME_WAIT)"
  using assms by (auto simp: fin_wait_1_fin_def Let_def split: if_splits)

lemma fin_wait_1_state:
  assumes "cmt_tcp_handle_fin_wait_1 E s ts h sq a pl p w m = Inr m'" "state (streams m s) = CMT_TCP_FIN_WAIT_1"
  shows "state (streams m' s) = CMT_TCP_FIN_WAIT_1 \<or> state (streams m' s) = CMT_TCP_CLOSE \<or>
    (ack h \<and> state (streams m' s) = CMT_TCP_FIN_WAIT_2) \<or>
    (ack h \<and> fin h \<and> state (streams m' s) \<in> {CMT_TCP_FIN_CLOSING, CMT_TCP_TIME_WAIT})"
proof (cases "TCP_SEQ_LT sq (rcv_nxt (streams m s)) \<or> \<not> ack h")
  case True
  then have "m' = cmt_tcp_addto_controllist s m \<or> m' = m"
    using assms(1) by (auto simp: cmt_tcp_handle_fin_wait_1_def split: if_splits)
  then show ?thesis using assms(2) by auto
next
  case False
  then obtain k l where k: "ack_if_buffered s ts h sq a w p m = Inr k"
      "take_payload E s pl sq p (fin_wait_1_acked s a k) = Inr l"
      "(if fin h then fin_wait_1_fin s ts (sq + word_of_int p) l else Inr l) = Inr m'"
    using assms(1) by (auto simp: cmt_tcp_handle_fin_wait_1_def andThen_Inr_iff)
  have "state (streams l s) \<in> {CMT_TCP_FIN_WAIT_1, CMT_TCP_FIN_WAIT_2, CMT_TCP_CLOSE}"
    using take_payload_state [OF k(2)] fin_wait_1_acked_state [of s a k] buffered_state [OF k(1), of s] assms(2) by auto
  then show ?thesis using k(3) False fin_wait_1_fin_state [of s ts "sq + word_of_int p" l m']
    by (auto split: if_splits)
qed

lemma fin_wait_2_state:
  assumes "cmt_tcp_handle_fin_wait_2 E s ts h sq a pl p w m = Inr m'"
  shows "state (streams m' s) = state (streams m s) \<or> state (streams m' s) = CMT_TCP_CLOSE \<or>
    (ack h \<and> fin h \<and> state (streams m' s) = CMT_TCP_TIME_WAIT)"
proof (cases "ack h")
  case True
  then obtain k l where k: "ack_if_buffered s ts h sq a w p m = Inr k" "take_payload E s pl sq p k = Inr l"
      "m' = (if fin h then fin_wait_2_fin s ts (sq + word_of_int p) l else l)"
    using assms by (auto simp: cmt_tcp_handle_fin_wait_2_def andThen_Inr_iff)
  show ?thesis using take_payload_state [OF k(2)] buffered_state [OF k(1), of s] True unfolding k(3)
    by (auto simp: fin_wait_2_fin_def)
qed (use assms in \<open>simp add: cmt_tcp_handle_fin_wait_2_def\<close>)

lemma closing_state:
  assumes "cmt_tcp_handle_closing s ts h sq a p w m = Inr m'"
  shows "state (streams m' s) = state (streams m s) \<or> (ack h \<and> state (streams m' s) = CMT_TCP_TIME_WAIT)"
  using assms by (auto simp: cmt_tcp_handle_closing_def andThen_Inr_iff split: if_splits dest: buffered_state)

lemma time_wait_state:
  "handle_time_wait s ts m = Inr m' \<Longrightarrow> state (streams m' s) = state (streams m s)"
  by (auto simp: handle_time_wait_def andThen_Inr_iff streams_remove_from_timewait_list split: if_splits)

lemma syn_sent_state:
  assumes "cmt_tcp_handle_syn_sent E s ts iph h opts sq a p w m = Inr m'"
  shows "state (streams m' s) = state (streams m s) \<or>
    (rst h \<and> ack h \<and> state (streams m' s) = CMT_TCP_CLOSE_WAIT) \<or>
    (syn h \<and> ack h \<and> \<not> rst h \<and> state (streams m' s) = CMT_TCP_ESTABLISHED) \<or>
    (\<not> (rst h \<and> ack h) \<and> \<not> (syn h \<and> ack h) \<and> state (streams m' s) = CMT_TCP_SYN_RCVD)"
  using assms
  by (auto simp: cmt_tcp_handle_syn_sent_def Let_def andThen_Inr_iff syn_sent_established_def
      streams_add_to_timeout_list split: if_splits)

lemma syn_rcvd_state:
  assumes "cmt_tcp_handle_syn_rcvd E s h a m = Inr m'"
  shows "state (streams m' s) = state (streams m s) \<or>
    (ack h \<and> state (streams m' s) \<in> {CMT_TCP_ESTABLISHED, CMT_TCP_CLOSE})"
  using assms
  by (auto simp: cmt_tcp_handle_syn_rcvd_def syn_rcvd_accept_def Let_def andThen_Inr_iff
      streams_add_to_timeout_list split: if_splits option.splits)

lemma listen_state:
  assumes "cmt_tcp_handle_listen s h m = Inr m'"
  shows "syn h \<and> state (streams m' s) = CMT_TCP_SYN_RCVD"
  using assms by (auto simp: cmt_tcp_handle_listen_def Let_def split: if_splits)

lemma rst_state:
  assumes "CMT_TCP_SYN_SENT < state (streams m s)"
  shows "state (streams (snd (cmt_tcp_process_rst s a m)) s) =
     (if state (streams m s) = CMT_TCP_SYN_RCVD
      then (if a = snd_nxt (streams m s) then CMT_TCP_CLOSE else CMT_TCP_SYN_RCVD)
      else if state (streams m s) \<in> {CMT_TCP_ESTABLISHED, CMT_TCP_CLOSE_WAIT}
      then (if on_closeq (sndvar (streams m s)) \<or> on_closeq_int (sndvar (streams m s)) \<or>
               on_resetq (sndvar (streams m s)) \<or> on_resetq_int (sndvar (streams m s))
            then state (streams m s) else CMT_TCP_CLOSE_WAIT)
      else CMT_TCP_CLOSE)"
  using assms by (cases "state (streams m s)") (simp_all add: cmt_tcp_process_rst_def Let_def state_order)

lemma dispatch_edge:
  assumes "dispatch E s ts iph h opts sq a pl p w m = Inr m'"
    and "state (streams m s) \<noteq> CMT_TCP_CLOSE_WAIT" "rst h \<longrightarrow> state (streams m s) \<le> CMT_TCP_SYN_SENT"
  shows "segment_edge h (state (streams m s)) (state (streams m' s))"
proof (cases "state (streams m s)")
  case CMT_TCP_SYN_RCVD
  have nr: "\<not> rst h" using assms(3) CMT_TCP_SYN_RCVD by (auto simp: state_order)
  show ?thesis
  proof (cases "syn h \<and> sq = irs (rcvvar (streams m s))")
    case False
    then obtain k where k: "cmt_tcp_handle_syn_rcvd E s h a m = Inr k"
      "m' = k \<or> state (streams k s) = CMT_TCP_ESTABLISHED \<and> cmt_tcp_handle_established E s ts h sq a pl p w k = Inr m'"
      using assms(1) CMT_TCP_SYN_RCVD by (auto simp: dispatch_def andThen_Inr_iff split: if_splits)
    show ?thesis using syn_rcvd_state [OF k(1)] established_state [of E s ts h sq a pl p w k m'] k(2) nr
      unfolding CMT_TCP_SYN_RCVD
      by (auto simp: segment_edge.rcvd_established segment_edge.rcvd_refused segment_edge.rcvd_fin segment_edge.stay)
  next
    case True
    then show ?thesis using assms(1) CMT_TCP_SYN_RCVD
      by (auto simp: dispatch_def dest!: listen_state intro: segment_edge.intros)
  qed
next
  case CMT_TCP_LISTEN
  then show ?thesis using assms(1) by (auto simp: dispatch_def dest!: listen_state intro: segment_edge.intros)
next
  case CMT_TCP_SYN_SENT
  then show ?thesis using assms(1) by (auto simp: dispatch_def dest!: syn_sent_state intro: segment_edge.intros)
next
  case CMT_TCP_ESTABLISHED
  then have "\<not> rst h" using assms(3) by (auto simp: state_order)
  then show ?thesis using assms(1) CMT_TCP_ESTABLISHED
    by (auto simp: dispatch_def dest!: established_state intro: segment_edge.intros)
next
  case CMT_TCP_FIN_WAIT_1
  then have "\<not> rst h" using assms(3) by (auto simp: state_order)
  moreover have "cmt_tcp_handle_fin_wait_1 E s ts h sq a pl p w m = Inr m'"
    using assms(1) CMT_TCP_FIN_WAIT_1 by (simp add: dispatch_def)
  ultimately show ?thesis using CMT_TCP_FIN_WAIT_1
    by (auto dest!: fin_wait_1_state intro: segment_edge.intros)
next
  case CMT_TCP_FIN_CLOSING
  then have "\<not> rst h" using assms(3) by (auto simp: state_order)
  then show ?thesis using assms(1) CMT_TCP_FIN_CLOSING
    by (auto simp: dispatch_def dest!: closing_state intro: segment_edge.intros)
next
  case CMT_TCP_LAST_ACK
  then have "\<not> rst h" using assms(3) by (auto simp: state_order)
  then show ?thesis using assms(1) CMT_TCP_LAST_ACK
    by (auto simp: dispatch_def dest!: last_ack_state intro: segment_edge.intros)
next
  case CMT_TCP_FIN_WAIT_2
  then have "\<not> rst h" using assms(3) by (auto simp: state_order)
  then show ?thesis using assms(1) CMT_TCP_FIN_WAIT_2
    by (auto simp: dispatch_def dest!: fin_wait_2_state intro: segment_edge.intros)
next
  case CMT_TCP_TIME_WAIT
  then show ?thesis using assms(1) by (auto simp: dispatch_def dest!: time_wait_state intro: segment_edge.intros)
next
  case CMT_TCP_CLOSE
  then show ?thesis using assms(1) by (auto simp: dispatch_def intro: segment_edge.intros)
qed (use assms(2) in simp)

inductive_cases to_established: "segment_edge h s CMT_TCP_ESTABLISHED"

subsection \<open>Properties\<close>

text \<open>
  C2: A segment takes a stream only along the edges of the state machine: whatever the segment and
  whatever the state of the timers, buffers and pools, the state after \<open>process_segment\<close> is the
  one before or its successor along one edge, under the flags of that edge. No other transition
  can happen; a stream in CLOSE_WAIT is excluded, whose handler the repository lacks.
\<close>

theorem segment_transitions:
  assumes "process_segment E s ts iph h opts sq a pl p w m = Inr (r, m')"
    and "state (streams m s) \<noteq> CMT_TCP_CLOSE_WAIT"
  shows "segment_edge h (state (streams m s)) (state (streams m' s))"
  using assms(1)
proof (cases rule: process_segment_cases)
  case invalid
  then have "state (streams m' s) = state (streams m s)" by (intro validseq_state)
  then show ?thesis by (simp add: segment_edge.stay)
next
  case (valid k wd)
  have k: "state (streams k s) = state (streams m s)"
    using valid(2) by (auto split: if_splits dest!: validseq_state)
  let ?n = "refreshed s ts wd h k"
  have n: "state (streams ?n s) = state (streams m s)" by (simp add: refreshed_stream k)
  show ?thesis
  proof (cases "rst h \<and> CMT_TCP_SYN_SENT < state (streams k s)")
    case True
    then have "m' = snd (cmt_tcp_process_rst s a ?n)" using valid(3) by simp
    then show ?thesis using True rst_state [of ?n s a] n k
      by (auto split: if_splits intro: segment_edge.intros)
  next
    case False
    then have "dispatch E s ts iph h opts sq a pl p w ?n = Inr m'" using valid(3) by simp
    then show ?thesis using dispatch_edge [of E s ts iph h opts sq a pl p w ?n m'] n k False assms(2)
      by (auto simp: not_less)
  qed
qed

theorem segment_transitions_witness:
  "\<exists>m'. process_segment quiet_env 1 0 from_nine syn_hdr [] 7 0 [] 0 100 (with_stream 1 (\<lambda>s. s\<lparr>state := CMT_TCP_LISTEN\<rparr>)) = Inr (1, m') \<and>
    segment_edge syn_hdr CMT_TCP_LISTEN (state (streams m' 1)) \<and> state (streams m' 1) = CMT_TCP_SYN_RCVD"
proof -
  let ?m = "with_stream 1 (\<lambda>s. s\<lparr>state := CMT_TCP_LISTEN\<rparr>)"
  have st: "state (streams ?m 1) = CMT_TCP_LISTEN" by (simp add: with_stream_def)
  obtain m' where m': "process_segment quiet_env 1 0 from_nine syn_hdr [] 7 0 [] 0 100 ?m = Inr (1, m')"
    "state (streams m' 1) = CMT_TCP_SYN_RCVD"
    using listen_refreshed [OF st, of syn_hdr] by (fastforce simp: syn_hdr_def)
  then show ?thesis using segment_transitions [OF m'(1)] st by auto
qed

text \<open>
  C5: A stream becomes ESTABLISHED only by an acceptable ACK: on the active side by a SYN-ACK that
  acknowledges something sent, on the passive side by an acknowledgement of exactly the initial
  number; never by a segment with the reset flag.
\<close>

theorem established_origin:
  assumes "process_segment E s ts iph h opts sq a pl p w m = Inr (r, m')"
    and "state (streams m s) \<notin> {CMT_TCP_CLOSE_WAIT, CMT_TCP_ESTABLISHED}"
    and "state (streams m' s) = CMT_TCP_ESTABLISHED"
  shows "ack h \<and> \<not> rst h \<and>
    (state (streams m s) = CMT_TCP_SYN_SENT \<and> syn h \<and> TCP_SEQ_GT a (iss (sndvar (streams m s))) \<and>
       TCP_SEQ_LEQ a (snd_nxt (streams m s)) \<or>
     state (streams m s) = CMT_TCP_SYN_RCVD \<and> a = iss (sndvar (streams m s)) + 1)"
  using assms(1)
proof (cases rule: process_segment_cases)
  case invalid
  then show ?thesis using validseq_state [OF invalid(3), of s] assms(2,3) by simp
next
  case (valid k wd)
  have k: "k = m \<or> CMT_TCP_SYN_RCVD < state (streams m s)" "state (streams k s) = state (streams m s)"
    using valid(2) by (auto split: if_splits dest!: validseq_state)
  let ?n = "refreshed s ts wd h k"
  have n: "state (streams ?n s) = state (streams m s)" by (simp add: refreshed_stream k)
  show ?thesis
  proof (cases "rst h \<and> CMT_TCP_SYN_SENT < state (streams k s)")
    case True
    then have "state (streams m' s) \<noteq> CMT_TCP_ESTABLISHED"
      using valid(3) rst_state [of ?n s a] n k assms(2) by (auto split: if_splits)
    then show ?thesis using assms(3) by simp
  next
    case False
    then have d: "dispatch E s ts iph h opts sq a pl p w ?n = Inr m'" using valid(3) by simp
    have "segment_edge h (state (streams m s)) CMT_TCP_ESTABLISHED"
      using dispatch_edge [OF d] assms(2,3) n k(2) False by (simp add: not_less)
    then have e: "ack h \<and> \<not> rst h \<and> (state (streams m s) = CMT_TCP_SYN_SENT \<and> syn h \<or> state (streams m s) = CMT_TCP_SYN_RCVD)"
      by (cases rule: to_established) (use assms(2) in auto)
    then have km: "k = m" using k(1) by (auto simp: state_order)
    have same: "iss (sndvar (streams ?n s)) = iss (sndvar (streams m s))" "snd_nxt (streams ?n s) = snd_nxt (streams m s)"
      by (simp_all add: refreshed_stream km)
    from e show ?thesis
    proof (elim conjE disjE)
      assume st: "state (streams m s) = CMT_TCP_SYN_SENT" "syn h" "ack h" "\<not> rst h"
      then have "cmt_tcp_handle_syn_sent E s ts iph h opts sq a p w ?n = Inr m'" using d n by (simp add: dispatch_def)
      then have "\<not> (TCP_SEQ_LEQ a (iss (sndvar (streams m s))) \<or> TCP_SEQ_GT a (snd_nxt (streams m s)))"
        using st assms(3) n unfolding cmt_tcp_handle_syn_sent_def same by (auto split: if_splits)
      then show ?thesis using st by (simp add: SEQ_LEQ_not_GT)
    next
      assume st: "state (streams m s) = CMT_TCP_SYN_RCVD" "ack h" "\<not> rst h"
      have "\<not> (syn h \<and> sq = irs (rcvvar (streams ?n s)))"
        using d n st(1) assms(3) by (auto simp: dispatch_def dest!: listen_state)
      then obtain j where "cmt_tcp_handle_syn_rcvd E s h a ?n = Inr j"
        using d n st(1) by (auto simp: dispatch_def andThen_Inr_iff)
      then have "a = iss (sndvar (streams m s)) + 1"
        using st unfolding cmt_tcp_handle_syn_rcvd_def same by (auto split: if_splits)
      then show ?thesis using st by simp
    qed
  qed
qed

lemma unscaled_segment:
  assumes "state (streams k s) = CMT_TCP_SYN_RCVD" "\<not> syn h" "\<not> rst h" "wscale_peer (sndvar (streams k s)) = 0"
  shows "process_segment E s ts iph h opts sq a pl p w k =
    andThen (dispatch E s ts iph h opts sq a pl p w (refreshed s ts (ucast w) h k)) (\<lambda>m. Inr (1, m))"
  using assms by (simp add: process_segment_def state_order c_shl_def Let_def)

theorem established_origin_witness:
  "\<exists>m'. process_segment quiet_env 1 0 from_nine (syn_hdr\<lparr>syn := False, ack := True\<rparr>) [] 8 1001 [] 0 100 rcvd_mgr = Inr (1, m') \<and>
    state (streams m' 1) = CMT_TCP_ESTABLISHED \<and> 1001 = iss (sndvar (streams rcvd_mgr 1)) + 1"
proof -
  let ?h = "syn_hdr\<lparr>syn := False, ack := True\<rparr>"
  define n where "n = refreshed 1 0 100 ?h rcvd_mgr"
  have n: "acceptq (lsnrs n 0) = \<lparr>sq_capacity = 1, sq_head = 0, sq_tail = 0, sq_q = [None, None]\<rparr>"
    "iss (sndvar (streams n 1)) = 1000" "\<not> on_timeout_list (streams n 1)" "state (streams n 1) = CMT_TCP_SYN_RCVD"
    "listen_ht_search (\<lambda>l. l_port (lsnrs n l)) (listen_table n) (dest ?h) = Some 0"
    using rcvd_mgr_listener
    by (simp_all add: n_def refreshed_def Let_def update_timeout_list_def rcvd_mgr_def listening_mgr_def idle_defs syn_hdr_def)
  have c: "sq_contents (acceptq (lsnrs n 0)) = []" "sq_inv (acceptq (lsnrs n 0))"
    by (simp_all add: n(1) sq_contents_def sq_cells_def sq_count_def sq_slots_def cyc_slice_def sq_inv_def)
  have nx: "\<forall>cap i. unat i \<le> unat cap \<longrightarrow>
      unat (e_next_index quiet_env cap i) = Suc (unat i) mod Suc (unat cap)"
    using cyc.next_law by (simp add: quiet_env_def)
  have h: "\<not> syn ?h" "\<not> rst ?h" "ack ?h" by (simp_all add: syn_hdr_def)
  have st: "state (streams rcvd_mgr 1) = CMT_TCP_SYN_RCVD" "wscale_peer (sndvar (streams rcvd_mgr 1)) = 0"
    "iss (sndvar (streams rcvd_mgr 1)) = 1000"
    by (simp_all add: rcvd_mgr_def listening_mgr_def idle_defs)
  from syn_rcvd_completes [OF h(3) _ n(5) nx c(2) n(3)] n(1,2) c(1)
  obtain m' where m': "cmt_tcp_handle_syn_rcvd quiet_env 1 ?h 1001 n = Inr m'" "state (streams m' 1) = CMT_TCP_ESTABLISHED"
    by fastforce
  have "dispatch quiet_env 1 0 from_nine ?h [] 8 1001 [] 0 100 n = Inr m'"
    using m'(1) h(1) n(4) unfolding dispatch_def by simp
  then have e: "process_segment quiet_env 1 0 from_nine ?h [] 8 1001 [] 0 100 rcvd_mgr = Inr (1, m')"
    unfolding unscaled_segment [OF st(1) h(1,2) st(2)] by (simp add: n_def)
  show ?thesis using established_origin [OF e] e m'(2) st by auto
qed

text \<open>
  C24: The acceptance window. For a stream without timestamps and with a window below
  \<open>2 ^ 31\<close>, \<open>cmt_tcp_validseq\<close> accepts a segment exactly when its end lies at most the window
  beyond the next expected byte, modulo \<open>2 ^ 32\<close>, and then changes nothing. A refused segment
  without reset is answered: with an acknowledgement when the stream is ESTABLISHED, through the
  control list otherwise; a refused reset is dropped silently.
\<close>

theorem validseq_window:
  assumes "\<not> saw_timestamp (streams m s)" "unat (rcv_wnd (rcvvar (streams m s))) < 2 ^ 31"
    and "inside \<longleftrightarrow> unat (sq + word_of_int p - rcv_nxt (streams m s)) \<le> unat (rcv_wnd (rcvvar (streams m s)))"
  shows "\<exists>m'. cmt_tcp_validseq s ts h opts sq p m = Inr (inside, m') \<and>
    (inside \<or> rst h \<longrightarrow> m' = m) \<and>
    (\<not> inside \<longrightarrow> \<not> rst h \<longrightarrow>
      (if state (streams m s) = CMT_TCP_ESTABLISHED then on_ack_list (sndvar (streams m' s))
       else on_control_list (sndvar (streams m' s))))"
proof -
  have w: "TCP_SEQ_BETWEEN (sq + word_of_int p) (rcv_nxt (streams m s)) (rcv_nxt (streams m s) + rcv_wnd (rcvvar (streams m s))) \<longleftrightarrow> inside"
    unfolding assms(3) using assms(2) by (rule BETWEEN_window)
  have c: "check_timestamp s ts h opts m = Inr (Some m)" using assms(1) by (simp add: check_timestamp_def)
  show ?thesis unfolding cmt_tcp_validseq_def c
    by (simp add: Let_def w)
qed

theorem validseq_window_witness:
  "\<exists>m'. cmt_tcp_validseq 1 0 syn_hdr [] 20 0 (with_stream 1 (\<lambda>s. s\<lparr>state := CMT_TCP_ESTABLISHED, rcv_nxt := 10,
      rcvvar := (rcvvar s)\<lparr>rcv_wnd := 5\<rparr>\<rparr>)) = Inr (False, m') \<and> on_ack_list (sndvar (streams m' 1))"
proof -
  let ?m = "with_stream 1 (\<lambda>s. s\<lparr>state := CMT_TCP_ESTABLISHED, rcv_nxt := 10, rcvvar := (rcvvar s)\<lparr>rcv_wnd := 5\<rparr>\<rparr>)"
  show ?thesis
    using validseq_window [of ?m 1 False 20 0 0 syn_hdr "[]"] by (simp add: with_stream_def idle_defs syn_hdr_def)
qed

text \<open>
  A window scale of 32 or more, which the option parser stores as it comes from the peer, makes
  the next segment without SYN shift a 32-bit value by its width or more, which is undefined.
\<close>

theorem window_scale_undefined:
  assumes "state (streams m s) \<le> CMT_TCP_SYN_RCVD" "\<not> syn h"
    and "32 \<le> unat (wscale_peer (sndvar (streams m s)))"
  shows "process_segment E s ts iph h opts sq a pl p w m = Inl BadShift"
proof -
  have "\<not> CMT_TCP_SYN_RCVD < state (streams m s)" using assms(1) by (simp add: not_less)
  then show ?thesis using assms(2,3) by (simp add: process_segment_def c_shl_def)
qed

theorem window_scale_undefined_witness:
  "\<exists>s'. cmt_tcp_parse_options (Suc (Suc (Suc 0))) (streams rcvd_mgr 1) 0 [3, 3, 200, 0] 4 = Some (Inr s') \<and>
    process_segment quiet_env 1 0 from_nine (syn_hdr\<lparr>syn := False, ack := True\<rparr>) [] 8 1001 [] 0 100
      (upd 1 (\<lambda>_. s') rcvd_mgr) = Inl BadShift"
proof -
  let ?s = "(streams rcvd_mgr 1)\<lparr>sndvar := (sndvar (streams rcvd_mgr 1))\<lparr>wscale_peer := 200\<rparr>\<rparr>"
  have p: "cmt_tcp_parse_options (Suc (Suc (Suc 0))) (streams rcvd_mgr 1) 0 [3, 3, 200, 0] 4 = Some (Inr ?s)"
    by (simp add: cmt_tcp_parse_options_def parse_options_loop.simps(2) byte_at_def opt_consts)
  have "process_segment quiet_env 1 0 from_nine (syn_hdr\<lparr>syn := False, ack := True\<rparr>) [] 8 1001 [] 0 100
      (upd 1 (\<lambda>_. ?s) rcvd_mgr) = Inl BadShift"
    by (rule window_scale_undefined) (simp_all add: rcvd_mgr_def)
  with p show ?thesis by blast
qed

text \<open>
  Answers to a segment for no stream. A reset is never answered; a SYN for an address and port
  the filter refuses, which includes every listener bound to INADDR_ANY, gets a RST-ACK of the
  number after its data and itself; another segment with ACK gets a RST at the number it
  acknowledges; any other gets a RST-ACK of its end. None opens a stream or changes one.
\<close>

theorem unmatched_segment_replies:
  shows "(\<not> (syn h \<and> \<not> ack h \<and> cmt_tcp_filter_synpkt m (ip_dst iph) (dest h)) \<longrightarrow>
   cmt_create_stream E ts iph h opts sq a p w m = Inr (None,
    (if syn h \<and> \<not> ack h then log_call (PktAlone (ip_dst iph) (dest h) (ip_src iph) (source h) 0
         (sq + word_of_int p + 1) (CMT_TCPHDR_RST OR CMT_TCPHDR_ACK)) m
     else if rst h then m
     else if ack h then log_call (PktAlone (ip_dst iph) (dest h) (ip_src iph) (source h) a 0 CMT_TCPHDR_RST) m
     else log_call (PktAlone (ip_dst iph) (dest h) (ip_src iph) (source h) 0
         (sq + word_of_int p) (CMT_TCPHDR_RST OR CMT_TCPHDR_ACK)) m))) \<and>
   (listen_ht_search (\<lambda>l. l_port (lsnrs m l)) (listen_table m) port = Some l \<longrightarrow>
      l_addr (lsnrs m l) = INADDR_ANY \<longrightarrow> \<not> cmt_tcp_filter_synpkt m ip port)"
proof (intro conjI impI)
  assume "\<not> (syn h \<and> \<not> ack h \<and> cmt_tcp_filter_synpkt m (ip_dst iph) (dest h))"
  then have "\<not> cmt_tcp_filter_synpkt m (ip_dst iph) (dest h)" if "syn h" "\<not> ack h" using that by simp
  then show "cmt_create_stream E ts iph h opts sq a p w m = Inr (None,
    (if syn h \<and> \<not> ack h then log_call (PktAlone (ip_dst iph) (dest h) (ip_src iph) (source h) 0
         (sq + word_of_int p + 1) (CMT_TCPHDR_RST OR CMT_TCPHDR_ACK)) m
     else if rst h then m
     else if ack h then log_call (PktAlone (ip_dst iph) (dest h) (ip_src iph) (source h) a 0 CMT_TCPHDR_RST) m
     else log_call (PktAlone (ip_dst iph) (dest h) (ip_src iph) (source h) 0
         (sq + word_of_int p) (CMT_TCPHDR_RST OR CMT_TCPHDR_ACK)) m))" by (simp add: cmt_create_stream_def cmt_tcppkt_alone_def)
qed (simp add: cmt_tcp_filter_synpkt_def)

theorem unmatched_segment_replies_witness:
  "cmt_create_stream quiet_env 0 from_nine syn_hdr [] 7 0 0 100 idle_mgr =
     Inr (None, log_call (PktAlone 5 20480 9 13330 0 8 (CMT_TCPHDR_RST OR CMT_TCPHDR_ACK)) idle_mgr) \<and>
   \<not> cmt_tcp_filter_synpkt (listening_mgr\<lparr>lsnrs := (\<lambda>_. (lsnrs listening_mgr 0)\<lparr>l_addr := 0\<rparr>)\<rparr>) 5 20480"
proof (rule conjI)
  have n: "\<not> cmt_tcp_filter_synpkt idle_mgr ip q" for ip q
    by (simp add: cmt_tcp_filter_synpkt_def listen_ht_search_def idle_mgr_def)
  show "cmt_create_stream quiet_env 0 from_nine syn_hdr [] 7 0 0 100 idle_mgr =
     Inr (None, log_call (PktAlone 5 20480 9 13330 0 8 (CMT_TCPHDR_RST OR CMT_TCPHDR_ACK)) idle_mgr)"
    by (subst unmatched_segment_replies [THEN conjunct1, THEN mp]) (simp_all add: n, simp add: syn_hdr_def from_nine_def)
  show "\<not> cmt_tcp_filter_synpkt (listening_mgr\<lparr>lsnrs := (\<lambda>_. (lsnrs listening_mgr 0)\<lparr>l_addr := 0\<rparr>)\<rparr>) 5 20480"
    by (rule unmatched_segment_replies [THEN conjunct2, THEN mp, THEN mp, of _ _ 0])
      (simp_all add: cmt_tcp_filter_synpkt_def listening_mgr_def listen_ht_search_def INADDR_ANY_def
        hash_listener_def equal_listener_def NUM_BINS_LISTENER_def syn_hdr_def)
qed

end
