(* ===== verification/Tcp_Packets.thy ===== *)
theory Tcp_Packets
  imports Tcp_Transitions
begin

text \<open>
  Properties of \<open>cmt_tcp_process\<close> as a whole, from the bytes of a packet.
\<close>

subsection \<open>A packet in a manager with a listener and a connection\<close>

definition busy_mgr :: mgr where
  "busy_mgr = (let m = upd 2 (\<lambda>s. s\<lparr>saddr := 5, daddr := 8, sport := 20480, dport := 1\<rparr>) listening_mgr
     in m\<lparr>flow_table := stream_ht_insert (streams m) (flow_table m) 2\<rparr>)"

lemma busy_flow: "hash_flow (streams busy_mgr 2) = hash_flow \<lparr>saddr = 5, daddr = 8, sport = 20480, dport = 1\<rparr>"
  by (rule hash_flow_cong) (simp add: equal_flow_def busy_mgr_def Let_def)

lemma busy_ok: "mgr_ok busy_mgr"
proof -
  let ?m = "upd 2 (\<lambda>s. s\<lparr>saddr := 5, daddr := 8, sport := 20480, dport := 1\<rparr>) listening_mgr"
  have e: "table (flow_table ?m) = (\<lambda>_. [])" by (simp add: listening_mgr_def idle_mgr_def)
  have "ht_ok hash_flow equal_flow (streams ?m) (flow_table busy_mgr)"
    by (simp add: busy_mgr_def Let_def stream_ht_insert_def ht_ok_def listening_mgr_def idle_mgr_def)
  moreover have "sender_ok busy_mgr"
    by (rule sender_ok_frame [of listening_mgr])
      (use listening_ok in \<open>simp_all add: mgr_ok_def busy_mgr_def Let_def\<close>)
  moreover have "timers_ok busy_mgr"
    using listening_ok
    by (auto simp: mgr_ok_def busy_mgr_def Let_def timers_ok_def rto_ok_def list_ok_def on_tw_def on_to_def)
  ultimately show ?thesis
    by (simp add: mgr_ok_def) (simp add: busy_mgr_def Let_def)
qed

lemma busy_fresh: "fresh_streams quiet_env busy_mgr"
  using quiet_fresh
  by (auto simp: fresh_streams_def busy_mgr_def Let_def quiet_env_def in_ht_members stream_ht_insert_def split: if_splits)

lemma busy_syn: "\<exists>m'. cmt_tcp_process quiet_env from_nine syn_packet busy_mgr = Inr (1, m')"
proof -
  have none: "stream_ht_search (streams busy_mgr) (e_head quiet_env busy_mgr (segment_key from_nine syn_hdr))
      (segment_key from_nine syn_hdr) = Inr None"
    by (simp add: quiet_env_def stream_ht_search_def busy_mgr_def Let_def stream_ht_insert_def listening_mgr_def idle_mgr_def
        equal_flow_def segment_key_def from_nine_def)
  have "cmt_tcp_filter_synpkt busy_mgr (ip_dst from_nine) (dest syn_hdr)"
    by (simp add: cmt_tcp_filter_synpkt_def busy_mgr_def Let_def listening_mgr_def listen_ht_search_def hash_listener_def
        equal_listener_def from_nine_def syn_hdr_def INADDR_ANY_def NUM_BINS_LISTENER_def)
  then have "\<exists>k m'. cmt_create_stream quiet_env (TIMEVAL_TO_TS (e_timeval quiet_env)) from_nine syn_hdr (drop 20 syn_packet)
        (ntohl (seq syn_hdr)) (ntohl (ack_seq syn_hdr)) 0 (ntohs (window syn_hdr)) busy_mgr = Inr (Some 1, k) \<and>
     process_segment quiet_env 1 (TIMEVAL_TO_TS (e_timeval quiet_env)) from_nine syn_hdr (drop 20 syn_packet)
       (ntohl (seq syn_hdr)) (ntohl (ack_seq syn_hdr)) (drop 20 syn_packet) 0 (ntohs (window syn_hdr)) k = Inr (1, m')"
    using passive_open_syn [of syn_hdr quiet_env busy_mgr from_nine 1 blank_send blank_recv "ntohl (seq syn_hdr)"]
    by (fastforce simp: syn_hdr_def quiet_env_def)
  then obtain k m' where k: "cmt_create_stream quiet_env (TIMEVAL_TO_TS (e_timeval quiet_env)) from_nine syn_hdr (drop 20 syn_packet)
        (ntohl (seq syn_hdr)) (ntohl (ack_seq syn_hdr)) 0 (ntohs (window syn_hdr)) busy_mgr = Inr (Some 1, k)"
     "process_segment quiet_env 1 (TIMEVAL_TO_TS (e_timeval quiet_env)) from_nine syn_hdr (drop 20 syn_packet)
       (ntohl (seq syn_hdr)) (ntohl (ack_seq syn_hdr)) (drop 20 syn_packet) 0 (ntohs (window syn_hdr)) k = Inr (1, m')"
    by blast
  have c: "4 * ihl from_nine = 20" "int (unat (ntohs (tot_len from_nine))) = 40" "4 * doff syn_hdr = 20"
    "ip_src from_nine = 9" "ip_dst from_nine = 5" "e_proto quiet_env = 6"
    by (simp_all add: from_nine_def syn_hdr_def quiet_env_def ntohs_def htons_def)
  have n: "(40 :: int) - int 20 = 20" "(20 :: int) - int 20 = 0" "word_of_int 20 = (20 :: u16)" by simp_all
  have "cmt_tcp_process quiet_env from_nine syn_packet busy_mgr = Inr (1, m')"
    unfolding cmt_tcp_process_def c Let_def syn_packet_header andThen.simps n
      syn_packet_checksum none [unfolded segment_key_def c] option.case k [unfolded c] prod.case
    by (simp add: k [unfolded c])
  then show ?thesis by blast
qed

subsection \<open>Properties\<close>

text \<open>
  C1: Every packet keeps the manager well formed. Whatever packet arrives in a well-formed manager,
  whenever \<open>cmt_tcp_process\<close> returns, each list agrees with the flags of the streams and with
  its counter, the retransmission slots are disjoint, and the flow table holds each flow once and
  in its bucket. For a packet whose lookup finds a stream the only condition is that the stream
  is not in CLOSE_WAIT, whose handler is not in the repository. For a packet whose lookup finds
  none, so that it may open a stream, it is that no stream in the table has its flow, and that
  the objects the pools return are on no list and in no table: \<open>create_tcp_stream\<close> does not
  clear their flags, and a stale one does break the invariant, as C8 shows for the control list.
\<close>

theorem cmt_tcp_process_ok:
  assumes "mgr_ok m"
    and found: "\<forall>h sid. tcp_header bs = Inr h \<longrightarrow>
      stream_ht_search (streams m) (e_head E m (segment_key iph h)) (segment_key iph h) = Inr (Some sid) \<longrightarrow>
      state (streams m sid) \<noteq> CMT_TCP_CLOSE_WAIT"
    and opens: "\<forall>h. tcp_header bs = Inr h \<longrightarrow>
      stream_ht_search (streams m) (e_head E m (segment_key iph h)) (segment_key iph h) = Inr None \<longrightarrow>
      fresh_streams E m \<and> (\<forall>t\<in>ht_members (flow_table m). \<not> equal_flow (streams m t) (segment_key iph h))"
    and "cmt_tcp_process E iph bs m = Inr (r, m')"
  shows "mgr_ok m'"
  using assms(4)
proof (cases rule: process_cases)
  case (refused h c)
  then show ?thesis using assms(1) okm.log_law by blast
next
  case (known h sid ts opts sq a pl p w)
  then show ?thesis using found okm.segment_closed [OF assms(1) _ known(3)] by blast
next
  case (opened h sid k ts opts sq a pl p w)
  have o: "fresh_streams E m" "\<forall>t\<in>ht_members (flow_table m). \<not> equal_flow (streams m t) (segment_key iph h)"
    using opens opened(1,2) by blast+
  have "mgr_ok k"
    by (rule okm.passive_closed [OF opened(3)])
      (use create_stream_ok [OF assms(1) o(1) o(2) [unfolded segment_key_def]] in auto)
  moreover have "state (streams k sid) \<noteq> CMT_TCP_CLOSE_WAIT" using passive_open_state [OF opened(3)] by auto
  ultimately show ?thesis using okm.segment_closed [OF _ _ opened(4)] by blast
qed (use assms in simp)

lemma busy_new:
  "\<forall>t\<in>ht_members (flow_table busy_mgr). \<not> equal_flow (streams busy_mgr t) (segment_key from_nine syn_hdr)"
  by (auto simp: in_ht_members busy_mgr_def Let_def stream_ht_insert_def listening_mgr_def idle_mgr_def
      equal_flow_def segment_key_def from_nine_def split: if_splits)

theorem cmt_tcp_process_ok_witness:
  "\<exists>m'. cmt_tcp_process quiet_env from_nine syn_packet busy_mgr = Inr (1, m') \<and> mgr_ok m'"
proof -
  obtain m' where m': "cmt_tcp_process quiet_env from_nine syn_packet busy_mgr = Inr (1, m')"
    using busy_syn by blast
  have "\<forall>h sid. tcp_header syn_packet = Inr h \<longrightarrow>
      stream_ht_search (streams busy_mgr) (e_head quiet_env busy_mgr (segment_key from_nine h)) (segment_key from_nine h) =
        Inr (Some sid) \<longrightarrow> state (streams busy_mgr sid) \<noteq> CMT_TCP_CLOSE_WAIT"
    by (auto simp: busy_mgr_def Let_def listening_mgr_def idle_defs)
  moreover have "\<forall>h. tcp_header syn_packet = Inr h \<longrightarrow>
      stream_ht_search (streams busy_mgr) (e_head quiet_env busy_mgr (segment_key from_nine h)) (segment_key from_nine h) =
        Inr None \<longrightarrow> fresh_streams quiet_env busy_mgr \<and>
      (\<forall>t\<in>ht_members (flow_table busy_mgr). \<not> equal_flow (streams busy_mgr t) (segment_key from_nine h))"
    using busy_fresh busy_new by (simp add: syn_packet_header)
  ultimately show ?thesis using cmt_tcp_process_ok [OF busy_ok _ _ m'] m' by blast
qed

text \<open>
  C4: A packet touches one connection. Every stream of the flow table with another flow than the
  packet's header is left exactly as it was, and stays in the table, whatever the rest of the
  packet contains, wherever the lookup's chain leads and whatever state the manager is in. Excluded are a
  packet for a stream in CLOSE_WAIT, whose handler is not in the repository, and a stream pool
  that hands out, for a packet that may open a connection, a stream that is in the table.
\<close>

theorem process_isolation:
  assumes run: "cmt_tcp_process E iph bs m = Inr (r, m')" and h: "tcp_header bs = Inr h"
    and t: "t \<in> ht_members (flow_table m)" "\<not> equal_flow (streams m t) (segment_key iph h)"
    and found: "\<forall>sid. stream_ht_search (streams m) (e_head E m (segment_key iph h)) (segment_key iph h) = Inr (Some sid) \<longrightarrow>
      state (streams m sid) \<noteq> CMT_TCP_CLOSE_WAIT"
    and pool: "\<forall>sid. stream_ht_search (streams m) (e_head E m (segment_key iph h)) (segment_key iph h) = Inr None \<longrightarrow>
      e_get_stream E m = Some sid \<longrightarrow> sid \<notin> ht_members (flow_table m)"
  shows "streams m' t = streams m t \<and> t \<in> ht_members (flow_table m')"
  using run
proof (cases rule: process_cases)
  case (refused h' c)
  then show ?thesis using t(1) by (auto simp: log_call_def)
next
  case (known h' sid ts opts sq a pl p w)
  then have k: "stream_ht_search (streams m) (e_head E m (segment_key iph h)) (segment_key iph h) = Inr (Some sid)"
    using h by simp
  have ne: "t \<noteq> sid" using stream_search_sound [OF k] t(2) by auto
  have "state (streams m sid) \<noteq> CMT_TCP_CLOSE_WAIT" using found k by blast
  then have "untouched m sid m'" using frm.segment_closed [OF untouched_refl refl known(3)] by blast
  then show ?thesis using ne t(1) by (simp add: untouched_def)
next
  case (opened h' sid k ts opts sq a pl p w)
  obtain j where j: "create_tcp_stream E CMT_TCP_SOCK_STREAM (ip_dst iph) (dest h') (ip_src iph) (source h') m = (Some sid, j)"
    using opened(3) by (auto elim: passive_open_cases)
  have "sid \<notin> ht_members (flow_table m)"
    using pool opened(1,2) h create_tcp_stream_from_pool [OF j] by auto
  then have ne: "t \<noteq> sid" using t(1) by auto
  have c: "streams j t = streams m t" "t \<in> ht_members (flow_table j)"
    using create_tcp_stream_others [OF j ne t(1)] by simp_all
  have "untouched j sid k"
    by (rule frm.passive_closed [OF opened(3)]) (use j untouched_refl in auto)
  moreover have "untouched k sid m'"
    using frm.segment_closed [OF untouched_refl refl opened(4)] passive_open_state [OF opened(3)] by auto
  ultimately show ?thesis using ne c by (simp add: untouched_def)
qed (use t in simp)

theorem process_isolation_witness:
  "\<exists>m'. cmt_tcp_process quiet_env from_nine syn_packet busy_mgr = Inr (1, m') \<and> streams m' 2 = streams busy_mgr 2"
proof -
  obtain m' where m': "cmt_tcp_process quiet_env from_nine syn_packet busy_mgr = Inr (1, m')"
    using busy_syn by blast
  have t: "2 \<in> ht_members (flow_table busy_mgr)"
    by (auto simp: in_ht_members busy_mgr_def Let_def stream_ht_insert_def)
  have n: "\<not> equal_flow (streams busy_mgr 2) (segment_key from_nine syn_hdr)" using busy_new t by blast
  have "state (streams busy_mgr sid) \<noteq> CMT_TCP_CLOSE_WAIT" for sid
    by (simp add: busy_mgr_def Let_def listening_mgr_def idle_defs)
  moreover have "e_get_stream quiet_env busy_mgr = Some sid \<Longrightarrow> sid \<notin> ht_members (flow_table busy_mgr)" for sid
    using busy_fresh by (simp add: fresh_streams_def quiet_env_def)
  ultimately show ?thesis using process_isolation [OF m' syn_packet_header t n] m' by blast
qed

end
