(* ===== verification/Recv_Buffer.thy ===== *)
theory Recv_Buffer
  imports Tcp_Types Tcp_Seq
begin

text \<open>
  The receive buffer of \<open>src/tcp_buffer.c\<close>: \<open>recv_put\<close> with its list of fragments in a store of
  fragments, \<open>merge_fragments\<close> with the data pointers in a store of their own, \<open>swap_fragment\<close> and
  \<open>recv_remove\<close>. The lemmas say what a segment does to the ranges of sequence numbers that the
  buffer records.

  Where the code names what is declared nowhere, the model reads: \<open>seq\<close> as \<open>cur_seq\<close>, \<open>new_ctx\<close> as
  \<open>frag\<close>, \<open>merged\<close> as a flag that starts at 0, \<open>merged_len\<close> as \<open>cum_len\<close>, the fields \<open>data\<close> of a
  fragment and \<open>fctx->data_list\<close> as \<open>data_list\<close>; the field \<open>stream\<close> a fragment does not have is
  left out. The variable \<open>len\<close> and the field \<open>next_seq\<close> that \<open>merge_fragments\<close> reads and that do not
  exist are parameters: \<open>fst u\<close> and \<open>snd u\<close> give their values for the data pointer at hand. The
  answers of the object pools are parameters too.
\<close>

record fragment =
  fr_next :: "nat option"
  fr_seq :: u32
  fr_len :: u32
  data_list :: "nat option"

type_synonym frags = "nat \<Rightarrow> fragment"

record data_ptr =
  dp_seq :: u32
  dp_len :: u32
  dp_next :: "nat option"

type_synonym dptrs = "nat \<Rightarrow> data_ptr"
type_synonym undeclared = "(nat \<Rightarrow> u32) \<times> (nat \<Rightarrow> u32)"

subsection \<open>Merging\<close>

definition swap_fragment :: "nat \<Rightarrow> nat \<Rightarrow> frags \<Rightarrow> frags" where
  "swap_fragment a b fr =
     (let tmp = fr a;
          fr = fr(a := (fr a)\<lparr>fr_seq := fr_seq (fr b), fr_len := fr_len (fr b),
                       data_list := data_list (fr b), fr_next := fr_next (fr b)\<rparr>)
      in fr(b := (fr b)\<lparr>fr_seq := fr_seq tmp, fr_len := fr_len tmp,
                       data_list := data_list tmp, fr_next := fr_next tmp\<rparr>))"

text \<open>
  The loop over the data pointers of \<open>merge_fragments\<close> and what follows it. The loop does not test
  for the end of the list, and on a cycle it may not end.
\<close>

partial_function (option) data_walk ::
  "undeclared \<Rightarrow> u32 \<Rightarrow> dptrs \<Rightarrow> nat \<Rightarrow> nat option \<Rightarrow> (nat \<times> nat) res option" where
  "data_walk u next_seq dps start tmp =
     (case tmp of None \<Rightarrow> Some (Inl NullDeref)
      | Some t \<Rightarrow>
          if dp_seq (dps t) < next_seq \<and> dp_seq (dps t) + fst u t < next_seq
          then data_walk u next_seq dps t (dp_next (dps t))
          else Some (Inr (start, t)))"

definition merge_data ::
  "undeclared \<Rightarrow> nat option \<Rightarrow> nat option \<Rightarrow> u32 \<Rightarrow> dptrs \<Rightarrow> dptrs res option" where
  "merge_data u list_start list_end next_seq dps =
     (case list_start of None \<Rightarrow> Some (Inl NullDeref)
      | Some start \<Rightarrow>
          map_option (\<lambda>r. andThen r (\<lambda>(start, t).
            if dp_seq (dps t) = next_seq then Inr (dps(start := (dps start)\<lparr>dp_next := list_end\<rparr>))
            else case list_end of None \<Rightarrow> Inl NullDeref
            | Some e \<Rightarrow>
                let dps = dps(t := (dps t)\<lparr>dp_len := snd u e - dp_seq (dps t)\<rparr>)
                in Inr (dps(t := (dps t)\<lparr>dp_next := list_end\<rparr>))))
            (data_walk u next_seq dps start (dp_next (dps start))))"

definition merge_fragments ::
  "undeclared \<Rightarrow> nat \<Rightarrow> nat \<Rightarrow> frags \<Rightarrow> dptrs \<Rightarrow> (frags \<times> dptrs) res option" where
  "merge_fragments u a b fr dps =
     (let fr = (if fr_seq (fr a) < fr_seq (fr b) then swap_fragment a b fr else fr);
          start = a; next_seq = fr_seq (fr a) in
      map_option (\<lambda>r. andThen r (\<lambda>dps.
        let min_seq = GetMinSeq (fr_seq (fr a)) (fr_seq (fr b));
            max_seq = GetMaxSeq (fr_seq (fr a) + fr_len (fr a)) (fr_seq (fr b) + fr_len (fr b))
        in Inr (fr(start := (fr start)\<lparr>fr_seq := min_seq, fr_len := max_seq - min_seq\<rparr>), dps)))
      (merge_data u (data_list (fr b)) (data_list (fr a)) next_seq dps))"

subsection \<open>Storing a segment\<close>

text \<open>
  The walk over the fragments: \<open>frag\<close> is the new fragment or the last one merged into. It returns
  the values the variables \<open>merged\<close>, \<open>iter\<close> and \<open>prev\<close> have behind the loop; on a cyclic list it may
  not return.
\<close>

partial_function (option) recv_walk ::
  "undeclared \<Rightarrow> u32 \<Rightarrow> u32 \<Rightarrow> nat \<Rightarrow> bool \<Rightarrow> nat option \<Rightarrow> nat option \<Rightarrow> nat option \<Rightarrow>
    frags \<Rightarrow> dptrs \<Rightarrow> recv_buffer \<Rightarrow> (bool \<times> nat option \<times> nat option \<times> frags \<times> dptrs \<times> recv_buffer) res option" where
  "recv_walk u cur_seq len frag merged iter prev pprev fr dps buff =
     (case iter of None \<Rightarrow> Some (Inr (merged, None, prev, fr, dps, buff))
      | Some i \<Rightarrow>
        if CanMerge (fr_seq (fr frag)) (fr_len (fr frag)) (fr_seq (fr i)) (fr_len (fr i)) then
          (case merge_fragments u frag i fr dps of
             None \<Rightarrow> None
           | Some (Inl e) \<Rightarrow> Some (Inl e)
           | Some (Inr (fr, dps)) \<Rightarrow>
             let fb = (if prev = Some frag
                       then (case pprev of
                               Some q \<Rightarrow> (fr(q := (fr q)\<lparr>fr_next := Some i\<rparr>), buff)
                             | None \<Rightarrow> (fr, buff\<lparr>fctx := Some i\<rparr>))
                       else (fr, buff));
                 prev' = (if prev = Some frag then pprev else prev)
             in recv_walk u cur_seq len i True (fr_next (fst fb i)) (Some i) prev' (fst fb) dps (snd fb))
        else if merged \<or> GetMaxSeq (cur_seq + len) (fr_seq (fr i)) = fr_seq (fr i)
        then Some (Inr (merged, Some i, prev, fr, dps, buff))
        else recv_walk u cur_seq len frag merged (fr_next (fr i)) (Some i) prev fr dps buff)"

text \<open>Linking a fragment that was not merged.\<close>

definition recv_link ::
  "u32 \<Rightarrow> nat \<Rightarrow> nat option \<Rightarrow> nat option \<Rightarrow> frags \<Rightarrow> recv_buffer \<Rightarrow> (frags \<times> recv_buffer) res" where
  "recv_link cur_seq frag iter prev fr buff =
     (case fctx buff of
        None \<Rightarrow> Inr (fr, buff\<lparr>fctx := Some frag\<rparr>)
      | Some f \<Rightarrow>
        if GetMinSeq cur_seq (fr_seq (fr f)) = cur_seq
        then Inr (fr(frag := (fr frag)\<lparr>fr_next := Some f\<rparr>), buff\<lparr>fctx := Some frag\<rparr>)
        else (case prev of None \<Rightarrow> Inl NullDeref
              | Some p \<Rightarrow>
                andThen (c_assert (GetMinSeq cur_seq (fr_seq (fr p) + fr_len (fr p)) = fr_seq (fr p) + fr_len (fr p)) ())
                  (\<lambda>_. let fr = fr(p := (fr p)\<lparr>fr_next := Some frag\<rparr>)
                       in Inr (fr(frag := (fr frag)\<lparr>fr_next := iter\<rparr>), buff))))"

text \<open>The \<open>next\<close> of the new data pointer stays as the pool handed it out: nothing sets it.\<close>

definition recv_put ::
  "undeclared \<Rightarrow> nat option \<Rightarrow> nat option \<Rightarrow> frags \<Rightarrow> dptrs \<Rightarrow> recv_buffer \<Rightarrow> u32 \<Rightarrow> u32 \<Rightarrow>
    (int \<times> frags \<times> dptrs \<times> recv_buffer) res" where
  "recv_put u data_ptr new_frag fr dps buff len cur_seq =
     (if len \<le> 0 then Inr (0, fr, dps, buff)
      else case data_ptr of None \<Rightarrow> Inr (- 1, fr, dps, buff) | Some d \<Rightarrow>
        let dps = dps(d := (dps d)\<lparr>dp_seq := cur_seq, dp_len := len\<rparr>) in
      case new_frag of None \<Rightarrow> Inr (- 1, fr, dps, buff) | Some frag \<Rightarrow>
        let fr = fr(frag := \<lparr>fr_next = None, fr_seq = cur_seq, fr_len = len, data_list = Some d\<rparr>) in
        if GetMinSeq (rb_head_seq buff) cur_seq \<noteq> rb_head_seq buff then Inr (0, fr, dps, buff)
        else
          let putx = sint (cur_seq - rb_head_seq buff);
              end_off = sint (word_of_int putx + len) in
          if rb_chunk_size buff < end_off then Inr (- 2, fr, dps, buff)
          else
            let buff = (if rb_last_len buff < end_off then buff\<lparr>rb_last_len := end_off\<rparr> else buff) in
            andThen (with_fuel (recv_walk u cur_seq len frag False (fctx buff) None None fr dps buff))
              (\<lambda>(merged, iter, prev, fr, dps, buff).
            andThen (if \<not> merged then recv_link cur_seq frag iter prev fr buff else Inr (fr, buff)) (\<lambda>(fr, buff).
            case fctx buff of None \<Rightarrow> Inl NullDeref
            | Some f \<Rightarrow> Inr (sint len, fr, dps, buff\<lparr>rb_cum_len := ucast (fr_len (fr f))\<rparr>))))"

text \<open>The application takes \<open>len\<close> bytes; the fragment that is used up goes to a free list.\<close>

definition recv_remove :: "frags \<Rightarrow> recv_buffer \<Rightarrow> u64 \<Rightarrow> (u64 \<times> frags \<times> recv_buffer) res" where
  "recv_remove fr buff len =
     (let len = (if rb_cum_len buff < word_of_int (sint (ucast len :: u32)) then rb_cum_len buff else len) in
      if len = 0 then Inr (0, fr, buff)
      else
        let buff = buff\<lparr>rb_head_seq := rb_head_seq buff + ucast len, rb_cum_len := rb_cum_len buff - len,
                        rb_last_len := sint (ucast (word_of_int (rb_last_len buff) - len) :: u32)\<rparr> in
        case fctx buff of None \<Rightarrow> Inl NullDeref
        | Some f \<Rightarrow>
            if len = ucast (fr_len (fr f)) then Inr (len, fr, buff\<lparr>fctx := fr_next (fr f)\<rparr>)
            else if len < ucast (fr_len (fr f))
            then Inr (len, fr(f := (fr f)\<lparr>fr_seq := fr_seq (fr f) + ucast len, fr_len := fr_len (fr f) - ucast len\<rparr>), buff)
            else Inl AssertFailed)"

subsection \<open>Ranges of the buffer\<close>

fun frag_path :: "frags \<Rightarrow> nat option \<Rightarrow> nat list \<Rightarrow> bool" where
  "frag_path fr p [] \<longleftrightarrow> p = None"
| "frag_path fr p (f # fs) \<longleftrightarrow> p = Some f \<and> frag_path fr (fr_next (fr f)) fs"

text \<open>Where a fragment starts behind the head of the buffer, and how long it is.\<close>

definition frag_off :: "u32 \<Rightarrow> frags \<Rightarrow> nat \<Rightarrow> nat" where
  "frag_off head fr f = unat (fr_seq (fr f) - head)"

definition frag_len :: "frags \<Rightarrow> nat \<Rightarrow> nat" where
  "frag_len fr f = unat (fr_len (fr f))"

definition ranges :: "frags \<Rightarrow> recv_buffer \<Rightarrow> nat list \<Rightarrow> (nat \<times> nat) list" where
  "ranges fr b fs = map (\<lambda>f. (frag_off (rb_head_seq b) fr f, frag_len fr f)) fs"

text \<open>
  A well-formed buffer: its fragments are a list, they are not empty, lie inside the chunk and
  leave a gap between each other. The chunk is smaller than half of the sequence space.
\<close>

definition ranges_ok :: "nat \<Rightarrow> (nat \<times> nat) list \<Rightarrow> bool" where
  "ranges_ok chunk rs \<longleftrightarrow>
     (\<forall>(p, l)\<in>set rs. 0 < l \<and> p + l \<le> chunk) \<and> sorted_wrt (\<lambda>(p, l) (q, m). p + l < q) rs"

definition recv_ok :: "frags \<Rightarrow> recv_buffer \<Rightarrow> nat list \<Rightarrow> bool" where
  "recv_ok fr b fs \<longleftrightarrow>
     frag_path fr (fctx b) fs \<and> distinct fs \<and> 0 \<le> rb_chunk_size b \<and>
     rb_chunk_size b < 2 ^ 31 - 1 \<and> ranges_ok (nat (rb_chunk_size b)) (ranges fr b fs)"

lemma frag_path_cong:
  "\<forall>f\<in>set fs. fr_next (fr' f) = fr_next (fr f) \<Longrightarrow> frag_path fr' p fs \<longleftrightarrow> frag_path fr p fs"
  by (induction fs arbitrary: p) auto

lemma ranges_cong:
  "\<forall>f\<in>set fs. fr_seq (fr' f) = fr_seq (fr f) \<and> fr_len (fr' f) = fr_len (fr f) \<Longrightarrow>
   rb_head_seq b' = rb_head_seq b \<Longrightarrow> ranges fr' b' fs = ranges fr b fs"
  by (simp add: ranges_def frag_off_def frag_len_def)

lemma seq_at_off: "fr_seq (fr f) = head + word_of_nat (frag_off head fr f)"
  by (simp add: frag_off_def)

lemma len_word: "fr_len (fr f) = word_of_nat (frag_len fr f)"
  by (simp add: frag_len_def)

lemma GetMaxSeq_second:
  assumes "p < 2 ^ 31" "q < 2 ^ 31"
  shows "GetMaxSeq (base + word_of_nat p) (base + word_of_nat q) = base + word_of_nat q \<longleftrightarrow> p \<le> q"
  by (subst GetMaxSeq_offset [OF assms], subst offset_inj) (use assms in \<open>auto simp: max_def\<close>)

lemma CanMerge_frag:
  assumes "frag_off head fr f + frag_len fr f \<le> c" "frag_off head fr g + frag_len fr g \<le> c" "c < 2 ^ 31 - 1"
  shows "CanMerge (fr_seq (fr f)) (fr_len (fr f)) (fr_seq (fr g)) (fr_len (fr g)) \<longleftrightarrow>
    frag_off head fr g \<le> frag_off head fr f + frag_len fr f \<and> frag_off head fr f \<le> frag_off head fr g + frag_len fr g"
  unfolding seq_at_off [of fr _ head] len_word using assms by (intro CanMerge_offset) simp_all

subsection \<open>The walk\<close>

text \<open>Two fragments inside the chunk: behind, before, or in touch with each other.\<close>

definition inside :: "nat \<Rightarrow> u32 \<Rightarrow> frags \<Rightarrow> nat \<Rightarrow> bool" where
  "inside c head fr f \<longleftrightarrow> frag_off head fr f + frag_len fr f \<le> c"

definition apart :: "u32 \<Rightarrow> frags \<Rightarrow> nat \<Rightarrow> nat \<Rightarrow> bool" where
  "apart head fr f g \<longleftrightarrow> frag_off head fr f + frag_len fr f < frag_off head fr g"

lemma CanMerge_apart:
  "c < 2 ^ 31 - 1 \<Longrightarrow> inside c head fr f \<Longrightarrow> inside c head fr g \<Longrightarrow>
   CanMerge (fr_seq (fr f)) (fr_len (fr f)) (fr_seq (fr g)) (fr_len (fr g)) \<longleftrightarrow> \<not> apart head fr f g \<and> \<not> apart head fr g f"
  using CanMerge_frag [of head fr f c g] by (auto simp: inside_def apart_def)

lemma GetMaxSeq_apart:
  assumes c: "c < 2 ^ 31 - 1" and h: "inside c head fr f" "inside c head fr g"
  shows "GetMaxSeq (fr_seq (fr f) + fr_len (fr f)) (fr_seq (fr g)) = fr_seq (fr g) \<longleftrightarrow>
    frag_off head fr f + frag_len fr f \<le> frag_off head fr g"
proof -
  have "fr_seq (fr f) + fr_len (fr f) = head + word_of_nat (frag_off head fr f + frag_len fr f)"
    using seq_at_off [of fr f head] len_word [of fr f] by (simp add: algebra_simps)
  then show ?thesis
    using h c GetMaxSeq_second [of "frag_off head fr f + frag_len fr f" "frag_off head fr g" head]
    by (simp add: inside_def flip: seq_at_off)
qed

lemma walk_gap:
  assumes c: "c < 2 ^ 31 - 1" and h: "frag_path fr iter (as @ bs)" "inside c head fr n" "\<forall>f\<in>set as. inside c head fr f \<and> apart head fr f n"
    "case bs of [] \<Rightarrow> True | g # _ \<Rightarrow> inside c head fr g \<and> apart head fr n g"
  shows "recv_walk u (fr_seq (fr n)) (fr_len (fr n)) n False iter prev pprev fr dps b =
    Some (Inr (False, case bs of [] \<Rightarrow> None | g # _ \<Rightarrow> Some g, if as = [] then prev else Some (last as), fr, dps, b))"
  using h(1,3)
proof (induction as arbitrary: iter prev pprev)
  case Nil
  show ?case
  proof (cases bs)
    case (Cons g gs)
    then have "\<not> CanMerge (fr_seq (fr n)) (fr_len (fr n)) (fr_seq (fr g)) (fr_len (fr g))"
      "GetMaxSeq (fr_seq (fr n) + fr_len (fr n)) (fr_seq (fr g)) = fr_seq (fr g)"
      using h(2,4) CanMerge_apart [OF c, of head fr n g] GetMaxSeq_apart [OF c, of head fr n g] by (auto simp: apart_def)
    then show ?thesis using Nil Cons by (subst recv_walk.simps) simp
  qed (use Nil in \<open>subst recv_walk.simps, simp\<close>)
next
  case (Cons f as)
  then have "\<not> CanMerge (fr_seq (fr n)) (fr_len (fr n)) (fr_seq (fr f)) (fr_len (fr f))"
    "GetMaxSeq (fr_seq (fr n) + fr_len (fr n)) (fr_seq (fr f)) \<noteq> fr_seq (fr f)"
    using h(2) CanMerge_apart [OF c, of head fr n f] GetMaxSeq_apart [OF c, of head fr n f] by (auto simp: apart_def)
  then show ?case using Cons by (subst recv_walk.simps) simp
qed

lemma walk_touch:
  assumes c: "c < 2 ^ 31 - 1" and h: "frag_path fr iter (as @ i # bs)" "inside c head fr n" "\<forall>f\<in>set as. inside c head fr f \<and> apart head fr f n"
    "inside c head fr i" "\<not> apart head fr n i" "\<not> apart head fr i n" "n \<notin> set as" "prev \<noteq> Some n"
  shows "recv_walk u (fr_seq (fr n)) (fr_len (fr n)) n False iter prev pprev fr dps b =
    (case merge_fragments u n i fr dps of None \<Rightarrow> None | Some (Inl e) \<Rightarrow> Some (Inl e)
     | Some (Inr (fr', dps')) \<Rightarrow> recv_walk u (fr_seq (fr n)) (fr_len (fr n)) i True (fr_next (fr' i)) (Some i)
         (if as = [] then prev else Some (last as)) fr' dps' b)"
  using h(1,3,7,8)
proof (induction as arbitrary: iter prev pprev)
  case Nil
  have "CanMerge (fr_seq (fr n)) (fr_len (fr n)) (fr_seq (fr i)) (fr_len (fr i))"
    using h(2,4-6) CanMerge_apart [OF c] by blast
  then show ?case using Nil by (subst recv_walk.simps) (simp split: option.split sum.split prod.split)
next
  case (Cons f as)
  then have "\<not> CanMerge (fr_seq (fr n)) (fr_len (fr n)) (fr_seq (fr f)) (fr_len (fr f))"
    "GetMaxSeq (fr_seq (fr n) + fr_len (fr n)) (fr_seq (fr f)) \<noteq> fr_seq (fr f)"
    using h(2) CanMerge_apart [OF c, of head fr n f] GetMaxSeq_apart [OF c, of head fr n f] by (auto simp: apart_def)
  then show ?case using Cons by (subst recv_walk.simps) (simp cong: option.case_cong sum.case_cong)
qed

subsection \<open>Merging and linking\<close>

lemma merge_effect:
  assumes "n \<noteq> i" "merge_fragments u n i fr dps = Some (Inr (fr', dps'))"
  shows "\<forall>f. f \<noteq> n \<and> f \<noteq> i \<longrightarrow> fr' f = fr f"
    and "fr_next (fr' i) = (if fr_seq (fr n) < fr_seq (fr i) then fr_next (fr n) else fr_next (fr i))"
    and "fr_seq (fr' i) = (if fr_seq (fr n) < fr_seq (fr i) then fr_seq (fr n) else fr_seq (fr i))"
    and "fr_len (fr' i) = (if fr_seq (fr n) < fr_seq (fr i) then fr_len (fr n) else fr_len (fr i))"
  using assms by (auto simp: merge_fragments_def swap_fragment_def Let_def andThen_Inr_iff split: if_splits)

lemma frag_path_split:
  "frag_path fr p (as @ bs) \<Longrightarrow> as \<noteq> [] \<Longrightarrow> frag_path fr (fr_next (fr (last as))) bs"
  by (induction as arbitrary: p) (auto split: if_splits)

lemma frag_path_hd: "frag_path fr p bs \<Longrightarrow> p = (case bs of [] \<Rightarrow> None | g # _ \<Rightarrow> Some g)"
  by (cases bs) auto

lemma frag_path_link:
  assumes "frag_path fr p (as @ bs)" "as \<noteq> []" "distinct (as @ bs)" "n \<notin> set (as @ bs)"
    and "fr_next (fr' (last as)) = Some n" "frag_path fr (fr_next (fr' n)) bs"
    and "\<And>f. f \<noteq> n \<Longrightarrow> f \<noteq> last as \<Longrightarrow> fr_next (fr' f) = fr_next (fr f)"
  shows "frag_path fr' p (as @ n # bs)"
  using assms
proof (induction as arbitrary: p)
  case (Cons f as)
  show ?case
  proof (cases "as = []")
    case True
    have "\<forall>g\<in>set bs. fr_next (fr' g) = fr_next (fr g)"
      using Cons.prems(3,4) True by (intro ballI Cons.prems(7)) auto
    then have "frag_path fr' (fr_next (fr' n)) bs"
      using Cons.prems(6) frag_path_cong [of bs fr' fr] by simp
    then show ?thesis using True Cons.prems by simp
  next
    case False
    have "fr_next (fr' f) = fr_next (fr f)" using Cons.prems False by (intro Cons.prems(7)) auto
    moreover have "frag_path fr' (fr_next (fr f)) (as @ n # bs)"
      using Cons.prems False by (intro Cons.IH) auto
    ultimately show ?thesis using Cons.prems by simp
  qed
qed simp

subsection \<open>What a segment does to the ranges\<close>

lemma ucast_of_unat: "ucast (w :: u32) = (word_of_nat (unat w) :: u64)"
  by (simp add: word_unat_eq_iff unsigned_of_nat take_bit_nat_eq_self unat_u32_less [THEN less_trans])

lemma unat_u32_of_nat: "n < 2 ^ 32 \<Longrightarrow> unat (word_of_nat n :: u32) = n"
  by (simp add: unsigned_of_nat take_bit_nat_eq_self)

text \<open>The data pointer and the fragment that are made for a segment at offset \<open>p\<close> with \<open>l\<close> bytes.\<close>

definition with_data :: "nat \<Rightarrow> u32 \<Rightarrow> u32 \<Rightarrow> dptrs \<Rightarrow> dptrs" where
  "with_data d cur_seq len dps = dps(d := (dps d)\<lparr>dp_seq := cur_seq, dp_len := len\<rparr>)"

definition with_frag :: "nat \<Rightarrow> u32 \<Rightarrow> u32 \<Rightarrow> nat \<Rightarrow> frags \<Rightarrow> frags" where
  "with_frag n cur_seq len d fr = fr(n := \<lparr>fr_next = None, fr_seq = cur_seq, fr_len = len, data_list = Some d\<rparr>)"

definition with_last :: "int \<Rightarrow> recv_buffer \<Rightarrow> recv_buffer" where
  "with_last e b = (if rb_last_len b < e then b\<lparr>rb_last_len := e\<rparr> else b)"

lemma with_last_simps [simp]:
  "fctx (with_last e b) = fctx b" "rb_head_seq (with_last e b) = rb_head_seq b"
  "rb_chunk_size (with_last e b) = rb_chunk_size b"
  by (simp_all add: with_last_def)

lemma recv_put_accepted:
  assumes "0 < l" "int (p + l) \<le> rb_chunk_size b" "rb_chunk_size b < 2 ^ 31 - 1"
  shows "recv_put u (Some d) (Some n) fr dps b (word_of_nat l) (rb_head_seq b + word_of_nat p) =
    andThen (with_fuel (recv_walk u (rb_head_seq b + word_of_nat p) (word_of_nat l) n False (fctx b) None None
        (with_frag n (rb_head_seq b + word_of_nat p) (word_of_nat l) d fr)
        (with_data d (rb_head_seq b + word_of_nat p) (word_of_nat l) dps) (with_last (int (p + l)) b)))
      (\<lambda>(merged, iter, prev, fr, dps, buff).
    andThen (if \<not> merged then recv_link (rb_head_seq b + word_of_nat p) n iter prev fr buff else Inr (fr, buff)) (\<lambda>(fr, buff).
    case fctx buff of None \<Rightarrow> Inl NullDeref
    | Some f \<Rightarrow> Inr (int l, fr, dps, buff\<lparr>rb_cum_len := ucast (fr_len (fr f))\<rparr>)))"
proof -
  have pl: "p + l < 2147483647" using assms(2,3) by simp
  have u: "unat (word_of_nat l :: u32) = l" "unat (word_of_nat p + word_of_nat l :: u32) = p + l"
    using pl by (simp_all add: unat_u32_of_nat flip: of_nat_add)
  then have n0: "\<not> (word_of_nat l :: u32) \<le> 0" using assms(1) by (auto simp: word_le_nat_alt)
  have s: "sint (word_of_nat l :: u32) = int l" "sint (word_of_nat p + word_of_nat l :: u32) = int (p + l)"
    using sint_small [of "word_of_nat l"] sint_small [of "word_of_nat p + word_of_nat l"] u pl by simp_all
  have m: "GetMinSeq (rb_head_seq b) (rb_head_seq b + word_of_nat p) = rb_head_seq b"
    using GetMinSeq_eq_first [of 0 p "rb_head_seq b"] pl by simp
  have c: "\<not> rb_chunk_size b < int (p + l)" using assms(2) by simp
  show ?thesis unfolding recv_put_def s
    using n0 c by (simp add: m s with_frag_def with_data_def with_last_def)
qed

lemma with_frag_at [simp]:
  "fr_seq (with_frag n sq len d fr n) = sq" "fr_len (with_frag n sq len d fr n) = len"
  "fr_next (with_frag n sq len d fr n) = None" "f \<noteq> n \<Longrightarrow> with_frag n sq len d fr f = fr f"
  by (simp_all add: with_frag_def)

lemma with_frag_off:
  assumes "p < 2 ^ 31"
  shows "frag_off head (with_frag n (head + word_of_nat p) (word_of_nat l) d fr) n = p"
    "l < 2 ^ 31 \<Longrightarrow> frag_len (with_frag n sq (word_of_nat l) d fr) n = l"
    "f \<noteq> n \<Longrightarrow> frag_off head (with_frag n sq len d fr) f = frag_off head fr f"
    "f \<noteq> n \<Longrightarrow> frag_len (with_frag n sq len d fr) f = frag_len fr f"
  using assms by (simp_all add: frag_off_def frag_len_def unat_u32_of_nat)

lemma ranges_append [simp]: "ranges fr b (as @ bs) = ranges fr b as @ ranges fr b bs"
  by (simp add: ranges_def)

lemma ranges_Cons [simp]:
  "ranges fr b (f # fs) = (frag_off (rb_head_seq b) fr f, frag_len fr f) # ranges fr b fs"
  by (simp add: ranges_def)

lemma ranges_Nil [simp]: "ranges fr b [] = []"
  by (simp add: ranges_def)

lemma ball_ranges:
  "(\<forall>(q, m)\<in>set (ranges fr b fs). P q m) \<longleftrightarrow> (\<forall>f\<in>set fs. P (frag_off (rb_head_seq b) fr f) (frag_len fr f))"
  by (auto simp: ranges_def)

lemma ranges_ok_insert:
  assumes "ranges_ok c (as @ bs)" "0 < l" "p + l \<le> c"
    and "\<forall>(q, m)\<in>set as. q + m < p" "\<forall>(q, m)\<in>set bs. p + l < q"
  shows "ranges_ok c (as @ (p, l) # bs)"
  using assms by (fastforce simp: ranges_ok_def sorted_wrt_append)

lemma ranges_ok_inside:
  assumes "recv_ok fr b fs" "f \<in> set fs"
  shows "inside (nat (rb_chunk_size b)) (rb_head_seq b) fr f" "0 < frag_len fr f"
  using assms by (auto simp: recv_ok_def ranges_ok_def inside_def ranges_def)

lemma walk_chunk: "recv_ok fr b fs \<Longrightarrow> nat (rb_chunk_size b) < 2 ^ 31 - 1"
  by (auto simp: recv_ok_def nat_less_iff)

text \<open>A segment that touches no stored range is linked at its place.\<close>

lemma recv_put_gap:
  assumes ok: "recv_ok fr b (as @ bs)" and n: "n \<notin> set (as @ bs)"
    and l: "0 < l" "int (p + l) \<le> rb_chunk_size b"
    and before: "\<forall>(q, m)\<in>set (ranges fr b as). q + m < p"
    and after: "\<forall>(q, m)\<in>set (ranges fr b bs). p + l < q"
  shows "\<exists>fr' dps' b'. recv_put u (Some d) (Some n) fr dps b (word_of_nat l) (rb_head_seq b + word_of_nat p) =
      Inr (int l, fr', dps', b') \<and> recv_ok fr' b' (as @ n # bs) \<and>
    ranges fr' b' (as @ n # bs) = ranges fr b as @ (p, l) # ranges fr b bs \<and>
    rb_head_seq b' = rb_head_seq b \<and> rb_chunk_size b' = rb_chunk_size b \<and>
    rb_cum_len b' = word_of_nat (snd (hd (ranges fr b as @ [(p, l)])))"
proof -
  let ?h = "rb_head_seq b" and ?c = "nat (rb_chunk_size b)"
  let ?sq = "?h + word_of_nat p" and ?len = "word_of_nat l :: u32"
  have bef: "\<And>f. f \<in> set as \<Longrightarrow> frag_off ?h fr f + frag_len fr f < p \<and> f \<noteq> n"
    and aft: "\<And>f. f \<in> set bs \<Longrightarrow> p + l < frag_off ?h fr f \<and> f \<noteq> n"
    using before after n unfolding ball_ranges by auto
  define f1 where "f1 = with_frag n ?sq ?len d fr"
  define b1 where "b1 = with_last (int (p + l)) b"
  have c: "?c < 2 ^ 31 - 1" and cb: "rb_chunk_size b < 2 ^ 31 - 1"
    using walk_chunk [OF ok] ok by (simp_all add: recv_ok_def)
  have pl: "p + l \<le> ?c" "p < 2 ^ 31" "l < 2 ^ 31" using l(2) c by linarith+
  have path: "frag_path fr (fctx b) (as @ bs)" and d: "distinct (as @ bs)" using ok by (simp_all add: recv_ok_def)
  have f1: "f1 f = fr f" if "f \<noteq> n" for f using that by (simp add: f1_def)
  have fn: "fr_seq (f1 n) = ?sq" "fr_len (f1 n) = ?len" "fr_next (f1 n) = None"
    "frag_off ?h f1 n = p" "frag_len f1 n = l" using pl by (simp_all add: f1_def with_frag_off)
  have off: "frag_off ?h f1 f = frag_off ?h fr f" "frag_len f1 f = frag_len fr f" if "f \<noteq> n" for f
    using f1 [OF that] by (simp_all add: frag_off_def frag_len_def)
  have ins: "inside ?c ?h f1 f" if "f \<in> set (as @ bs)" for f
  proof -
    have "f \<noteq> n" using that n by metis
    then show ?thesis using ranges_ok_inside(1) [OF ok that] off [of f] by (simp add: inside_def)
  qed
  have path1: "frag_path f1 (fctx b) (as @ bs)" 
    using path n f1 frag_path_cong [of "as @ bs" f1 fr] by metis
  define d1 where "d1 = with_data d ?sq ?len dps"
  have w: "recv_walk u ?sq ?len n False (fctx b) None None f1 d1 b1 =
      Some (Inr (False, case bs of [] \<Rightarrow> None | g # _ \<Rightarrow> Some g, if as = [] then None else Some (last as), f1, d1, b1))"
    unfolding fn(1,2) [symmetric]
  proof (rule walk_gap [OF c path1])
    show "inside ?c ?h f1 n" using fn pl by (simp add: inside_def)
    show "\<forall>f\<in>set as. inside ?c ?h f1 f \<and> apart ?h f1 f n"
    proof
      fix f assume "f \<in> set as"
      then have "f \<noteq> n" "frag_off ?h fr f + frag_len fr f < p" using bef by simp_all
      then show "inside ?c ?h f1 f \<and> apart ?h f1 f n" using ins \<open>f \<in> set as\<close> off [of f] fn by (simp add: apart_def)
    qed
    show "case bs of [] \<Rightarrow> True | g # _ \<Rightarrow> inside ?c ?h f1 g \<and> apart ?h f1 n g"
    proof (cases bs)
      case (Cons g gs)
      then have "g \<noteq> n" "p + l < frag_off ?h fr g" using aft [of g] by simp_all
      then show ?thesis using ins [of g] Cons off [of g] fn by (simp add: apart_def)
    qed simp
  qed
  obtain f2 b2 where k: "recv_link ?sq n (case bs of [] \<Rightarrow> None | g # _ \<Rightarrow> Some g)
      (if as = [] then None else Some (last as)) f1 b1 = Inr (f2, b2)"
    "frag_path f2 (fctx b2) (as @ n # bs)" "\<forall>f. fr_seq (f2 f) = fr_seq (f1 f) \<and> fr_len (f2 f) = fr_len (f1 f)"
    "rb_head_seq b2 = ?h" "rb_chunk_size b2 = rb_chunk_size b" "fctx b2 = Some (hd (as @ [n]))"
  proof (cases as)
    case Nil
    have p1: "frag_path f1 (fctx b) bs" using path1 Nil by simp
    show ?thesis
    proof (cases bs)
      case (Cons g gs)
      have g: "g \<noteq> n" "p + l < frag_off ?h fr g" using aft [of g] Cons by simp_all
      have "frag_off ?h fr g < 2 ^ 31" using ins [of g] off [OF g(1)] c Cons by (simp add: inside_def)
      then have "GetMinSeq ?sq (fr_seq (f1 g)) = ?sq"
        using GetMinSeq_eq_first [of p "frag_off ?h fr g" ?h] g pl(2) seq_at_off [of fr g ?h] f1 by simp
      moreover have "fctx b = Some g" using p1 Cons by simp
      moreover have "frag_path (f1(n := (f1 n)\<lparr>fr_next := Some g\<rparr>)) (Some g) bs"
        using p1 n Cons \<open>fctx b = Some g\<close> by (subst frag_path_cong [of _ _ f1]) auto
      ultimately show ?thesis using Nil Cons
        by (intro that [of "f1(n := (f1 n)\<lparr>fr_next := Some g\<rparr>)" "b1\<lparr>fctx := Some n\<rparr>"])
          (simp_all add: recv_link_def b1_def)
    next
      case Nil
      then have "fctx b = None" using p1 by simp
      then show ?thesis using Nil \<open>as = []\<close> fn(3)
        by (intro that [of f1 "b1\<lparr>fctx := Some n\<rparr>"]) (simp_all add: recv_link_def b1_def)
    qed
  next
    case (Cons a as')
    have ne: "as \<noteq> []" using Cons by simp
    have a: "fctx b = Some a" using path1 Cons by simp
    have lt: "frag_off ?h fr f + frag_len fr f < p" "f \<noteq> n" if "f \<in> set as" for f
      using bef [OF that] by simp_all
    have a1: "GetMinSeq ?sq (fr_seq (f1 a)) \<noteq> ?sq"
      using GetMinSeq_eq_first [of p "frag_off ?h fr a" ?h] lt [of a] pl(2) seq_at_off [of fr a ?h] f1 [of a] Cons by simp
    let ?q = "last as"
    have q: "?q \<in> set as" using ne by simp
    have "fr_seq (f1 ?q) + fr_len (f1 ?q) = ?h + word_of_nat (frag_off ?h fr ?q + frag_len fr ?q)"
      using seq_at_off [of fr ?q ?h] len_word [of fr ?q] f1 [OF lt(2) [OF q]] by (simp add: algebra_simps)
    then have a2: "GetMinSeq ?sq (fr_seq (f1 ?q) + fr_len (f1 ?q)) = fr_seq (f1 ?q) + fr_len (f1 ?q)"
      using GetMinSeq_offset [of p "frag_off ?h fr ?q + frag_len fr ?q" ?h] lt(1) [OF q] pl(2) by (simp add: min_def)
    define it where "it = (case bs of [] \<Rightarrow> None | g # _ \<Rightarrow> Some g)"
    define f2 where "f2 = (let fr = f1(?q := (f1 ?q)\<lparr>fr_next := Some n\<rparr>) in fr(n := (fr n)\<lparr>fr_next := it\<rparr>))"
    have "recv_link ?sq n it (Some ?q) f1 b1 = Inr (f2, b1)"
      using a a1 a2 by (simp add: recv_link_def b1_def c_assert_def f2_def Let_def)
    moreover have "frag_path f2 (fctx b) (as @ n # bs)"
    proof (rule frag_path_link [OF path1 ne d n])
      show "fr_next (f2 ?q) = Some n" using lt(2) [OF q] by (simp add: f2_def Let_def)
      have "frag_path f1 it bs" using frag_path_split [OF path1 ne] frag_path_hd [of f1 _ bs] unfolding it_def by metis
      then show "frag_path f1 (fr_next (f2 n)) bs" by (simp add: f2_def Let_def)
      show "fr_next (f2 f) = fr_next (f1 f)" if "f \<noteq> n" "f \<noteq> ?q" for f using that by (simp add: f2_def Let_def)
    qed
    moreover have "\<forall>f. fr_seq (f2 f) = fr_seq (f1 f) \<and> fr_len (f2 f) = fr_len (f1 f)"
      by (simp add: f2_def Let_def)
    ultimately show ?thesis using ne Cons a by (intro that [of f2 b1]) (simp_all add: it_def b1_def)
  qed
  let ?e = "hd (as @ [n])"
  define b3 where "b3 = b2\<lparr>rb_cum_len := ucast (fr_len (f2 ?e))\<rparr>"
  have put: "recv_put u (Some d) (Some n) fr dps b ?len ?sq = Inr (int l, f2, d1, b3)"
    unfolding recv_put_accepted [OF l cb, of u d n fr dps, folded f1_def b1_def d1_def] w using k(1,6) by (simp add: b3_def)
  have rg: "ranges f2 b3 fs = map (\<lambda>f. (frag_off ?h f1 f, frag_len f1 f)) fs" for fs
    using k(3,4) by (simp add: ranges_def b3_def frag_off_def frag_len_def)
  have same: "map (\<lambda>f. (frag_off ?h f1 f, frag_len f1 f)) fs = ranges fr b fs" if "n \<notin> set fs" for fs
    using off that by (induction fs) auto
  have r: "ranges f2 b3 (as @ n # bs) = ranges fr b as @ (p, l) # ranges fr b bs"
    unfolding rg using same [of as] same [of bs] n fn by simp
  have "ranges_ok ?c (ranges fr b as @ (p, l) # ranges fr b bs)"
    using ok l(1) pl(1) before after by (intro ranges_ok_insert) (simp_all add: recv_ok_def)
  then have ok': "recv_ok f2 b3 (as @ n # bs)"
    using k(2,5) d n c cb ok r by (simp add: recv_ok_def b3_def)
  have "frag_len f1 ?e = snd (hd (ranges fr b as @ [(p, l)]))"
    using fn off n by (cases as) auto
  then have "rb_cum_len b3 = word_of_nat (snd (hd (ranges fr b as @ [(p, l)])))"
    using k(3) by (simp add: b3_def frag_len_def ucast_of_unat)
  then show ?thesis using put ok' r k(4,5) by (intro exI conjI) (assumption | simp add: b3_def)+
qed

text \<open>
  A segment that touches a stored range is not merged: the list keeps the range that starts at
  the smaller sequence number (as unsigned numbers), and if that is the new one, it loses every
  range behind.
\<close>

lemma recv_put_reaches:
  assumes ok: "recv_ok fr b (as @ i # bs)" and n: "n \<notin> set (as @ i # bs)"
    and l: "0 < l" "int (p + l) \<le> rb_chunk_size b"
    and before: "\<forall>(q, m)\<in>set (ranges fr b as). q + m < p"
    and touch: "frag_off (rb_head_seq b) fr i \<le> p + l" "p \<le> frag_off (rb_head_seq b) fr i + frag_len fr i"
    and new: "f1 = with_frag n (rb_head_seq b + word_of_nat p) (word_of_nat l) d fr"
      "d1 = with_data d (rb_head_seq b + word_of_nat p) (word_of_nat l) dps"
  shows "recv_walk u (rb_head_seq b + word_of_nat p) (word_of_nat l) n False (fctx b) None None f1 d1 b1 =
    (case merge_fragments u n i f1 d1 of None \<Rightarrow> None | Some (Inl e) \<Rightarrow> Some (Inl e)
     | Some (Inr (f2, d2)) \<Rightarrow> recv_walk u (rb_head_seq b + word_of_nat p) (word_of_nat l) i True (fr_next (f2 i)) (Some i)
         (if as = [] then None else Some (last as)) f2 d2 b1)"
proof -
  let ?h = "rb_head_seq b" and ?c = "nat (rb_chunk_size b)"
  have c: "?c < 2 ^ 31 - 1" using walk_chunk [OF ok] .
  have pl: "p + l \<le> ?c" "p < 2 ^ 31" "l < 2 ^ 31" using l(2) c by linarith+
  have nf: "f \<noteq> n" if "f \<in> set (as @ i # bs)" for f using that n by metis
  have fn: "fr_seq (f1 n) = ?h + word_of_nat p" "fr_len (f1 n) = word_of_nat l"
    "frag_off ?h f1 n = p" "frag_len f1 n = l" using pl by (simp_all add: new with_frag_off)
  have off: "frag_off ?h f1 f = frag_off ?h fr f" "frag_len f1 f = frag_len fr f" if "f \<noteq> n" for f
    using that by (simp_all add: new frag_off_def frag_len_def)
  have ins: "inside ?c ?h f1 f" if "f \<in> set (as @ i # bs)" for f
    using ranges_ok_inside(1) [OF ok that] off [OF nf [OF that]] by (simp add: inside_def)
  have path: "frag_path f1 (fctx b) (as @ i # bs)"
    using ok nf frag_path_cong [of "as @ i # bs" f1 fr] by (simp add: recv_ok_def new)
  have i: "i \<noteq> n" "i \<in> set (as @ i # bs)" using nf by simp_all
  have h: "inside ?c ?h f1 n" "inside ?c ?h f1 i" "\<not> apart ?h f1 n i" "\<not> apart ?h f1 i n"
    using fn pl ins [OF i(2)] off [OF i(1)] touch by (simp_all add: inside_def apart_def)
  have a: "\<forall>f\<in>set as. inside ?c ?h f1 f \<and> apart ?h f1 f n"
    using before nf ins off fn unfolding ball_ranges by (simp add: apart_def)
  have na: "n \<notin> set as" "None \<noteq> Some n" using n by simp_all
  show ?thesis
    by (rule walk_touch [OF c path h(1) a h(2,3,4) na, of u None d1 b1, unfolded fn(1,2)])
qed

text \<open>An abort of the merge, or a loop over the data pointers that does not end, is that of the call.\<close>

lemma recv_put_touch_fails:
  assumes ok: "recv_ok fr b (as @ i # bs)" and n: "n \<notin> set (as @ i # bs)"
    and l: "0 < l" "int (p + l) \<le> rb_chunk_size b"
    and before: "\<forall>(q, m)\<in>set (ranges fr b as). q + m < p"
    and touch: "frag_off (rb_head_seq b) fr i \<le> p + l" "p \<le> frag_off (rb_head_seq b) fr i + frag_len fr i"
    and new: "f1 = with_frag n (rb_head_seq b + word_of_nat p) (word_of_nat l) d fr"
      "d1 = with_data d (rb_head_seq b + word_of_nat p) (word_of_nat l) dps"
    and m: "merge_fragments u n i f1 d1 = None \<or> merge_fragments u n i f1 d1 = Some (Inl e)"
  shows "recv_put u (Some d) (Some n) fr dps b (word_of_nat l) (rb_head_seq b + word_of_nat p) =
    Inl (if merge_fragments u n i f1 d1 = None then NoReturn else e)"
proof -
  have "rb_chunk_size b < 2 ^ 31 - 1" using ok by (simp add: recv_ok_def)
  then show ?thesis
    using m recv_put_reaches [OF ok n l before touch new, of u "with_last (int (p + l)) b"]
    by (auto simp: recv_put_accepted [OF l, of u d n fr dps, folded new])
qed

lemma recv_put_touch:
  assumes ok: "recv_ok fr b (as @ i # bs)" and n: "n \<notin> set (as @ i # bs)"
    and l: "0 < l" "int (p + l) \<le> rb_chunk_size b"
    and before: "\<forall>(q, m)\<in>set (ranges fr b as). q + m < p"
    and touch: "frag_off (rb_head_seq b) fr i \<le> p + l" "p \<le> frag_off (rb_head_seq b) fr i + frag_len fr i"
    and new: "f1 = with_frag n (rb_head_seq b + word_of_nat p) (word_of_nat l) d fr"
      "d1 = with_data d (rb_head_seq b + word_of_nat p) (word_of_nat l) dps"
    and m: "merge_fragments u n i f1 d1 = Some (Inr (f2, d2))"
    and first: "first \<longleftrightarrow> rb_head_seq b + word_of_nat p < fr_seq (fr i)"
  shows "\<exists>fr' dps' b'. recv_put u (Some d) (Some n) fr dps b (word_of_nat l) (rb_head_seq b + word_of_nat p) =
      Inr (int l, fr', dps', b') \<and> recv_ok fr' b' (as @ i # (if first then [] else bs)) \<and>
    ranges fr' b' (as @ i # (if first then [] else bs)) =
      (if first then ranges fr b as @ [(p, l)] else ranges fr b (as @ i # bs)) \<and>
    rb_head_seq b' = rb_head_seq b \<and> rb_chunk_size b' = rb_chunk_size b \<and>
    rb_cum_len b' = word_of_nat (snd (hd (ranges fr' b' (as @ [i]))))"
proof -
  let ?h = "rb_head_seq b" and ?c = "nat (rb_chunk_size b)"
  let ?sq = "?h + word_of_nat p" and ?len = "word_of_nat l :: u32"
  have bef: "\<And>f. f \<in> set as \<Longrightarrow> frag_off ?h fr f + frag_len fr f < p \<and> f \<noteq> n"
    using before n unfolding ball_ranges by auto
  define b1 where "b1 = with_last (int (p + l)) b"
  have c: "?c < 2 ^ 31 - 1" and cb: "rb_chunk_size b < 2 ^ 31 - 1"
    using walk_chunk [OF ok] ok by (simp_all add: recv_ok_def)
  have pl: "p + l \<le> ?c" "p < 2 ^ 31" "l < 2 ^ 31" using l(2) c by linarith+
  have path: "frag_path fr (fctx b) (as @ i # bs)" and d: "distinct (as @ i # bs)" using ok by (simp_all add: recv_ok_def)
  have f1: "f1 f = fr f" if "f \<noteq> n" for f using that by (simp add: new)
  have nf: "f \<noteq> n" if "f \<in> set (as @ i # bs)" for f using that n by metis
  have fn: "fr_seq (f1 n) = ?sq" "fr_len (f1 n) = ?len" "fr_next (f1 n) = None"
    "frag_off ?h f1 n = p" "frag_len f1 n = l" using pl by (simp_all add: new with_frag_off)
  have off: "frag_off ?h f1 f = frag_off ?h fr f" "frag_len f1 f = frag_len fr f" if "f \<noteq> n" for f
    using f1 [OF that] by (simp_all add: frag_off_def frag_len_def)
  have ins: "inside ?c ?h f1 f" if "f \<in> set (as @ i # bs)" for f
    using ranges_ok_inside(1) [OF ok that] off [OF nf [OF that]] by (simp add: inside_def)
  have path1: "frag_path f1 (fctx b) (as @ i # bs)"
    using path nf f1 frag_path_cong [of "as @ i # bs" f1 fr] by metis
  have i: "i \<noteq> n" "i \<in> set (as @ i # bs)" using nf by simp_all
  note e = merge_effect [OF i(1) [symmetric] m]
  have lt: "fr_seq (f1 n) < fr_seq (f1 i) \<longleftrightarrow> first" using fn f1 [OF i(1)] first by simp
  have f2: "f2 f = fr f" if "f \<in> set (as @ bs)" for f
    using e(1) f1 nf [of f] that d by auto
  have f2i: "fr_next (f2 i) = (if first then None else fr_next (fr i))"
    "fr_seq (f2 i) = (if first then ?sq else fr_seq (fr i))" "fr_len (f2 i) = (if first then ?len else fr_len (fr i))"
    using e(2-4) lt fn f1 [OF i(1)] by simp_all
  have nxt: "fr_next (fr i) = (case bs of [] \<Rightarrow> None | g # _ \<Rightarrow> Some g)"
    using frag_path_split [OF path [unfolded append.simps(2)]] path frag_path_hd
    by (cases "as = []") (auto dest: frag_path_split dest!: frag_path_hd)
  have walk: "\<exists>iter. recv_walk u ?sq ?len n False (fctx b) None None f1 d1 b1 = Some (Inr (True, iter, Some i, f2, d2, b1))"
  proof -
    have "recv_walk u ?sq ?len n False (fctx b) None None f1 d1 b1 =
        recv_walk u ?sq ?len i True (fr_next (f2 i)) (Some i) (if as = [] then None else Some (last as)) f2 d2 b1"
      unfolding recv_put_reaches [OF ok n l before touch new, of u b1] m by simp
    moreover have "\<exists>iter. recv_walk u ?sq ?len i True (fr_next (f2 i)) (Some i) pp f2 d2 b1 =
        Some (Inr (True, iter, Some i, f2, d2, b1))" for pp
    proof (cases "fr_next (f2 i)")
      case None
      then show ?thesis by (subst recv_walk.simps) simp
    next
      case (Some g)
      then obtain gs where g: "bs = g # gs" "\<not> first" using f2i(1) nxt by (auto split: if_splits list.splits)
      have "frag_off ?h fr i + frag_len fr i < frag_off ?h fr g"
        using ok g by (auto simp: recv_ok_def ranges_ok_def sorted_wrt_append)
      then have "\<not> CanMerge (fr_seq (fr i)) (fr_len (fr i)) (fr_seq (fr g)) (fr_len (fr g))"
        using CanMerge_apart [OF c, of ?h fr i g] ranges_ok_inside(1) [OF ok] g by (simp add: apart_def)
      then show ?thesis using Some f2 [of g] f2i(2,3) g by (subst recv_walk.simps) simp
    qed
    ultimately show ?thesis by simp
  qed
  let ?e = "hd (as @ [i])"
  have fc: "fctx b1 = Some ?e" using path by (cases as) (simp_all add: b1_def)
  define b3 where "b3 = b1\<lparr>rb_cum_len := ucast (fr_len (f2 ?e))\<rparr>"
  have b3: "rb_head_seq b3 = ?h" "rb_chunk_size b3 = rb_chunk_size b" "fctx b3 = fctx b"
    by (simp_all add: b3_def b1_def)
  have put: "recv_put u (Some d) (Some n) fr dps b ?len ?sq = Inr (int l, f2, d2, b3)"
    using walk fc unfolding recv_put_accepted [OF l cb, of u d n fr dps, folded new b1_def] by (auto simp: b3_def)
  let ?fs = "as @ i # (if first then [] else bs)"
  have ra: "ranges f2 b3 fs = ranges fr b fs" if "set fs \<subseteq> set (as @ bs)" for fs
    using that f2 b3(1) by (intro ranges_cong) auto
  have "frag_off ?h f2 i = (if first then p else frag_off ?h fr i)" "frag_len f2 i = (if first then l else frag_len fr i)"
    using f2i pl by (simp_all add: frag_off_def frag_len_def unat_u32_of_nat)
  then have r: "ranges f2 b3 ?fs = (if first then ranges fr b as @ [(p, l)] else ranges fr b (as @ i # bs))"
    using ra [of as] ra [of bs] b3(1) by simp
  have path2: "frag_path f2 (fctx b) ?fs"
  proof (cases first)
    case True
    have "frag_path f2 p (as @ [i])" if "frag_path fr p (as @ i # bs)" "set as \<subseteq> set as'" "\<forall>f\<in>set as'. f2 f = fr f" for p as as'
      using that by (induction as arbitrary: p) (auto simp: f2i(1) True)
    from this [OF path, of as] show ?thesis using True f2 by simp
  next
    case False
    then have "\<forall>f\<in>set (as @ i # bs). fr_next (f2 f) = fr_next (fr f)" using f2 f2i(1) by auto
    then show ?thesis using path False frag_path_cong [of "as @ i # bs" f2 fr] by simp
  qed
  have ro: "ranges_ok ?c (if first then ranges fr b as @ [(p, l)] else ranges fr b (as @ i # bs))"
  proof (cases first)
    case True
    have "ranges_ok ?c (ranges fr b as @ [])" using ok by (auto simp: recv_ok_def ranges_ok_def sorted_wrt_append)
    then show ?thesis using True l(1) pl(1) before by (simp add: ranges_ok_insert)
  qed (use ok in \<open>simp add: recv_ok_def\<close>)
  have d2: "distinct ?fs" using d by (cases first) simp_all
  have z: "0 \<le> rb_chunk_size b" using ok by (simp add: recv_ok_def)
  have ok': "recv_ok f2 b3 ?fs" 
    using path2 ro d2 z cb by (simp only: recv_ok_def r b3 simp_thms)
  have cum: "rb_cum_len b3 = word_of_nat (snd (hd (ranges f2 b3 (as @ [i]))))"
  proof -
    have "snd (hd (ranges f2 b3 (as @ [i]))) = frag_len f2 ?e" by (cases as) simp_all
    moreover have "rb_cum_len b3 = word_of_nat (frag_len f2 ?e)"
      unfolding b3_def frag_len_def ucast_of_unat [symmetric] by simp
    ultimately show ?thesis by simp
  qed
  show ?thesis by (rule exI [of _ f2], rule exI [of _ d2], rule exI [of _ b3]) (intro conjI put ok' r b3(1,2) cum)
qed

subsection \<open>The buffer as a list of ranges\<close>

text \<open>
  What storing \<open>l\<close> bytes at offset \<open>p\<close> does to the ranges; \<open>first q\<close> says whether the sequence number
  at \<open>p\<close> is smaller than the one at \<open>q\<close> as an unsigned number.
\<close>

fun put_range :: "(nat \<Rightarrow> bool) \<Rightarrow> nat \<Rightarrow> nat \<Rightarrow> (nat \<times> nat) list \<Rightarrow> (nat \<times> nat) list" where
  "put_range first p l [] = [(p, l)]"
| "put_range first p l ((q, m) # rs) =
     (if q + m < p then (q, m) # put_range first p l rs
      else if p + l < q then (p, l) # (q, m) # rs
      else if first q then [(p, l)] else (q, m) # rs)"

lemma put_range_skip:
  "\<forall>(q, m)\<in>set as. q + m < p \<Longrightarrow> put_range first p l (as @ bs) = as @ put_range first p l bs"
  by (induction as) auto

lemma ranges_split:
  obtains as bs where "fs = as @ bs" "\<forall>(q, m)\<in>set (ranges fr b as). q + m < p"
    "bs = [] \<or> \<not> (frag_off (rb_head_seq b) fr (hd bs) + frag_len fr (hd bs) < p)"
proof -
  let ?P = "\<lambda>f. frag_off (rb_head_seq b) fr f + frag_len fr f < p"
  have "\<forall>f\<in>set (takeWhile ?P fs). ?P f" by (auto dest: set_takeWhileD)
  moreover have "dropWhile ?P fs = [] \<or> \<not> ?P (hd (dropWhile ?P fs))" using hd_dropWhile [of ?P fs] by blast
  ultimately show ?thesis
    by (intro that [of "takeWhile ?P fs" "dropWhile ?P fs"]) (simp_all add: ball_ranges)
qed

text \<open>
  The ranges after a segment are these whenever the call returns; it returns when the segment
  touches no range.
\<close>

definition stored ::
  "frags \<Rightarrow> recv_buffer \<Rightarrow> nat list \<Rightarrow> nat \<Rightarrow> nat \<Rightarrow> frags \<Rightarrow> recv_buffer \<Rightarrow> nat list \<Rightarrow> bool" where
  "stored fr b fs p l fr' b' fs' \<longleftrightarrow> recv_ok fr' b' fs' \<and>
     ranges fr' b' fs' = put_range (\<lambda>q. rb_head_seq b + word_of_nat p < rb_head_seq b + word_of_nat q) p l (ranges fr b fs) \<and>
     rb_head_seq b' = rb_head_seq b \<and> rb_cum_len b' = word_of_nat (snd (hd (ranges fr' b' fs')))"

lemma recv_put_apart:
  assumes ok: "recv_ok fr b fs" and n: "n \<notin> set fs" and l: "0 < l" "int (p + l) \<le> rb_chunk_size b"
    and gap: "\<forall>(q, m)\<in>set (ranges fr b fs). q + m < p \<or> p + l < q"
  shows "\<exists>fr' dps' b' fs'. recv_put u (Some d) (Some n) fr dps b (word_of_nat l) (rb_head_seq b + word_of_nat p) =
      Inr (int l, fr', dps', b') \<and> stored fr b fs p l fr' b' fs'"
proof -
  let ?first = "\<lambda>q. rb_head_seq b + word_of_nat p < rb_head_seq b + word_of_nat q"
  obtain as bs where s: "fs = as @ bs" "\<forall>(q, m)\<in>set (ranges fr b as). q + m < p"
    "bs = [] \<or> \<not> (frag_off (rb_head_seq b) fr (hd bs) + frag_len fr (hd bs) < p)"
    using ranges_split [of fs fr b p] .
  have t: "bs = [] \<or> p + l < frag_off (rb_head_seq b) fr (hd bs)"
    using gap s(1,3) unfolding ball_ranges by (cases bs) auto
  have skip: "put_range ?first p l (ranges fr b fs) = ranges fr b as @ put_range ?first p l (ranges fr b bs)"
    unfolding s(1) ranges_append by (rule put_range_skip [OF s(2)])
  have after: "\<forall>(q, m)\<in>set (ranges fr b bs). p + l < q"
  proof (cases bs)
    case (Cons g gs)
    have "\<forall>f\<in>set gs. frag_off (rb_head_seq b) fr g + frag_len fr g < frag_off (rb_head_seq b) fr f"
      using ok s(1) Cons by (auto simp: recv_ok_def ranges_ok_def sorted_wrt_append ball_ranges)
    then show ?thesis unfolding ball_ranges using t Cons by (auto intro: less_trans le_less_trans)
  qed simp
  have pr: "put_range ?first p l (ranges fr b bs) = (p, l) # ranges fr b bs"
    using t s(3) by (cases bs) auto
  from recv_put_gap [OF ok [unfolded s(1)] n [unfolded s(1)] l s(2) after, of u d dps]
  obtain fr' dps' b' where r: "recv_put u (Some d) (Some n) fr dps b (word_of_nat l) (rb_head_seq b + word_of_nat p) =
      Inr (int l, fr', dps', b')" "recv_ok fr' b' (as @ n # bs)"
    "ranges fr' b' (as @ n # bs) = ranges fr b as @ (p, l) # ranges fr b bs" "rb_head_seq b' = rb_head_seq b"
    "rb_cum_len b' = word_of_nat (snd (hd (ranges fr b as @ [(p, l)])))" by blast
  have "hd (ranges fr b as @ [(p, l)]) = hd (ranges fr b as @ (p, l) # ranges fr b bs)"
    by (simp add: hd_append)
  then have "stored fr b fs p l fr' b' (as @ n # bs)"
    unfolding stored_def skip pr using r(2-5) by simp
  then show ?thesis using r(1) by blast
qed

text \<open>The first range a segment touches.\<close>

definition first_touched :: "frags \<Rightarrow> recv_buffer \<Rightarrow> nat list \<Rightarrow> nat \<Rightarrow> nat \<Rightarrow> nat option" where
  "first_touched fr b fs p l =
     find (\<lambda>f. frag_off (rb_head_seq b) fr f \<le> p + l \<and> p \<le> frag_off (rb_head_seq b) fr f + frag_len fr f) fs"

lemma find_split:
  "find P xs = Some x \<Longrightarrow> \<exists>as bs. xs = as @ x # bs \<and> P x \<and> (\<forall>y\<in>set as. \<not> P y)"
proof (induction xs)
  case (Cons y ys)
  show ?case
  proof (cases "P y")
    case True
    then show ?thesis using Cons.prems by (intro exI [of _ "[]"] exI [of _ ys]) simp
  next
    case False
    then obtain as bs where "ys = as @ x # bs \<and> P x \<and> (\<forall>y\<in>set as. \<not> P y)" using Cons by auto
    then show ?thesis using False by (intro exI [of _ "y # as"] exI [of _ bs]) simp
  qed
qed simp

lemma touched_split:
  assumes ok: "recv_ok fr b fs" and t: "first_touched fr b fs p l = Some i"
  obtains as bs where "fs = as @ i # bs" "\<forall>(q, m)\<in>set (ranges fr b as). q + m < p"
    "frag_off (rb_head_seq b) fr i \<le> p + l" "p \<le> frag_off (rb_head_seq b) fr i + frag_len fr i"
proof -
  let ?T = "\<lambda>f. frag_off (rb_head_seq b) fr f \<le> p + l \<and> p \<le> frag_off (rb_head_seq b) fr f + frag_len fr f"
  obtain as bs where s: "fs = as @ i # bs" "?T i" "\<forall>f\<in>set as. \<not> ?T f"
    using find_split [OF t [unfolded first_touched_def]] by blast
  have "frag_off (rb_head_seq b) fr f + frag_len fr f < p" if f: "f \<in> set as" for f
  proof -
    have "frag_off (rb_head_seq b) fr f + frag_len fr f < frag_off (rb_head_seq b) fr i"
      using ok f s(1) by (auto simp: recv_ok_def ranges_ok_def sorted_wrt_append ball_ranges ranges_def)
    then show ?thesis using s(2,3) f by auto
  qed
  then show ?thesis using s by (intro that [of as bs]) (simp_all add: ball_ranges)
qed

lemma recv_put_touched:
  assumes ok: "recv_ok fr b fs" and n: "n \<notin> set fs" and l: "0 < l" "int (p + l) \<le> rb_chunk_size b"
    and t: "first_touched fr b fs p l = Some i"
    and new: "f1 = with_frag n (rb_head_seq b + word_of_nat p) (word_of_nat l) d fr"
      "d1 = with_data d (rb_head_seq b + word_of_nat p) (word_of_nat l) dps"
    and put: "put = recv_put u (Some d) (Some n) fr dps b (word_of_nat l) (rb_head_seq b + word_of_nat p)"
  shows "case merge_fragments u n i f1 d1 of None \<Rightarrow> put = Inl NoReturn | Some (Inl e) \<Rightarrow> put = Inl e
    | Some (Inr (f2, d2)) \<Rightarrow> \<exists>fr' dps' b' fs'. put = Inr (int l, fr', dps', b') \<and> stored fr b fs p l fr' b' fs'"
proof -
  let ?first = "\<lambda>q. rb_head_seq b + word_of_nat p < rb_head_seq b + word_of_nat q"
  let ?fst = "?first (frag_off (rb_head_seq b) fr i)"
  obtain as gs where s: "fs = as @ i # gs" "\<forall>(q, m)\<in>set (ranges fr b as). q + m < p"
    "frag_off (rb_head_seq b) fr i \<le> p + l" "p \<le> frag_off (rb_head_seq b) fr i + frag_len fr i"
    using touched_split [OF ok t] .
  note args = ok [unfolded s(1)] n [unfolded s(1)] l s(2-4) new
  show ?thesis
  proof (cases "merge_fragments u n i f1 d1")
    case None
    then show ?thesis using recv_put_touch_fails [OF args, of u] by (simp add: put)
  next
    case (Some r)
    show ?thesis
    proof (cases r)
      case (Inl e)
      then show ?thesis using Some recv_put_touch_fails [OF args, of u e] by (simp add: put)
    next
      case (Inr fd)
      obtain f2 d2 where m: "merge_fragments u n i f1 d1 = Some (Inr (f2, d2))" using Some Inr by (cases fd) simp
      have fst: "?fst \<longleftrightarrow> rb_head_seq b + word_of_nat p < fr_seq (fr i)"
        using seq_at_off [of fr i "rb_head_seq b"] by simp
      have "put_range ?first p l (ranges fr b (i # gs)) = (if ?fst then [(p, l)] else ranges fr b (i # gs))"
        using s(3,4) [folded not_less] by simp
      then have pr: "put_range ?first p l (ranges fr b fs) =
          (if ?fst then ranges fr b as @ [(p, l)] else ranges fr b (as @ i # gs))"
        unfolding s(1) using put_range_skip [OF s(2), of ?first l "ranges fr b (i # gs)"] by simp
      from recv_put_touch [OF args m fst]
      obtain fr' dps' b' where r: "put = Inr (int l, fr', dps', b')" "recv_ok fr' b' (as @ i # (if ?fst then [] else gs))"
        "ranges fr' b' (as @ i # (if ?fst then [] else gs)) =
           (if ?fst then ranges fr b as @ [(p, l)] else ranges fr b (as @ i # gs))"
        "rb_head_seq b' = rb_head_seq b" "rb_cum_len b' = word_of_nat (snd (hd (ranges fr' b' (as @ [i]))))"
        unfolding put by blast
      have h: "hd (ranges fr' b' (as @ [i])) = hd (ranges fr' b' (as @ i # (if ?fst then [] else gs)))"
        by (simp add: hd_append)
      have "stored fr b fs p l fr' b' (as @ i # (if ?fst then [] else gs))"
        unfolding stored_def pr r(3)[symmetric] using r(2,4,5) h by simp
      then show ?thesis using r(1) m by auto
    qed
  qed
qed

text \<open>Which data pointer the merge starts from, and that it aborts on a null \<open>next\<close>.\<close>

lemma merge_null_next:
  assumes "n \<noteq> i" "data_list (fr n) = Some d" "data_list (fr i) = Some x"
    and "dp_next (dps (if fr_seq (fr n) < fr_seq (fr i) then d else x)) = None"
  shows "merge_fragments u n i fr dps = Some (Inl NullDeref)"
proof -
  have "data_walk u q dps s None = Some (Inl NullDeref)" for q s by (subst data_walk.simps) simp
  then show ?thesis
    using assms by (auto simp: merge_fragments_def swap_fragment_def merge_data_def Let_def)
qed

lemma recv_put_null_next:
  assumes ok: "recv_ok fr b fs" and n: "n \<notin> set fs" and l: "0 < l" "int (p + l) \<le> rb_chunk_size b"
    and t: "first_touched fr b fs p l = Some i" and x: "data_list (fr i) = Some x"
    and null: "dp_next (dps (if rb_head_seq b + word_of_nat p < fr_seq (fr i) then d else x)) = None"
  shows "recv_put u (Some d) (Some n) fr dps b (word_of_nat l) (rb_head_seq b + word_of_nat p) = Inl NullDeref"
proof -
  define f1 where "f1 = with_frag n (rb_head_seq b + word_of_nat p) (word_of_nat l) d fr"
  define d1 where "d1 = with_data d (rb_head_seq b + word_of_nat p) (word_of_nat l) dps"
  have "i \<in> set fs" using t by (auto simp: first_touched_def find_Some_iff)
  then have "n \<noteq> i" using n by blast
  then have "merge_fragments u n i f1 d1 = Some (Inl NullDeref)"
    using x null by (intro merge_null_next [of _ _ _ d x]) (auto simp: f1_def d1_def with_frag_def with_data_def)
  then show ?thesis
    using recv_put_touched [OF ok n l t f1_def d1_def refl, of u] by simp
qed

lemma recv_put_returns:
  assumes ok: "recv_ok fr b fs" "n \<notin> set fs" "0 < l" "int (p + l) \<le> rb_chunk_size b"
    and r: "recv_put u (Some d) (Some n) fr dps b (word_of_nat l) (rb_head_seq b + word_of_nat p) = Inr r"
  shows "\<exists>fr' dps' b' fs'. r = (int l, fr', dps', b') \<and> stored fr b fs p l fr' b' fs'"
proof (cases "first_touched fr b fs p l")
  case None
  then have "\<forall>f\<in>set fs. frag_off (rb_head_seq b) fr f + frag_len fr f < p \<or> p + l < frag_off (rb_head_seq b) fr f"
    unfolding first_touched_def find_None_iff by (metis not_le)
  then show ?thesis using recv_put_apart [OF ok, of u d dps] r unfolding ball_ranges by auto
next
  case (Some i)
  from recv_put_touched [OF ok Some refl refl refl, of u d dps] show ?thesis
    using r by (auto split: option.splits sum.splits)
qed

subsection \<open>Taking bytes out\<close>

lemma frag_off_shift:
  assumes "k \<le> frag_off head fr f"
  shows "frag_off (head + word_of_nat k) fr f = frag_off head fr f - k"
proof -
  have k: "unat (word_of_nat k :: u32) = k"
    using assms unat_u32_less [of "fr_seq (fr f) - head"] by (simp add: unat_u32_of_nat frag_off_def)
  have "fr_seq (fr f) - (head + word_of_nat k) = (fr_seq (fr f) - head) - word_of_nat k" by (simp add: algebra_simps)
  then have "frag_off (head + word_of_nat k) fr f = unat ((fr_seq (fr f) - head) - word_of_nat k)"
    unfolding frag_off_def by (rule arg_cong)
  also have "\<dots> = frag_off head fr f - k" using assms k by (subst unat_sub_no_wrap) (simp_all add: frag_off_def)
  finally show ?thesis .
qed

lemma ranges_shift:
  assumes "\<forall>f\<in>set fs. k \<le> frag_off (rb_head_seq b) fr f" "rb_head_seq b' = rb_head_seq b + word_of_nat k"
  shows "ranges fr b' fs = map (\<lambda>(q, m). (q - k, m)) (ranges fr b fs)"
  using assms by (simp add: ranges_def frag_off_shift)

lemma recv_remove_effect:
  assumes ok: "recv_ok fr b (f # fs)" and cum: "rb_cum_len b = word_of_nat (frag_len fr f)"
    and k: "0 < k" "k \<le> frag_len fr f"
  shows "\<exists>fr' b'. recv_remove fr b (word_of_nat k) = Inr (word_of_nat k, fr', b') \<and>
    rb_head_seq b' = rb_head_seq b + word_of_nat k \<and> rb_cum_len b' = word_of_nat (frag_len fr f - k) \<and>
    (if k = frag_len fr f
     then frag_path fr' (fctx b') fs \<and> ranges fr' b' fs = map (\<lambda>(q, m). (q - k, m)) (ranges fr b fs)
     else frag_path fr' (fctx b') (f # fs) \<and> ranges fr' b' (f # fs) =
       (frag_off (rb_head_seq b) fr f, frag_len fr f - k) # map (\<lambda>(q, m). (q - k, m)) (ranges fr b fs))"
proof -
  let ?m = "frag_len fr f" and ?h = "rb_head_seq b" and ?k = "word_of_nat k :: u64"
  have m: "?m < 2 ^ 31"
    using ok by (auto simp: recv_ok_def ranges_ok_def)
  have path: "fctx b = Some f" "frag_path fr (fr_next (fr f)) fs" and d: "f \<notin> set fs"
    using ok by (simp_all add: recv_ok_def)
  have beh: "\<forall>g\<in>set fs. k \<le> frag_off ?h fr g"
    using ok k by (fastforce simp: recv_ok_def ranges_ok_def ball_ranges)
  have u: "unat ?k = k" "unat (rb_cum_len b) = ?m" "ucast ?k = (word_of_nat k :: u32)"
    "unat (word_of_nat k :: u32) = k"
    using k m cum by (simp_all add: unsigned_of_nat take_bit_nat_eq_self unsigned_ucast_eq word_unat_eq_iff)
  have s: "word_of_int (sint (ucast ?k :: u32)) = ?k"
    using sint_small [of "ucast ?k"] u k m by simp
  have fl: "ucast (fr_len (fr f)) = (word_of_nat ?m :: u64)" by (simp only: ucast_of_unat frag_len_def)
  have nlt: "(word_of_nat ?m < ?k) = False" using u k cum by (simp add: unat_mono_less)
  have n0: "(?k = 0) = False" using u(1) k(1) by auto
  have sub: "word_of_nat ?m - ?k = word_of_nat (?m - k)" using k(2) by simp
  define b1 where "b1 = b\<lparr>rb_head_seq := ?h + word_of_nat k, rb_cum_len := word_of_nat (?m - k),
    rb_last_len := sint (ucast (word_of_int (rb_last_len b) - ?k) :: u32)\<rparr>"
  have rm: "recv_remove fr b ?k = (if ?k = word_of_nat ?m then Inr (?k, fr, b1\<lparr>fctx := fr_next (fr f)\<rparr>)
      else if ?k < word_of_nat ?m
      then Inr (?k, fr(f := (fr f)\<lparr>fr_seq := fr_seq (fr f) + ucast ?k, fr_len := fr_len (fr f) - ucast ?k\<rparr>), b1)
      else Inl AssertFailed)"
    unfolding recv_remove_def Let_def unfolding s cum unfolding nlt unfolding if_False
    unfolding n0 unfolding if_False u(3) sub b1_def by (simp add: path(1) fl)
  show ?thesis
  proof (cases "k = ?m")
    case True
    then show ?thesis using rm path(2) ranges_shift [OF beh, of "b1\<lparr>fctx := fr_next (fr f)\<rparr>"]
      by (simp add: b1_def)
  next
    case False
    define f2 where "f2 = fr(f := (fr f)\<lparr>fr_seq := fr_seq (fr f) + ucast ?k, fr_len := fr_len (fr f) - ucast ?k\<rparr>)"
    have ne: "?k < word_of_nat ?m" using False k u cum by (simp add: unat_mono_less)
    then have e: "recv_remove fr b ?k = Inr (?k, f2, b1)"
      unfolding rm f2_def by (metis less_irrefl)
    have "frag_path f2 (fctx b1) (f # fs)"
      using path d frag_path_cong [of fs f2 fr] by (simp add: b1_def f2_def)
    moreover have "ranges f2 b1 fs = map (\<lambda>(q, m). (q - k, m)) (ranges fr b fs)"
      using ranges_shift [OF beh, of b1] d ranges_cong [of fs f2 fr b1 b1] by (simp add: b1_def f2_def)
    moreover have "frag_off (?h + word_of_nat k) f2 f = frag_off ?h fr f"
      using u(3) by (simp add: frag_off_def f2_def)
    moreover have "frag_len f2 f = ?m - k"
      using u k(2) by (simp add: f2_def frag_len_def unat_sub_no_wrap)
    ultimately show ?thesis using e False by (intro exI [of _ f2] exI [of _ b1]) (simp add: b1_def)
  qed
qed

subsection \<open>Properties\<close>

text \<open>
  C16: The receive buffer as a list of ranges. Let a segment of \<open>l\<close> bytes at offset \<open>p\<close> arrive in a
  well-formed buffer, with room in the chunk and both allocations successful. If it touches no
  range, \<open>recv_put\<close> returns \<open>l\<close>. Whenever \<open>recv_put\<close> returns, it returns \<open>l\<close>, keeps the buffer well
  formed and has done to its ranges what \<open>put_range\<close> says: a segment that touches no range is
  inserted at its place; one that touches a range is never joined with it, and if its sequence
  number is the smaller one it replaces the range and everything behind. \<open>cum_len\<close> becomes the
  length of the first range, wherever it starts. But a segment that touches a range makes
  \<open>merge_fragments\<close> follow the \<open>next\<close> of a data pointer, the new one's when its sequence number is
  the smaller one and that of the range otherwise, which the code never sets: if it is null the
  call dereferences null.
\<close>

theorem recv_put_refines_ranges:
  assumes ok: "recv_ok fr b fs" "n \<notin> set fs" "0 < l" "int (p + l) \<le> rb_chunk_size b"
    and put: "put = recv_put u (Some d) (Some n) fr dps b (word_of_nat l) (rb_head_seq b + word_of_nat p)"
  shows "((\<forall>(q, m)\<in>set (ranges fr b fs). q + m < p \<or> p + l < q) \<longrightarrow> (\<exists>r. put = Inr r)) \<and>
    (\<forall>r. put = Inr r \<longrightarrow> (\<exists>fr' dps' b' fs'. r = (int l, fr', dps', b') \<and> recv_ok fr' b' fs' \<and>
      ranges fr' b' fs' = put_range (\<lambda>q. rb_head_seq b + word_of_nat p < rb_head_seq b + word_of_nat q) p l (ranges fr b fs) \<and>
      rb_head_seq b' = rb_head_seq b \<and> rb_cum_len b' = word_of_nat (snd (hd (ranges fr' b' fs'))))) \<and>
    (\<forall>i x. first_touched fr b fs p l = Some i \<longrightarrow> data_list (fr i) = Some x \<longrightarrow>
      dp_next (dps (if rb_head_seq b + word_of_nat p < fr_seq (fr i) then d else x)) = None \<longrightarrow> put = Inl NullDeref)"
proof -
  have "\<exists>fr' dps' b' fs'. r = (int l, fr', dps', b') \<and> stored fr b fs p l fr' b' fs'" if "put = Inr r" for r
    using recv_put_returns [OF ok] that unfolding put by blast
  then show ?thesis
    using recv_put_apart [OF ok, of u d dps] recv_put_null_next [OF ok, of _ _ dps d u]
    unfolding put stored_def by blast
qed

text \<open>A buffer at 1000 with the ranges 0..10 and 30..35, in fragments 1 and 2.\<close>

definition two_ranges :: "fragment list \<Rightarrow> frags" where
  "two_ranges fs = (\<lambda>i. if i = 1 then fs ! 0 else fs ! 1)"

definition demo_frags :: frags where
  "demo_frags = two_ranges [\<lparr>fr_next = Some 2, fr_seq = 1000, fr_len = 10, data_list = Some 0\<rparr>,
     \<lparr>fr_next = None, fr_seq = 1030, fr_len = 5, data_list = Some 0\<rparr>]"

definition demo_rcvbuf :: recv_buffer where
  "demo_rcvbuf = \<lparr>rb_cum_len = 10, rb_last_len = 35, rb_chunk_size = 8192, rb_head_seq = 1000,
     rb_init_seq = 1000, fctx = Some 1\<rparr>"

lemma demo_ranges: "ranges demo_frags demo_rcvbuf [1, 2] = [(0, 10), (30, 5)]"
  by (simp add: ranges_def frag_off_def frag_len_def demo_frags_def demo_rcvbuf_def two_ranges_def)

lemma demo_ok: "recv_ok demo_frags demo_rcvbuf [1, 2]"
  unfolding recv_ok_def demo_ranges
  by (simp add: demo_frags_def demo_rcvbuf_def two_ranges_def ranges_ok_def)

text \<open>The data pointer 0 of both ranges, with nothing behind it or with a pointer 5 for 1010 on.\<close>

definition demo_dptrs :: "nat option \<Rightarrow> dptrs" where
  "demo_dptrs nx = (\<lambda>i. if i = 5 then \<lparr>dp_seq = 1010, dp_len = 5, dp_next = None\<rparr>
     else \<lparr>dp_seq = 1000, dp_len = 10, dp_next = nx\<rparr>)"

definition no_names :: undeclared where
  "no_names = (\<lambda>_. 0, \<lambda>_. 0)"

lemma demo_merge_returns:
  "\<exists>r. recv_put no_names (Some 4) (Some 3) demo_frags (demo_dptrs (Some 5)) demo_rcvbuf (word_of_nat 4)
     (rb_head_seq demo_rcvbuf + word_of_nat 10) = Inr r"
proof -
  have t: "first_touched demo_frags demo_rcvbuf [1, 2] 10 4 = Some 1"
    by (simp add: first_touched_def frag_off_def frag_len_def demo_frags_def demo_rcvbuf_def two_ranges_def)
  have h: "(3 :: nat) \<notin> set [1, 2]" "(0 :: nat) < 4" "int (10 + 4) \<le> rb_chunk_size demo_rcvbuf"
    by (simp_all add: demo_rcvbuf_def)
  define f1 where "f1 = with_frag 3 (rb_head_seq demo_rcvbuf + word_of_nat 10) (word_of_nat 4) 4 demo_frags"
  define d1 where "d1 = with_data 4 (rb_head_seq demo_rcvbuf + word_of_nat 10) (word_of_nat 4) (demo_dptrs (Some 5))"
  have f: "fr_seq (f1 3) = 1010" "fr_seq (f1 1) = 1000" "data_list (f1 1) = Some 0" "d1 0 = demo_dptrs (Some 5) 0" "d1 5 = demo_dptrs (Some 5) 5"
    by (simp_all add: f1_def d1_def with_frag_def with_data_def demo_frags_def two_ranges_def demo_rcvbuf_def)
  have "data_walk no_names 1010 d1 0 (Some 5) = Some (Inr (0, 5))"
    by (subst data_walk.simps) (simp add: f demo_dptrs_def)
  then have "\<exists>f2 d2. merge_fragments no_names 3 1 f1 d1 = Some (Inr (f2, d2))"
    by (simp add: merge_fragments_def merge_data_def f [unfolded One_nat_def] demo_dptrs_def) (simp add: Let_def)
  then show ?thesis
    using recv_put_touched [OF demo_ok h t f1_def d1_def refl, of no_names] by auto
qed

theorem recv_put_refines_ranges_witness:
  "(\<exists>fr' dps' b' fs'. recv_put no_names (Some 4) (Some 3) demo_frags (demo_dptrs None) demo_rcvbuf 4 1015 = Inr (4, fr', dps', b') \<and>
     ranges fr' b' fs' = [(0, 10), (15, 4), (30, 5)] \<and> rb_cum_len b' = 10) \<and>
   recv_put no_names (Some 4) (Some 3) demo_frags (demo_dptrs None) demo_rcvbuf 4 1010 = Inl NullDeref \<and>
   (\<exists>fr' dps' b' fs'. recv_put no_names (Some 4) (Some 3) demo_frags (demo_dptrs (Some 5)) demo_rcvbuf 4 1010 = Inr (4, fr', dps', b') \<and>
     ranges fr' b' fs' = [(0, 10), (30, 5)])"
proof (intro conjI)
  have h: "rb_head_seq demo_rcvbuf = 1000" by (simp add: demo_rcvbuf_def)
  have p: "int (15 + 4) \<le> rb_chunk_size demo_rcvbuf" "int (10 + 4) \<le> rb_chunk_size demo_rcvbuf"
    "(3 :: nat) \<notin> set [1, 2]" "(0 :: nat) < 4" by (simp_all add: demo_rcvbuf_def)
  note t = recv_put_refines_ranges [where u = no_names and d = 4, OF demo_ok p(3,4) _ refl, unfolded demo_ranges]
  obtain r where r: "recv_put no_names (Some 4) (Some 3) demo_frags (demo_dptrs None) demo_rcvbuf (word_of_nat 4)
      (rb_head_seq demo_rcvbuf + word_of_nat 15) = Inr r" using t [OF p(1), of "demo_dptrs None"] by auto
  then obtain fr' dps' b' fs' where "r = (int 4, fr', dps', b')"
    "ranges fr' b' fs' = put_range (\<lambda>q. rb_head_seq demo_rcvbuf + word_of_nat 15 < rb_head_seq demo_rcvbuf + word_of_nat q) 15 4 [(0, 10), (30, 5)]"
    "rb_cum_len b' = word_of_nat (snd (hd (ranges fr' b' fs')))"
    using t [OF p(1), of "demo_dptrs None"] by blast
  then show "\<exists>fr' dps' b' fs'. recv_put no_names (Some 4) (Some 3) demo_frags (demo_dptrs None) demo_rcvbuf 4 1015 = Inr (4, fr', dps', b') \<and>
     ranges fr' b' fs' = [(0, 10), (15, 4), (30, 5)] \<and> rb_cum_len b' = 10"
    using r by (auto simp: h)
  have "first_touched demo_frags demo_rcvbuf [1, 2] 10 4 = Some 1"
    by (simp add: first_touched_def frag_off_def frag_len_def demo_frags_def demo_rcvbuf_def two_ranges_def)
  moreover have "data_list (demo_frags 1) = Some 0" by (simp add: demo_frags_def two_ranges_def)
  moreover have "dp_next (demo_dptrs None x) = None" for x by (simp add: demo_dptrs_def)
  ultimately show "recv_put no_names (Some 4) (Some 3) demo_frags (demo_dptrs None) demo_rcvbuf 4 1010 = Inl NullDeref"
    using t [OF p(2), of "demo_dptrs None"] by (simp add: h)
  obtain r where r: "recv_put no_names (Some 4) (Some 3) demo_frags (demo_dptrs (Some 5)) demo_rcvbuf (word_of_nat 4)
      (rb_head_seq demo_rcvbuf + word_of_nat 10) = Inr r" using demo_merge_returns by blast
  then obtain fr' dps' b' fs' where "r = (int 4, fr', dps', b')"
    "ranges fr' b' fs' = put_range (\<lambda>q. rb_head_seq demo_rcvbuf + word_of_nat 10 < rb_head_seq demo_rcvbuf + word_of_nat q) 10 4 [(0, 10), (30, 5)]"
    using t [OF p(2), of "demo_dptrs (Some 5)"] by blast
  then show "\<exists>fr' dps' b' fs'. recv_put no_names (Some 4) (Some 3) demo_frags (demo_dptrs (Some 5)) demo_rcvbuf 4 1010 = Inr (4, fr', dps', b') \<and>
     ranges fr' b' fs' = [(0, 10), (30, 5)]"
    using r by (auto simp: h)
qed

end
