(* ===== verification/Recv_Tcp.thy ===== *)
theory Recv_Tcp
  imports Recv_Buffer Tcp_Process
begin

text \<open>
  The receive buffer under \<open>cmt_tcp_process_payload\<close> of \<open>src/tcp.c\<close>: which bytes a connection
  acknowledges when the buffer is the one of \<open>src/tcp_buffer.c\<close>.
\<close>

text \<open>The buffer operation of the environment, for given fragments, data pointers and allocations.\<close>

definition put_in ::
  "undeclared \<Rightarrow> nat option \<Rightarrow> nat option \<Rightarrow> frags \<Rightarrow> dptrs \<Rightarrow> recv_buffer \<Rightarrow> u8 list \<Rightarrow> u32 \<Rightarrow> u32 \<Rightarrow>
    (int \<times> recv_buffer) res" where
  "put_in u d n fr dps b payload len sq = andThen (recv_put u d n fr dps b len sq) (\<lambda>(r, _, _, b). Inr (r, b))"

text \<open>How the call on the buffer and the call on the stream are related.\<close>

lemma payload_put:
  assumes st: "rcvbuf (rcvvar (streams m s)) = Some b" "state (streams m s) = CMT_TCP_ESTABLISHED"
    and window: "\<not> TCP_SEQ_LT (sq + word_of_nat l) (rcv_nxt (streams m s))"
      "\<not> TCP_SEQ_GT (sq + word_of_nat l) (rcv_nxt (streams m s) + rcv_wnd (rcvvar (streams m s)))"
  shows "e_recv_put E b payload (word_of_nat l) sq = Inl e \<Longrightarrow> cmt_tcp_process_payload E s payload sq (int l) m = Inl e"
    and "e_recv_put E b payload (word_of_nat l) sq = Inr (int l, b') \<Longrightarrow>
      \<exists>m'. cmt_tcp_process_payload E s payload sq (int l) m = Inr (1, m') \<and>
        rcv_nxt (streams m' s) = rb_head_seq b' + ucast (rb_cum_len b')"
  unfolding cmt_tcp_process_payload_def Let_def
  using window st by (simp_all add: flush_read_def split: option.split)

lemma payload_rcv_nxt_value:
  assumes ok: "recv_ok fr b fs" "n \<notin> set fs" "0 < l" "int (p + l) \<le> rb_chunk_size b"
    and E: "e_recv_put E = put_in u (Some d) (Some n) fr dps"
    and st: "rcvbuf (rcvvar (streams m s)) = Some b" "state (streams m s) = CMT_TCP_ESTABLISHED"
    and sq: "sq = rb_head_seq b + word_of_nat p"
    and window: "\<not> TCP_SEQ_LT (sq + word_of_nat l) (rcv_nxt (streams m s))"
      "\<not> TCP_SEQ_GT (sq + word_of_nat l) (rcv_nxt (streams m s) + rcv_wnd (rcvvar (streams m s)))"
    and r: "recv_put u (Some d) (Some n) fr dps b (word_of_nat l) sq = Inr (int l, fr', dps', b')"
      "stored fr b fs p l fr' b' fs'"
  shows "\<exists>m'. cmt_tcp_process_payload E s payload sq (int l) m = Inr (1, m') \<and>
    rcv_nxt (streams m' s) = rb_head_seq b +
      word_of_nat (snd (hd (put_range (\<lambda>q. sq < rb_head_seq b + word_of_nat q) p l (ranges fr b fs))))"
proof -
  have e: "e_recv_put E b payload (word_of_nat l) sq = Inr (int l, b')"
    by (simp add: E put_in_def r(1))
  have c: "ucast (word_of_nat k :: u64) = (word_of_nat k :: u32)" for k
    by (simp add: word_unat_eq_iff unat_ucast_u64_u32 unsigned_of_nat take_bit_nat_def mod_mod_cancel)
  show ?thesis
    using payload_put(2) [where E = E, OF st window e] r(2) unfolding sq by (auto simp: stored_def c)
qed

text \<open>
  C17: What an established connection acknowledges. A segment of \<open>l\<close> bytes at offset \<open>p\<close> of its
  well-formed receive buffer, inside the window, with both allocations successful: whenever
  \<open>cmt_tcp_process_payload\<close> returns, and it does when the segment touches no stored range, the
  next expected sequence number is the head of the buffer plus the length of the first range,
  wherever that range starts. So a segment with a hole in front of it, stored in an empty buffer,
  acknowledges \<open>l\<close> bytes that never arrived; and a segment that continues the bytes \<open>0..p\<close> already
  there (without the sequence numbers wrapping around) is not acknowledged: the call aborts, or
  does not return, in the merge of the data pointers, or the number stays at the end of the old bytes.
\<close>

theorem payload_acknowledgement:
  assumes ok: "recv_ok fr b fs" "n \<notin> set fs" "0 < l" "int (p + l) \<le> rb_chunk_size b"
    and E: "e_recv_put E = put_in u (Some d) (Some n) fr dps"
    and st: "rcvbuf (rcvvar (streams m s)) = Some b" "state (streams m s) = CMT_TCP_ESTABLISHED"
    and sq: "sq = rb_head_seq b + word_of_nat p"
    and window: "\<not> TCP_SEQ_LT (sq + word_of_nat l) (rcv_nxt (streams m s))"
      "\<not> TCP_SEQ_GT (sq + word_of_nat l) (rcv_nxt (streams m s) + rcv_wnd (rcvvar (streams m s)))"
  shows "(\<forall>r m'. cmt_tcp_process_payload E s payload sq (int l) m = Inr (r, m') \<longrightarrow> r = 1 \<and>
      rcv_nxt (streams m' s) = rb_head_seq b +
        word_of_nat (snd (hd (put_range (\<lambda>q. sq < rb_head_seq b + word_of_nat q) p l (ranges fr b fs)))) \<and>
      (ranges fr b fs = [(0, p)] \<and> rb_head_seq b \<le> sq \<longrightarrow> rcv_nxt (streams m' s) = sq)) \<and>
    ((\<forall>(q, k)\<in>set (ranges fr b fs). q + k < p \<or> p + l < q) \<longrightarrow>
      (\<exists>m'. cmt_tcp_process_payload E s payload sq (int l) m = Inr (1, m'))) \<and>
    (ranges fr b fs = [] \<longrightarrow> (\<exists>m'. cmt_tcp_process_payload E s payload sq (int l) m = Inr (1, m') \<and>
      rcv_nxt (streams m' s) = rb_head_seq b + word_of_nat l))"
proof -
  let ?put = "recv_put u (Some d) (Some n) fr dps b (word_of_nat l) sq"
  let ?run = "cmt_tcp_process_payload E s payload sq (int l) m"
  let ?nxt = "rb_head_seq b + word_of_nat (snd (hd (put_range (\<lambda>q. sq < rb_head_seq b + word_of_nat q) p l (ranges fr b fs))))"
  note nxt = payload_rcv_nxt_value [where E = E and payload = payload, OF ok E st sq window]
  have returned: "r = 1 \<and> rcv_nxt (streams m' s) = ?nxt" if run: "?run = Inr (r, m')" for r m'
  proof (cases ?put)
    case (Inl e)
    then have "?run = Inl e" using payload_put(1) [where E = E, OF st window] by (simp add: E put_in_def)
    then show ?thesis using run by simp
  next
    case (Inr x)
    then obtain fr' dps' b' fs' where "?put = Inr (int l, fr', dps', b')" "stored fr b fs p l fr' b' fs'"
      using recv_put_returns [OF ok, of u d dps] unfolding sq by metis
    then show ?thesis using nxt run by fastforce
  qed
  have "snd (hd (put_range (\<lambda>q. sq < rb_head_seq b + word_of_nat q) p l [(0, p)])) = p" if "rb_head_seq b \<le> sq"
    using that ok(3) by (auto dest: leD)
  then have old: "?nxt = sq" if "ranges fr b fs = [(0, p)]" "rb_head_seq b \<le> sq" using that sq by simp
  have apart: "\<exists>m'. ?run = Inr (1, m') \<and> rcv_nxt (streams m' s) = ?nxt"
    if "\<forall>(q, k)\<in>set (ranges fr b fs). q + k < p \<or> p + l < q"
    using recv_put_apart [OF ok that, of u d dps] nxt unfolding sq by blast
  then show ?thesis using returned old by fastforce
qed

text \<open>An empty buffer at 1000 that receives four bytes at 1100.\<close>

definition waiting_mgr :: mgr where
  "waiting_mgr = with_stream 2 (\<lambda>s. s\<lparr>state := CMT_TCP_ESTABLISHED, rcv_nxt := 1000,
     rcvvar := (rcvvar s)\<lparr>rcv_wnd := 8192, rcvbuf := Some (demo_rcvbuf\<lparr>fctx := None\<rparr>)\<rparr>\<rparr>)"

theorem payload_acknowledgement_witness:
  "\<exists>m'. cmt_tcp_process_payload (quiet_env\<lparr>e_recv_put := put_in no_names (Some 4) (Some 3) demo_frags (demo_dptrs None)\<rparr>)
      2 [] 1100 (int 4) waiting_mgr = Inr (1, m') \<and> rcv_nxt (streams m' 2) = 1004"
proof -
  let ?E = "quiet_env\<lparr>e_recv_put := put_in no_names (Some 4) (Some 3) demo_frags (demo_dptrs None)\<rparr>"
  let ?b = "demo_rcvbuf\<lparr>fctx := None\<rparr>"
  have ok: "recv_ok demo_frags ?b []" by (simp add: recv_ok_def demo_rcvbuf_def ranges_ok_def)
  have st: "streams waiting_mgr 2 = blank_stream\<lparr>state := CMT_TCP_ESTABLISHED, rcv_nxt := 1000,
     rcvvar := (rcvvar blank_stream)\<lparr>rcv_wnd := 8192, rcvbuf := Some ?b\<rparr>\<rparr>"
    by (simp add: waiting_mgr_def with_stream_def upd_def idle_mgr_def)
  have w: "\<not> TCP_SEQ_LT (1100 + word_of_nat 4) 1000" "\<not> TCP_SEQ_GT (1100 + word_of_nat 4) (1000 + 8192)"
    by (simp_all add: SEQ_LT_iff SEQ_GT_iff)
  from payload_acknowledgement [where fr = demo_frags and b = ?b and fs = "[]" and n = 3 and l = 4 and p = 100
      and u = no_names and d = 4 and dps = "demo_dptrs None" and E = ?E and m = waiting_mgr and s = 2 and sq = 1100 and payload = "[]",
      OF ok]
  show ?thesis using w by (auto simp: st demo_rcvbuf_def)
qed

end
