(* ===== verification/Global.thy ===== *)
theory Global
  imports Prelude
begin

text \<open>
  The bit helpers of \<open>include/global.h\<close>, and masks as remainders.
\<close>

subsection \<open>Definitions\<close>

text \<open>\<open>fls\<close> is one assembly instruction: the position of the highest set bit, from one; zero for zero.\<close>

fun bit_length :: "nat \<Rightarrow> nat" where
  "bit_length n = (if n = 0 then 0 else Suc (bit_length (n div 2)))"

declare bit_length.simps [simp del]

definition fls :: "u32 \<Rightarrow> nat" where
  "fls x = bit_length (unat x)"

definition ROUND_2_UP :: "u32 \<Rightarrow> u64" where
  "ROUND_2_UP x = push_bit (fls (x - 1)) 1"

text \<open>In \<open>num & (num - 1) == 0\<close> the comparison binds first.\<close>

definition check2pow :: "u32 \<Rightarrow> u32" where
  "check2pow num = num AND (if num - 1 = 0 then 1 else 0)"

subsection \<open>Powers of two\<close>

lemma bit_length_bounds: "n < 2 ^ bit_length n \<and> (0 < n \<longrightarrow> 2 ^ (bit_length n - 1) \<le> n)"
proof (induction n rule: bit_length.induct)
  case (1 n)
  show ?case
  proof (cases "n = 0")
    case False
    note IH = 1 [OF False]
    have b: "bit_length n = Suc (bit_length (n div 2))" using False by (simp add: bit_length.simps)
    have "n div 2 < 2 ^ bit_length (n div 2)" using IH by (rule conjunct1)
    then have "n < 2 * 2 ^ bit_length (n div 2)" by linarith
    then have "n < 2 ^ bit_length n" unfolding b by simp
    moreover have "2 ^ (bit_length n - 1) \<le> n"
    proof (cases "n div 2 = 0")
      case True
      then have "bit_length (n div 2) = 0" by (simp add: bit_length.simps [of 0])
      then show ?thesis using False unfolding b by simp
    next
      case d: False
      then obtain k where k: "bit_length (n div 2) = Suc k" by (simp add: bit_length.simps)
      have "2 ^ k \<le> n div 2" using IH d k by simp
      then have "2 * 2 ^ k \<le> n" by linarith
      then show ?thesis unfolding b k by simp
    qed
    ultimately show ?thesis by simp
  qed (simp add: bit_length.simps)
qed

lemma bit_length_eq: "2 ^ k \<le> n \<Longrightarrow> n < 2 ^ Suc k \<Longrightarrow> bit_length n = Suc k"
proof (induction k arbitrary: n)
  case 0
  then have "n = 1" by simp
  then show ?case by (simp add: bit_length.simps)
next
  case (Suc k)
  then have "bit_length (n div 2) = Suc k" by (intro Suc.IH) auto
  moreover have "n \<noteq> 0" using Suc.prems(1) by (metis not_le zero_less_power zero_less_numeral)
  ultimately show ?case by (simp add: bit_length.simps [of n])
qed

lemma fls_le: "fls x \<le> 32"
proof (cases "x = 0")
  case True
  then show ?thesis by (simp add: fls_def bit_length.simps)
next
  case False
  then have "2 ^ (bit_length (unat x) - 1) \<le> unat x" using bit_length_bounds [of "unat x"] by (simp add: unat_gt_0)
  also have "unat x < 2 ^ 32" using unat_u32_less [of x] by simp
  finally have "bit_length (unat x) - 1 < 32" by (simp only: power_strict_increasing_iff)
  then show ?thesis by (simp add: fls_def)
qed

lemma unat_ROUND: "unat (ROUND_2_UP x) = 2 ^ fls (x - 1)"
proof -
  have "(2 :: nat) ^ fls (x - 1) < 2 ^ 64"
    using fls_le [of "x - 1"] by (intro power_strict_increasing) auto
  moreover have "unat (ROUND_2_UP x) = take_bit 64 (push_bit (fls (x - 1)) 1)"
    unfolding ROUND_2_UP_def by (subst unsigned_push_bit_eq) simp
  ultimately show ?thesis by (simp add: push_bit_eq_mult take_bit_eq_mod)
qed

text \<open>A number rounds to itself exactly when it is a power of two.\<close>

lemma ROUND_2_UP_self: "ucast x = ROUND_2_UP x \<longleftrightarrow> (\<exists>k < 32. unat x = 2 ^ k)"
proof -
  have e: "ucast x = ROUND_2_UP x \<longleftrightarrow> unat x = 2 ^ fls (x - 1)"
    by (simp add: word_unat_eq_iff unat_ROUND)
  show ?thesis
  proof
    assume "ucast x = ROUND_2_UP x"
    then have x: "unat x = 2 ^ fls (x - 1)" by (simp add: e)
    have "(2 :: nat) ^ fls (x - 1) < 2 ^ 32" using unat_u32_less [of x] unfolding x by simp
    then have "fls (x - 1) < 32" by (simp only: power_strict_increasing_iff)
    then show "\<exists>k < 32. unat x = 2 ^ k" using x by blast
  next
    assume "\<exists>k < 32. unat x = 2 ^ k"
    then obtain k where k: "k < 32" "unat x = 2 ^ k" by blast
    have u: "unat (x - 1) = 2 ^ k - 1" using k by (simp add: unat_sub_eq)
    have "fls (x - 1) = k"
    proof (cases k)
      case 0
      then show ?thesis by (simp add: fls_def u bit_length.simps)
    next
      case (Suc j)
      have "(2 :: nat) ^ j \<le> 2 ^ Suc j - 1" by (simp add: le_diff_conv2)
      then show ?thesis unfolding fls_def u Suc by (intro bit_length_eq) simp_all
    qed
    then show "ucast x = ROUND_2_UP x" using k by (simp add: e)
  qed
qed

subsection \<open>Masks\<close>

lemma unat_and_mask: "unat (w AND mask k :: 'a::len word) = unat w mod 2 ^ k"
proof -
  have "w AND mask k = take_bit k w" by (simp only: take_bit_eq_mask)
  then have "unat (w AND mask k) = take_bit k (unat w)" by (simp only: unsigned_take_bit_eq)
  then show ?thesis by (simp only: take_bit_eq_mod)
qed

lemma unat_and_not_mask: "unat (w AND NOT (mask k) :: 'a::len word) = unat w - unat w mod 2 ^ k"
proof -
  have "(w AND mask k) + (w AND NOT (mask k)) = w"
    by (subst disjunctive_add_eq_or; rule bit_word_eqI) (auto simp: bit_simps)
  then have "w AND NOT (mask k) = w - (w AND mask k)" by (simp add: eq_diff_eq add.commute)
  then show ?thesis by (simp add: unat_sub_no_wrap unat_and_mask)
qed

end
