(* ===== verification/Ring.thy ===== *)
theory Ring
  imports Fifo Global
begin

text \<open>
  The ring of object pointers (\<open>include/ring.h\<close>, \<open>src/ring.c\<close>). The memory behind the
  header is a list of 32-bit words, as the narrowest of the copy routines sees it; an element of
  \<open>esize\<close> bytes is \<open>esize / 4\<close> consecutive words. Every read and write of a copy is checked
  against the memory it goes to: one outside is \<open>OutOfBounds\<close>.

  The operations are modelled for one caller at a time (\<open>Ring_Threads\<close> interleaves them); the
  loops that wait for another thread to move an index then return at once or never (\<open>NoReturn\<close>).
  \<open>CASra\<close> is a compiler builtin and a parameter: it gets the value in memory, the second argument
  as the caller passes it and the new value. \<open>cas_value\<close> compares with the value passed, which is
  what both callers mean; the builtin takes the address of the expected value.
\<close>

record prod_end =
  sp_enqueue :: u32
  psize :: u32
  pmask :: u32
  phead :: u32
  ptail :: u32

record cons_end =
  sc_dequeue :: u32
  csize :: u32
  cmask :: u32
  chead :: u32
  ctail :: u32

record 'w ring =
  ring_name :: string
  prod :: prod_end
  cons :: cons_end
  cells :: "'w list"

datatype ring_error = EINVAL | ENONMEM

subsection \<open>Copying elements of \<open>w\<close> words\<close>

definition splice :: "'w list \<Rightarrow> nat \<Rightarrow> 'w list \<Rightarrow> 'w list" where
  "splice d k xs = take k d @ xs @ drop (k + length xs) d"

definition copy_elm :: "nat \<Rightarrow> 'w list \<Rightarrow> nat \<Rightarrow> 'w list \<Rightarrow> nat \<Rightarrow> 'w list res" where
  "copy_elm w d di s si =
     (if Suc di * w \<le> length d \<and> Suc si * w \<le> length s
      then Inr (splice d (di * w) (take w (drop (si * w) s))) else Inl OutOfBounds)"

text \<open>\<open>k\<close> elements from \<open>s\<close> at \<open>si\<close> to \<open>d\<close> at \<open>di\<close>, one after the other.\<close>

fun copy_run :: "nat \<Rightarrow> nat \<Rightarrow> 'w list \<Rightarrow> nat \<Rightarrow> 'w list \<Rightarrow> nat \<Rightarrow> 'w list res" where
  "copy_run w 0 d di s si = Inr d"
| "copy_run w (Suc k) d di s si =
     andThen (copy_elm w d di s si) (\<lambda>d. copy_run w k d (Suc di) s (Suc si))"

text \<open>The loop over blocks of \<open>b\<close> elements, and the \<open>switch\<close> on what is left.\<close>

function copy_blocks ::
  "nat \<Rightarrow> nat \<Rightarrow> nat \<Rightarrow> 'w list \<Rightarrow> nat \<Rightarrow> 'w list \<Rightarrow> nat \<Rightarrow> nat \<Rightarrow> (nat \<times> 'w list) res" where
  "copy_blocks w b lim d di s si i =
     (if i < lim \<and> 0 < b then
        andThen (copy_run w b d (di + i) s (si + i)) (\<lambda>d. copy_blocks w b lim d di s si (i + b))
      else Inr (i, d))"
  by pat_completeness auto
termination by (relation "measure (\<lambda>(w, b, lim, d, di, s, si, i). lim - i)") auto

declare copy_blocks.simps [simp del]

definition unrolled ::
  "nat \<Rightarrow> nat \<Rightarrow> 'w list \<Rightarrow> nat \<Rightarrow> 'w list \<Rightarrow> nat \<Rightarrow> u32 \<Rightarrow> 'w list res" where
  "unrolled w k d di s si n =
     andThen (copy_blocks w (2 ^ k) (unat (n AND NOT (mask k))) d di s si 0) (\<lambda>(i, d).
     copy_run w (unat (n AND mask k)) d (di + i) s (si + i))"

text \<open>The other branch: to the end of the ring, then from its start.\<close>

definition wrap_write :: "nat \<Rightarrow> 'w list \<Rightarrow> nat \<Rightarrow> nat \<Rightarrow> 'w list \<Rightarrow> nat \<Rightarrow> 'w list res" where
  "wrap_write w m sz idx obj n =
     andThen (copy_run w (sz - idx) m idx obj 0) (\<lambda>m.
     copy_run w (n - (sz - idx)) m 0 obj (sz - idx))"

definition wrap_read :: "nat \<Rightarrow> 'w list \<Rightarrow> nat \<Rightarrow> nat \<Rightarrow> 'w list \<Rightarrow> nat \<Rightarrow> 'w list res" where
  "wrap_read w m sz idx obj n =
     andThen (copy_run w (sz - idx) obj 0 m idx) (\<lambda>obj.
     copy_run w (n - (sz - idx)) obj (sz - idx) m 0)"

text \<open>The first loop of the 128-bit routine does not advance \<open>idx\<close>.\<close>

fun smear :: "nat \<Rightarrow> nat \<Rightarrow> 'w list \<Rightarrow> nat \<Rightarrow> 'w list \<Rightarrow> nat \<Rightarrow> 'w list res" where
  "smear w 0 d di s si = Inr d"
| "smear w (Suc k) d di s si = andThen (copy_elm w d di s si) (\<lambda>d. smear w k d di s (Suc si))"

definition store :: "'w ring \<Rightarrow> 'w list res \<Rightarrow> 'w ring res" where
  "store r c = andThen c (\<lambda>m. Inr (r\<lparr>cells := m\<rparr>))"

subsection \<open>Copying into and out of the ring\<close>

definition enqueue_elms_32 :: "'w ring \<Rightarrow> u32 \<Rightarrow> u32 \<Rightarrow> 'w list \<Rightarrow> u32 \<Rightarrow> 'w ring res" where
  "enqueue_elms_32 r sz idx obj n =
     store r (if idx + n < sz then unrolled 1 3 (cells r) (unat idx) obj 0 n
              else wrap_write 1 (cells r) (unat sz) (unat idx) obj (unat n))"

text \<open>
  In the 64-bit routine the comparison stands outside of \<open>likely\<close>: \<open>!!(idx + n)\<close>, zero or one,
  is compared with the size.
\<close>

definition enqueue_elms_64 :: "'w ring \<Rightarrow> u32 \<Rightarrow> 'w list \<Rightarrow> u32 \<Rightarrow> 'w ring res" where
  "enqueue_elms_64 r prod_head obj n =
     (let sz = psize (prod r); idx = prod_head AND pmask (prod r) in
      store r (if (if idx + n \<noteq> 0 then 1 else 0) < sz
               then unrolled 2 2 (cells r) (unat idx) obj 0 n
               else wrap_write 2 (cells r) (unat sz) (unat idx) obj (unat n)))"

definition enqueue_elms_128 :: "'w ring \<Rightarrow> u32 \<Rightarrow> 'w list \<Rightarrow> u32 \<Rightarrow> 'w ring res" where
  "enqueue_elms_128 r prod_head obj n =
     (let sz = psize (prod r); idx = prod_head AND pmask (prod r) in
      store r (if idx + n < sz then unrolled 4 1 (cells r) (unat idx) obj 0 n
               else andThen (smear 4 (unat sz) (cells r) (unat idx) obj 0) (\<lambda>m.
                    copy_run 4 (unat n - unat sz) m 0 obj (unat sz))))"

definition enqueue_ptrs :: "'w ring \<Rightarrow> u32 \<Rightarrow> 'w list \<Rightarrow> u32 \<Rightarrow> u32 \<Rightarrow> 'w ring res" where
  "enqueue_ptrs r prod_head obj esize n =
     (if esize = 8 then enqueue_elms_64 r prod_head obj n
      else if esize = 16 then enqueue_elms_128 r prod_head obj n
      else let scale = esize div 4;
               nr_num = n * scale;
               idx = prod_head AND pmask (prod r);
               nr_idx = idx * scale;
               nr_size = psize (prod r) * scale
           in enqueue_elms_32 r nr_size nr_idx obj nr_num)"

text \<open>The table of the caller is filled; the result is the new table.\<close>

definition dequeue_elms_64 :: "'w ring \<Rightarrow> u32 \<Rightarrow> 'w list \<Rightarrow> u32 \<Rightarrow> 'w list res" where
  "dequeue_elms_64 r head obj n =
     (let sz = csize (cons r); idx = head AND cmask (cons r) in
      if idx + n < sz then unrolled 2 2 obj 0 (cells r) (unat idx) n
      else wrap_read 2 (cells r) (unat sz) (unat idx) obj (unat n))"

definition dequeue_elms_128 :: "'w ring \<Rightarrow> u32 \<Rightarrow> 'w list \<Rightarrow> u32 \<Rightarrow> 'w list res" where
  "dequeue_elms_128 r head obj n =
     (let sz = csize (cons r); idx = head AND cmask (cons r) in
      if idx + n < sz then unrolled 4 1 obj 0 (cells r) (unat idx) n
      else wrap_read 4 (cells r) (unat sz) (unat idx) obj (unat n))"

definition dequeue_elems_32 :: "'w ring \<Rightarrow> u32 \<Rightarrow> u32 \<Rightarrow> 'w list \<Rightarrow> u32 \<Rightarrow> 'w list res" where
  "dequeue_elems_32 r sz idx obj n =
     (if idx + n < sz then unrolled 1 3 obj 0 (cells r) (unat idx) n
      else wrap_read 1 (cells r) (unat sz) (unat idx) obj (unat n))"

definition dequeue_ptrs :: "'w ring \<Rightarrow> u32 \<Rightarrow> 'w list \<Rightarrow> u32 \<Rightarrow> u32 \<Rightarrow> 'w list res" where
  "dequeue_ptrs r cons_head obj esize n =
     (if esize = 8 then dequeue_elms_64 r cons_head obj n
      else if esize = 16 then dequeue_elms_128 r cons_head obj n
      else let scale = esize div 4;
               nr_num = n * scale;
               idx = cons_head AND cmask (cons r);
               nr_idx = idx * scale;
               nr_size = csize (cons r) * scale
           in dequeue_elems_32 r nr_size nr_idx obj nr_num)"

subsection \<open>Enqueueing and dequeueing\<close>

type_synonym cas = "u32 \<Rightarrow> u32 \<Rightarrow> u32 \<Rightarrow> (bool \<times> u32) res"

definition cas_value :: cas where
  "cas_value current expected new =
     Inr (if current = expected then (True, new) else (False, current))"

text \<open>The \<open>do ... while\<close> loop: the head read, the number of elements, the next head.\<close>

partial_function (option) mp_reserve ::
  "cas \<Rightarrow> 'w ring \<Rightarrow> u32 \<Rightarrow> (u32 \<times> u32 \<times> u32 \<times> 'w ring) res option" where
  "mp_reserve CASra r max_n =
     (let prod_head = phead (prod r);
          cons_tail = ctail (cons r);
          free_entries = pmask (prod r) + cons_tail - prod_head;
          n = (if max_n > free_entries then free_entries else max_n);
          prod_next = prod_head + n
      in case CASra (phead (prod r)) prod_head prod_next of
           Inl e \<Rightarrow> Some (Inl e)
         | Inr (success, current) \<Rightarrow>
             (let r = r\<lparr>prod := prod r\<lparr>phead := current\<rparr>\<rparr>
              in if success then Some (Inr (prod_head, n, prod_next, r)) else mp_reserve CASra r max_n))"

definition mp_do_enqueue :: "cas \<Rightarrow> 'w ring \<Rightarrow> 'w list \<Rightarrow> u32 \<Rightarrow> (int \<times> 'w ring) res" where
  "mp_do_enqueue CASra r obj_table n =
     andThen (with_fuel (mp_reserve CASra r n)) (\<lambda>(prod_head, n, prod_next, r).
     andThen (enqueue_ptrs r prod_head obj_table 8 n) (\<lambda>r.
     if ptail (prod r) \<noteq> prod_head then Inl NoReturn
     else Inr (sint n, r\<lparr>prod := prod r\<lparr>ptail := prod_next\<rparr>\<rparr>)))"

text \<open>\<open>None\<close> is the early return of zero.\<close>

partial_function (option) mc_reserve ::
  "cas \<Rightarrow> 'w ring \<Rightarrow> u32 \<Rightarrow> (u32 \<times> u32 \<times> u32 \<times> 'w ring) option res option" where
  "mc_reserve CASra r max_n =
     (let n = max_n;
          cons_head = chead (cons r);
          prod_tail = ptail (prod r);
          entries = (pmask (prod r) + prod_tail - cons_head) AND (pmask (prod r) + 1)
      in if n > entries \<and> entries = 0 then Some (Inr None)
         else let n = (if n > entries then entries else n);
                  cons_next = cons_head + n
              in case CASra (chead (cons r)) cons_head cons_next of
                   Inl e \<Rightarrow> Some (Inl e)
                 | Inr (success, current) \<Rightarrow>
                     (let r = r\<lparr>cons := cons r\<lparr>chead := current\<rparr>\<rparr>
                      in if success then Some (Inr (Some (cons_head, n, cons_next, r)))
                         else mc_reserve CASra r max_n))"

definition mc_do_dequeue ::
  "cas \<Rightarrow> 'w ring \<Rightarrow> 'w list \<Rightarrow> u32 \<Rightarrow> (int \<times> 'w list \<times> 'w ring) res" where
  "mc_do_dequeue CASra r obj_table n =
     (let max_n = 0 in
      if n = 0 then Inr (0, obj_table, r)
      else andThen (with_fuel (mc_reserve CASra r max_n)) (\<lambda>got. case got of
        None \<Rightarrow> Inr (0, obj_table, r)
      | Some (cons_head, n, cons_next, r) \<Rightarrow>
          andThen (dequeue_ptrs r cons_head obj_table 8 n) (\<lambda>obj_table.
          if ctail (cons r) \<noteq> cons_head then Inl NoReturn
          else Inr (sint n, obj_table, r\<lparr>cons := cons r\<lparr>ctail := cons_next\<rparr>\<rparr>))))"

definition sp_do_enqueue :: "'w ring \<Rightarrow> 'w list \<Rightarrow> u32 \<Rightarrow> (int \<times> 'w ring) res" where
  "sp_do_enqueue r obj_table n =
     (if n = 0 then Inr (0, r)
      else let mask = pmask (prod r);
               prod_head = phead (prod r);
               cons_tail = ctail (cons r);
               free_entries = (mask + cons_tail - prod_head) AND (mask + 1)
           in if n > free_entries then Inr (- 1, r)
              else let prod_next = prod_head + n
                   in andThen (enqueue_ptrs r prod_head obj_table 8 n) (\<lambda>r.
                      Inr (0, r\<lparr>prod := prod r\<lparr>phead := prod_next, ptail := prod_next\<rparr>\<rparr>)))"

definition sc_do_dequeue :: "'w ring \<Rightarrow> 'w list \<Rightarrow> u32 \<Rightarrow> (int \<times> 'w list \<times> 'w ring) res" where
  "sc_do_dequeue r obj_table n =
     (if n = 0 then Inr (0, obj_table, r)
      else let cons_head = chead (cons r);
               prod_tail = ptail (prod r);
               entries = prod_tail - cons_head
           in if n > entries then Inr (- 1, obj_table, r)
              else let cons_next = cons_head + n
                   in andThen (dequeue_ptrs r cons_head obj_table 8 n) (\<lambda>obj_table.
                      Inr (sint n, obj_table, r\<lparr>cons := cons r\<lparr>chead := cons_next, ctail := cons_next\<rparr>\<rparr>)))"

definition cmt_ring_enqueue :: "cas \<Rightarrow> 'w ring \<Rightarrow> 'w list \<Rightarrow> (int \<times> 'w ring) res" where
  "cmt_ring_enqueue CASra r obj =
     andThen (if sp_enqueue (prod r) = 1 then sp_do_enqueue r obj 1 else mp_do_enqueue CASra r obj 1)
       (\<lambda>(ret, r). Inr (ret - 1, r))"

definition cmt_ring_enqueue_bulk :: "cas \<Rightarrow> 'w ring \<Rightarrow> 'w list \<Rightarrow> u32 \<Rightarrow> (u32 \<times> 'w ring) res" where
  "cmt_ring_enqueue_bulk CASra r obj_table n =
     andThen (if sp_enqueue (prod r) = 1 then sp_do_enqueue r obj_table n
              else mp_do_enqueue CASra r obj_table n)
       (\<lambda>(ret, r). Inr (word_of_int ret, r))"

text \<open>
  Both hand \<open>&obj\<close>, the address of their own parameter, to the routine that fills a table: a
  table of one element that ends with the call. What was in it on the call is \<open>obj\<close>.
\<close>

definition cmt_dequeue :: "cas \<Rightarrow> 'w ring \<Rightarrow> 'w list \<Rightarrow> (int \<times> 'w ring) res" where
  "cmt_dequeue CASra r obj =
     andThen (if sc_dequeue (cons r) = 1 then sc_do_dequeue r obj 1 else mc_do_dequeue CASra r obj 1)
       (\<lambda>(ret, _, r). Inr (ret - 1, r))"

definition cmt_dequeue_bulk :: "cas \<Rightarrow> 'w ring \<Rightarrow> 'w list \<Rightarrow> u32 \<Rightarrow> (u32 \<times> 'w ring) res" where
  "cmt_dequeue_bulk CASra r obj n =
     andThen (if sc_dequeue (cons r) = 1 then sc_do_dequeue r obj n else mc_do_dequeue CASra r obj n)
       (\<lambda>(ret, _, r). Inr (word_of_int ret, r))"

subsection \<open>Creating and destroying a ring\<close>

text \<open>
  The header takes four cache lines of 64 bytes. \<open>alloc\<close> is \<open>cmt_pmemalign\<close>: the words behind
  the header, for a size in bytes. Sizes are \<open>unsigned int\<close>.
\<close>

definition sizeof_ring :: u32 where
  "sizeof_ring = 256"

definition cmt_ring_create ::
  "(u32 \<Rightarrow> 'w list option) \<Rightarrow> string \<Rightarrow> u32 \<Rightarrow> u32 \<Rightarrow> u32 \<Rightarrow> ring_error + 'w ring" where
  "cmt_ring_create alloc name count sp sc =
     (if ucast count \<noteq> ROUND_2_UP count then Inl EINVAL
      else case alloc (sizeof_ring + count * 8) of
        None \<Rightarrow> Inl ENONMEM
      | Some mem \<Rightarrow> Inr
          \<lparr>ring_name = take 127 name,
           prod = \<lparr>sp_enqueue = sp, psize = count, pmask = count - 1, phead = 0, ptail = 0\<rparr>,
           cons = \<lparr>sc_dequeue = sc, csize = count, cmask = count - 1, chead = 0, ctail = 0\<rparr>,
           cells = mem\<rparr>)"

text \<open>The size given back to the pool.\<close>

definition cmt_ring_destroy :: "'w ring \<Rightarrow> u32" where
  "cmt_ring_destroy r = sizeof_ring + csize (cons r) * 8"

subsection \<open>Memory as a list of elements\<close>

definition elms :: "nat \<Rightarrow> 'w list \<Rightarrow> 'w list list" where
  "elms w m = map (\<lambda>i. take w (drop (i * w) m)) [0..<length m div w]"

lemma length_elms [simp]: "length (elms w m) = length m div w"
  by (simp add: elms_def)

lemma elms_nth: "i < length m div w \<Longrightarrow> elms w m ! i = take w (drop (i * w) m)"
  by (simp add: elms_def)

lemma length_splice: "k + length xs \<le> length d \<Longrightarrow> length (splice d k xs) = length d"
  by (simp add: splice_def)

lemma elm_in: "0 < w \<Longrightarrow> Suc i * w \<le> length m \<longleftrightarrow> i < length m div w"
  by (metis less_eq_div_iff_mult_less_eq less_eq_Suc_le)

lemma elms_splice:
  assumes w: "0 < w" and i: "i < length d div w" and x: "length x = w"
  shows "elms w (splice d (i * w) x) = (elms w d)[i := x]"
proof (rule nth_equalityI)
  have l: "i * w + w \<le> length d" using i elm_in [OF w, of i d] by simp
  have len: "length (splice d (i * w) x) = length d" using l x by (simp add: length_splice)
  show "length (elms w (splice d (i * w) x)) = length ((elms w d)[i := x])" by (simp add: len)
  fix j assume "j < length (elms w (splice d (i * w) x))"
  then have j: "j < length d div w" by (simp add: len)
  then have lj: "j * w + w \<le> length d" using elm_in [OF w, of j d] by simp
  consider "j = i" | "Suc j \<le> i" | "Suc i \<le> j" by linarith
  then have "take w (drop (j * w) (splice d (i * w) x)) = (if j = i then x else take w (drop (j * w) d))"
  proof cases
    case 1
    then show ?thesis using l x by (simp add: splice_def)
  next
    case 2
    then have "j * w + w \<le> i * w" by (metis add.commute mult_Suc mult_le_mono1)
    then show ?thesis using 2 l by (simp add: splice_def drop_take)
  next
    case 3
    then have "i * w + w \<le> j * w" by (metis add.commute mult_Suc mult_le_mono1)
    then show ?thesis using 3 l x by (simp add: splice_def)
  qed
  then show "elms w (splice d (i * w) x) ! j = (elms w d)[i := x] ! j"
    using j i by (simp add: elms_nth len nth_list_update)
qed

lemma copy_elm_ok:
  assumes "0 < w" "di < length d div w" "si < length s div w"
  obtains d' where "copy_elm w d di s si = Inr d'" "length d' = length d"
    "elms w d' = (elms w d)[di := elms w s ! si]"
proof
  let ?x = "take w (drop (si * w) s)"
  note b = assms(2,3) [folded elm_in [OF assms(1)]]
  have x: "length ?x = w" using b by simp
  show "copy_elm w d di s si = Inr (splice d (di * w) ?x)" using b by (simp add: copy_elm_def)
  show "length (splice d (di * w) ?x) = length d" using b by (simp add: length_splice)
  show "elms w (splice d (di * w) ?x) = (elms w d)[di := elms w s ! si]"
    using elms_splice [OF assms(1,2) x] assms by (simp add: elms_nth)
qed

lemma copy_elm_out:
  "0 < w \<Longrightarrow> \<not> (di < length d div w \<and> si < length s div w) \<Longrightarrow> copy_elm w d di s si = Inl OutOfBounds"
  by (simp add: copy_elm_def flip: elm_in)

text \<open>The same copy on elements.\<close>

fun move :: "nat \<Rightarrow> 'b list \<Rightarrow> nat \<Rightarrow> 'b list \<Rightarrow> nat \<Rightarrow> 'b list" where
  "move 0 D di S si = D"
| "move (Suc k) D di S si = move k (D[di := S ! si]) (Suc di) S (Suc si)"

lemma length_move [simp]: "length (move k D di S si) = length D"
  by (induction k arbitrary: D di si) simp_all

lemma move_nth:
  "j < length D \<Longrightarrow> move k D di S si ! j = (if di \<le> j \<and> j < di + k then S ! (si + (j - di)) else D ! j)"
proof (induction k arbitrary: D di si)
  case (Suc k)
  then have "move (Suc k) D di S si ! j =
      (if Suc di \<le> j \<and> j < Suc di + k then S ! (Suc si + (j - Suc di)) else D[di := S ! si] ! j)"
    by simp
  moreover have "Suc di \<le> j \<Longrightarrow> Suc si + (j - Suc di) = si + (j - di)" by linarith
  ultimately show ?case using Suc.prems by (cases "Suc di \<le> j") (auto simp: nth_list_update)
qed auto

lemma copy_run_ok:
  "0 < w \<Longrightarrow> di + k \<le> length d div w \<Longrightarrow> si + k \<le> length s div w \<Longrightarrow>
   \<exists>d'. copy_run w k d di s si = Inr d' \<and> length d' = length d \<and>
        elms w d' = move k (elms w d) di (elms w s) si"
proof (induction k arbitrary: d di si)
  case (Suc k)
  obtain d1 where d1: "copy_elm w d di s si = Inr d1" "length d1 = length d"
    "elms w d1 = (elms w d)[di := elms w s ! si]"
    using copy_elm_ok [of w di d si s] Suc.prems by auto
  show ?case using Suc.IH [of "Suc di" d1 "Suc si"] Suc.prems d1 by simp
qed simp

lemma copy_run_out:
  "0 < w \<Longrightarrow> 0 < k \<Longrightarrow> length d div w < di + k \<or> length s div w < si + k \<Longrightarrow>
   copy_run w k d di s si = Inl OutOfBounds"
proof (induction k arbitrary: d di si)
  case (Suc k)
  show ?case
  proof (cases "di < length d div w \<and> si < length s div w")
    case True
    then obtain d1 where d1: "copy_elm w d di s si = Inr d1" "length d1 = length d"
      using copy_elm_ok [of w di d si s] Suc.prems by auto
    have "0 < k" using True Suc.prems(3) by (cases k) auto
    then show ?thesis using Suc.IH [of d1 "Suc di" "Suc si"] Suc.prems d1 by simp
  qed (simp add: copy_elm_out Suc.prems(1))
qed simp

subsection \<open>Unrolled loops\<close>

lemma copy_run_add:
  "copy_run w (j + k) d di s si =
     andThen (copy_run w j d di s si) (\<lambda>d. copy_run w k d (di + j) s (si + j))"
proof (induction j arbitrary: d di si)
  case (Suc j)
  show ?case by (cases "copy_elm w d di s si") (simp_all add: Suc)
qed simp

lemma copy_blocks_run:
  "0 < b \<Longrightarrow> i \<le> lim \<Longrightarrow> b dvd lim - i \<Longrightarrow>
   copy_blocks w b lim d di s si i =
     andThen (copy_run w (lim - i) d (di + i) s (si + i)) (\<lambda>d. Inr (lim, d))"
proof (induction w b lim d di s si i rule: copy_blocks.induct)
  case (1 w b lim d di s si i)
  show ?case
  proof (cases "i < lim")
    case True
    have "b \<le> lim - i" using 1(4) True by (simp add: dvd_imp_le)
    then have l: "i + b \<le> lim" "lim - i = b + (lim - (i + b))" using True by auto
    have "b dvd lim - (i + b)" using 1(4) l(2) by (metis dvd_add_right_iff dvd_refl)
    then have IH: "copy_blocks w b lim m di s si (i + b) =
        andThen (copy_run w (lim - (i + b)) m (di + (i + b)) s (si + (i + b))) (\<lambda>d. Inr (lim, d))" for m
      using 1(1) [of m] True l 1(2) by simp
    show ?thesis
      unfolding copy_blocks.simps [of w b lim d di s si i] l(2) copy_run_add
      using True 1(2) by (cases "copy_run w b d (di + i) s (si + i)") (simp_all add: IH add.assoc)
  next
    case False
    then have "i = lim" using 1(3) by simp
    then show ?thesis by (simp add: copy_blocks.simps [of w b lim d di s si lim])
  qed
qed

lemma unrolled_run: "k < 32 \<Longrightarrow> unrolled w k d di s si n = copy_run w (unat n) d di s si"
proof -
  assume k: "k < 32"
  let ?m = "unat n mod 2 ^ k"
  have e: "unat n - ?m + ?m = unat n" by simp
  have "2 ^ k dvd unat n - ?m" by (simp add: minus_mod_eq_mult_div)
  then have "unrolled w k d di s si n =
      andThen (copy_run w (unat n - ?m) d di s si) (\<lambda>d. copy_run w ?m d (di + (unat n - ?m)) s (si + (unat n - ?m)))"
    unfolding unrolled_def unat_and_mask unat_and_not_mask
    by (subst copy_blocks_run; cases "copy_run w (unat n - ?m) d di s si") simp_all
  also have "\<dots> = copy_run w (unat n - ?m + ?m) d di s si" by (rule copy_run_add [symmetric])
  finally show ?thesis unfolding e .
qed

subsection \<open>Cyclic reads and writes\<close>

lemma cyc_slice_move:
  "u + k \<le> length D \<Longrightarrow> (h + u) mod length D + k \<le> length D \<Longrightarrow> si + k \<le> length S \<Longrightarrow>
   cyc_slice (move k D ((h + u) mod length D) S si) h (u + k) = cyc_slice D h u @ take k (drop si S)"
proof (induction k arbitrary: D u si)
  case (Suc k)
  let ?D = "D[(h + u) mod length D := S ! si]"
  have p: "cyc_slice ?D h (Suc u) = cyc_slice D h u @ [S ! si]"
    using Suc.prems(1) by (intro cyc_slice_push) simp
  have t: "take (Suc k) (drop si S) = S ! si # take k (drop (Suc si) S)"
    using Suc.prems(3) by (simp add: Cons_nth_drop_Suc [symmetric])
  show ?case
  proof (cases k)
    case 0
    then show ?thesis using p t by simp
  next
    case k: (Suc j)
    then have "Suc ((h + u) mod length D) < length D" using Suc.prems(2) by simp
    then have m: "Suc ((h + u) mod length D) = (h + Suc u) mod length ?D"
      by (metis add_Suc_right length_list_update mod_Suc nat_neq_iff)
    have "cyc_slice (move k ?D ((h + Suc u) mod length ?D) S (Suc si)) h (Suc u + k)
        = cyc_slice ?D h (Suc u) @ take k (drop (Suc si) S)"
      using Suc.prems m by (intro Suc.IH) simp_all
    then show ?thesis by (simp add: p t m)
  qed
qed simp

lemma cyc_slice_read:
  assumes "idx < length D" "n \<le> length D" "n \<le> length Q"
    and Q': "length Q' = length Q"
    and nth: "\<And>j. j < length Q \<Longrightarrow>
        Q' ! j = (if j < n then D ! ((idx + j) mod length D) else Q ! j)"
  shows "Q' = cyc_slice D idx n @ drop n Q"
  by (rule nth_equalityI) (use assms in \<open>auto simp: nth_append cyc_slice_def\<close>)

lemma cyc_slice_drop: "n \<le> u \<Longrightarrow> cyc_slice D (h + n) (u - n) = drop n (cyc_slice D h u)"
  by (rule nth_equalityI) (auto simp: cyc_slice_def add.assoc)

lemma wrap_read_ok:
  assumes w: "0 < w" and N: "length m div w = N" and i: "idx < N"
    and n: "N - idx \<le> n" "n \<le> N" "n \<le> length obj div w"
  shows "\<exists>obj'. wrap_read w m N idx obj n = Inr obj' \<and> length obj' = length obj \<and>
    elms w obj' = cyc_slice (elms w m) idx n @ drop n (elms w obj)"
proof -
  obtain o1 where o1: "copy_run w (N - idx) obj 0 m idx = Inr o1" "length o1 = length obj"
    "elms w o1 = move (N - idx) (elms w obj) 0 (elms w m) idx"
    using copy_run_ok [OF w, of 0 "N - idx" obj idx m] N i n by auto
  have b: "N - idx + (n - (N - idx)) \<le> length obj div w" "0 + (n - (N - idx)) \<le> length m div w"
    using N i n by auto
  obtain o2 where o2: "copy_run w (n - (N - idx)) o1 (N - idx) m 0 = Inr o2" "length o2 = length obj"
    "elms w o2 = move (n - (N - idx)) (elms w o1) (N - idx) (elms w m) 0"
    using copy_run_ok [OF w, of "N - idx" "n - (N - idx)" o1 0 m] b o1(2) by auto
  have "elms w o2 = cyc_slice (elms w m) idx n @ drop n (elms w obj)"
  proof (rule cyc_slice_read)
    fix j assume j: "j < length (elms w obj)"
    have "(idx + j) mod N = (if j < N - idx then idx + j else j - (N - idx))" if "j < n"
      using that i n(2) by (auto simp: le_mod_geq)
    then show "elms w o2 ! j =
        (if j < n then elms w m ! ((idx + j) mod length (elms w m)) else elms w obj ! j)"
      using j N o1(2) n by (auto simp: o1(3) o2(3) move_nth)
  qed (use N i n o2(2) in simp_all)
  then show ?thesis using o1(1) o2 by (simp add: wrap_read_def)
qed

lemma plain_read_ok:
  assumes w: "0 < w" and N: "length m div w = N" and n: "idx < N" "idx + n \<le> N" "n \<le> length obj div w"
  shows "\<exists>obj'. copy_run w n obj 0 m idx = Inr obj' \<and> length obj' = length obj \<and>
    elms w obj' = cyc_slice (elms w m) idx n @ drop n (elms w obj)"
proof -
  obtain o1 where o1: "copy_run w n obj 0 m idx = Inr o1" "length o1 = length obj"
    "elms w o1 = move n (elms w obj) 0 (elms w m) idx"
    using copy_run_ok [OF w, of 0 n obj idx m] N n by auto
  have "elms w o1 = cyc_slice (elms w m) idx n @ drop n (elms w obj)"
    by (rule cyc_slice_read) (use N n o1(2) in \<open>auto simp: o1(3) move_nth\<close>)
  then show ?thesis using o1 by blast
qed

subsection \<open>State of the ring\<close>

definition ring_inv :: "nat \<Rightarrow> 'w ring \<Rightarrow> bool" where
  "ring_inv k r \<longleftrightarrow> k < 32 \<and> length (cells r) div 2 = 2 ^ k \<and>
     psize (prod r) = 2 ^ k \<and> pmask (prod r) = mask k \<and>
     csize (cons r) = 2 ^ k \<and> cmask (cons r) = mask k \<and>
     ptail (prod r) = phead (prod r) \<and> ctail (cons r) = chead (cons r) \<and>
     unat (phead (prod r) - chead (cons r)) < 2 ^ k"

definition ring_used :: "'w ring \<Rightarrow> nat" where
  "ring_used r = unat (ptail (prod r) - chead (cons r))"

text \<open>The objects stored, oldest first: the elements of two words from the consumer's head on.\<close>

definition ring_objs :: "'w ring \<Rightarrow> 'w list list" where
  "ring_objs r = cyc_slice (elms 2 (cells r)) (unat (chead (cons r))) (ring_used r)"

lemma length_ring_objs [simp]: "length (ring_objs r) = ring_used r"
  by (simp add: ring_objs_def)

lemma ring_objs_eq:
  "elms 2 (cells r) = D \<Longrightarrow> chead (cons r) = c \<Longrightarrow> unat (ptail (prod r) - c) = u \<Longrightarrow>
   ring_objs r = cyc_slice D (unat c) u"
  by (simp add: ring_objs_def ring_used_def)

lemma pow_u32:
  assumes "k < 32"
  shows "unat (2 ^ k :: u32) = 2 ^ k" "unat (mask k :: u32) = 2 ^ k - 1" "mask k + 1 = (2 ^ k :: u32)"
    "(2 :: nat) ^ k dvd 2 ^ 32" "(2 :: nat) ^ k < 2 ^ 32"
proof -
  have l: "(2 :: nat) ^ k < 2 ^ 32" using assms by (intro power_strict_increasing) auto
  show p: "unat (2 ^ k :: u32) = 2 ^ k"
    using l unsigned_push_bit_eq [where ?'b = 32 and ?'a = nat, of k 1]
    by (simp add: push_bit_eq_mult take_bit_eq_mod)
  have e: "mask k = (2 ^ k - 1 :: u32)" by (rule mask_eq_exp_minus_1)
  show "unat (mask k :: u32) = 2 ^ k - 1" unfolding e using p by (simp add: unat_sub_no_wrap)
  show "mask k + 1 = (2 ^ k :: u32)" unfolding e by simp
  show "(2 :: nat) ^ k dvd 2 ^ 32" using assms by (intro le_imp_power_dvd) simp
  show "(2 :: nat) ^ k < 2 ^ 32" by (rule l)
qed

text \<open>Indices run modulo \<open>2 ^ 32\<close>, which the size of the ring divides.\<close>

lemma index_mod:
  assumes "k < 32"
  shows "unat ((a + b :: u32) AND mask k) = (unat a + unat b) mod 2 ^ k"
  unfolding unat_and_mask unat_add_eq using pow_u32(4) [OF assms] by (simp add: mod_mod_cancel)

lemma ring_free:
  assumes "ring_inv k r"
  shows "unat (pmask (prod r) + ctail (cons r) - phead (prod r)) = 2 ^ k - 1 - ring_used r"
    "ring_used r < 2 ^ k"
proof -
  note p = pow_u32 [of k]
  show u: "ring_used r < 2 ^ k" using assms by (simp add: ring_inv_def ring_used_def)
  have e: "pmask (prod r) + ctail (cons r) - phead (prod r) = mask k - (ptail (prod r) - chead (cons r))"
    using assms by (simp add: ring_inv_def)
  have m: "unat (mask k :: u32) = 2 ^ k - 1" using assms p(2) by (simp add: ring_inv_def)
  have "unat (ptail (prod r) - chead (cons r)) \<le> unat (mask k :: u32)"
    using u unfolding m ring_used_def by simp
  then show "unat (pmask (prod r) + ctail (cons r) - phead (prod r)) = 2 ^ k - 1 - ring_used r"
    unfolding e ring_used_def by (simp only: unat_sub_no_wrap m)
qed

lemma and_pow_0: "unat (x :: u32) < 2 ^ k \<Longrightarrow> x AND 2 ^ k = 0"
proof (rule bit_word_eqI)
  fix n assume x: "unat x < 2 ^ k"
  have "take_bit k (unat x) = unat x" using x by (simp add: take_bit_nat_eq_self)
  then have "\<not> bit (unat x) k" by (metis bit_take_bit_iff less_irrefl)
  then have "\<not> bit x k" by (simp add: bit_unsigned_iff)
  then show "bit (x AND 2 ^ k) n = bit 0 n" by (auto simp: bit_simps)
qed

text \<open>A ring of one producer is full for every call.\<close>

lemma sp_free:
  assumes r: "ring_inv k r"
  shows "(pmask (prod r) + ctail (cons r) - phead (prod r)) AND (pmask (prod r) + 1) = 0"
proof -
  have "pmask (prod r) + 1 = 2 ^ k" using r pow_u32(3) [of k] by (simp add: ring_inv_def)
  moreover have "unat (pmask (prod r) + ctail (cons r) - phead (prod r)) < 2 ^ k"
    unfolding ring_free(1) [OF r] by (meson diff_le_self diff_less le_less_trans zero_less_numeral zero_less_one zero_less_power)
  ultimately show ?thesis by (simp only: and_pow_0)
qed

lemma sp_never:
  "ring_inv k r \<Longrightarrow> sp_do_enqueue r obj n = Inr (if n = 0 then (0, r) else (- 1, r))"
  by (simp add: sp_do_enqueue_def sp_free word_gt_0)

lemma mp_reserve_value:
  "mp_reserve cas_value r n =
     (let free = pmask (prod r) + ctail (cons r) - phead (prod r);
          n = (if n > free then free else n)
      in Some (Inr (phead (prod r), n, phead (prod r) + n, r\<lparr>prod := prod r\<lparr>phead := phead (prod r) + n\<rparr>\<rparr>)))"
  by (subst mp_reserve.simps) (simp add: cas_value_def Let_def)

lemma ring_idx_less: "ring_inv k r \<Longrightarrow> unat (x AND mask k) < 2 ^ k"
  by (simp add: unat_and_mask)

lemma mc_never:
  assumes r: "ring_inv k r"
  shows "mc_do_dequeue cas_value r obj n = Inr (0, obj, r)"
proof -
  have k: "k < 32" "cmask (cons r) = mask k" "csize (cons r) = 2 ^ k" "ctail (cons r) = chead (cons r)"
    using r by (simp_all add: ring_inv_def)
  have "chead (cons r) AND mask k < 2 ^ k"
    using ring_idx_less [OF r, of "chead (cons r)"] pow_u32(1) [OF k(1)] by (simp add: unat_mono_less)
  then have d: "dequeue_ptrs r (chead (cons r)) obj 8 0 = Inr obj"
    by (simp add: dequeue_ptrs_def dequeue_elms_64_def Let_def k unrolled_run)
  have e: "r\<lparr>cons := cons r\<lparr>chead := chead (cons r)\<rparr>\<rparr> = r" "r\<lparr>cons := cons r\<lparr>ctail := chead (cons r)\<rparr>\<rparr> = r"
    using k(4) by simp_all
  have "mc_reserve cas_value r 0 = Some (Inr (Some (chead (cons r), 0, chead (cons r), r)))"
    by (subst mc_reserve.simps) (simp add: cas_value_def Let_def)
  then show ?thesis by (simp add: mc_do_dequeue_def d k(4) e)
qed

lemma enqueue_64_run:
  assumes k: "k < 32" "pmask (prod r) = mask k" "psize (prod r) = 2 ^ k"
    and n: "unat n < 2 ^ k" and head: "unat h mod 2 ^ k = i"
  shows "enqueue_ptrs r h obj 8 n = store r (copy_run 2 (unat n) (cells r) i obj 0)"
proof -
  have i: "unat (h AND mask k) = i" by (simp add: unat_and_mask head)
  have "(if (h AND mask k) + n \<noteq> 0 then 1 else 0 :: u32) < 2 ^ k"
  proof (cases k)
    case 0
    then have "n = 0" using n by (simp add: unat_eq_0)
    then show ?thesis using 0 by simp
  next
    case (Suc j)
    then have "(2 :: nat) \<le> 2 ^ k" by simp
    then show ?thesis using pow_u32(1) [OF k(1)] by (auto simp: unat_mono_less)
  qed
  then show ?thesis
    by (simp add: enqueue_ptrs_def enqueue_elms_64_def Let_def k i unrolled_run)
qed

text \<open>What the head of the producer is, as a position of the array.\<close>

lemma phead_mod:
  assumes "ring_inv k r"
  shows "unat (phead (prod r)) mod 2 ^ k = (unat (chead (cons r)) + ring_used r) mod 2 ^ k"
proof -
  have "phead (prod r) = chead (cons r) + (ptail (prod r) - chead (cons r))"
    using assms by (simp add: ring_inv_def)
  then have "unat (phead (prod r)) = (unat (chead (cons r)) + ring_used r) mod 2 ^ 32"
    unfolding ring_used_def using unat_add_eq [of "chead (cons r)" "ptail (prod r) - chead (cons r)"] by simp
  then show ?thesis using assms pow_u32(4) [of k] by (simp add: ring_inv_def mod_mod_cancel)
qed

subsection \<open>What an operation does to the stored objects\<close>

lemma ring_inv_mod:
  assumes "ring_inv k r"
  shows "length (elms 2 (cells r)) = 2 ^ k" "k < 32"
  using assms by (simp_all add: ring_inv_def)

lemma mp_enqueue_effect:
  fixes r :: "'w ring"
  assumes r: "ring_inv k r"
    and m: "m = min (unat n) (2 ^ k - 1 - ring_used r)"
    and i: "i = (unat (chead (cons r)) + ring_used r) mod 2 ^ k"
    and obj: "m \<le> length obj div 2"
  shows "i + m \<le> 2 ^ k \<Longrightarrow> \<exists>r'. mp_do_enqueue cas_value r obj n = Inr (int m, r') \<and> ring_inv k r' \<and>
      ring_objs r' = ring_objs r @ take m (elms 2 obj)"
    and "2 ^ k < i + m \<Longrightarrow> mp_do_enqueue cas_value r obj n = Inl OutOfBounds"
proof -
  let ?h = "phead (prod r)" let ?free = "pmask (prod r) + ctail (cons r) - ?h"
  define n' where "n' = (if n > ?free then ?free else n)"
  define r1 where "r1 = r\<lparr>prod := prod r\<lparr>phead := ?h + n'\<rparr>\<rparr>"
  note k = pow_u32 [OF ring_inv_mod(2) [OF r]]
  have m': "unat n' = m" unfolding n'_def m using ring_free(1) [OF r] by (auto simp: unat_mono_less)
  have mk: "m < 2 ^ k" unfolding m by (simp add: min.strict_coboundedI2)
  have h: "unat ?h mod 2 ^ k = i" unfolding i by (rule phead_mod [OF r])
  have e: "enqueue_ptrs r1 ?h obj 8 n' = store r1 (copy_run 2 m (cells r) i obj 0)"
    using enqueue_64_run [of k r1 n' ?h i obj] r h mk m' by (simp add: r1_def ring_inv_def)
  have run: "mp_do_enqueue cas_value r obj n =
      andThen (store r1 (copy_run 2 m (cells r) i obj 0)) (\<lambda>r. if ptail (prod r) \<noteq> ?h then Inl NoReturn
       else Inr (sint n', r\<lparr>prod := prod r\<lparr>ptail := ?h + n'\<rparr>\<rparr>))"
    unfolding mp_do_enqueue_def mp_reserve_value n'_def [symmetric] r1_def [symmetric] Let_def
    by (simp add: n'_def [symmetric] r1_def [symmetric] e)
  have len: "length (cells r) div 2 = 2 ^ k" using r by (simp add: ring_inv_def)
  show "2 ^ k < i + m \<Longrightarrow> mp_do_enqueue cas_value r obj n = Inl OutOfBounds"
  proof -
    assume w: "2 ^ k < i + m"
    moreover have "i < 2 ^ k" by (simp add: i)
    ultimately have "copy_run 2 m (cells r) i obj 0 = Inl OutOfBounds"
      using len by (intro copy_run_out) auto
    then show ?thesis by (simp add: run store_def)
  qed
  show "\<exists>r'. mp_do_enqueue cas_value r obj n = Inr (int m, r') \<and> ring_inv k r' \<and>
      ring_objs r' = ring_objs r @ take m (elms 2 obj)" if w: "i + m \<le> 2 ^ k"
  proof -
    obtain d where d: "copy_run 2 m (cells r) i obj 0 = Inr d" "length d = length (cells r)"
      "elms 2 d = move m (elms 2 (cells r)) i (elms 2 obj) 0"
      using copy_run_ok [of 2 i m "cells r" 0 obj] w len obj by auto
    let ?r = "r\<lparr>prod := prod r\<lparr>phead := ?h + n', ptail := ?h + n'\<rparr>, cells := d\<rparr>"
    have "(2 :: nat) ^ k \<le> 2 ^ 31" using ring_inv_mod(2) [OF r] by (intro power_increasing) simp_all
    then have "m < 2 ^ 31" using mk by (rule less_le_trans [rotated])
    then have "sint n' = int m" by (simp add: sint_small m')
    moreover have "ptail (prod r) = ?h" using r by (simp add: ring_inv_def)
    ultimately have res: "mp_do_enqueue cas_value r obj n = Inr (int m, ?r)"
      by (simp add: run d(1) store_def r1_def)
    have "?h + n' - chead (cons r) = (?h - chead (cons r)) + n'" by simp
    moreover have "unat (?h - chead (cons r)) = ring_used r" using r by (simp add: ring_inv_def ring_used_def)
    moreover have um: "ring_used r + m < 2 ^ k" using ring_free(2) [OF r] m by simp
    ultimately have u: "unat (?h + n' - chead (cons r)) = ring_used r + m"
      using k(5) m' by (simp only: unat_add_eq) simp
    have "ring_inv k ?r" using r u um d(2) by (simp add: ring_inv_def)
    moreover have "cyc_slice (move m (elms 2 (cells r)) i (elms 2 obj) 0) (unat (chead (cons r))) (ring_used r + m)
        = ring_objs r @ take m (elms 2 obj)"
      using cyc_slice_move [of "ring_used r" m "elms 2 (cells r)" "unat (chead (cons r))" 0 "elms 2 obj"]
        um w obj unfolding ring_inv_mod(1) [OF r] i ring_objs_def by simp
    then have "ring_objs ?r = ring_objs r @ take m (elms 2 obj)"
      by (rule ring_objs_eq [THEN trans, rotated 3]) (simp_all add: d(3) u)
    ultimately show ?thesis using res by blast
  qed
qed

lemma dequeue_64_read:
  assumes r: "ring_inv k r" and n: "unat n \<le> ring_used r" "unat n \<le> length obj div 2"
  shows "\<exists>obj'. dequeue_ptrs r (chead (cons r)) obj 8 n = Inr obj' \<and> length obj' = length obj \<and>
    elms 2 obj' = take (unat n) (ring_objs r) @ drop (unat n) (elms 2 obj)"
proof -
  let ?i = "unat (chead (cons r)) mod 2 ^ k"
  note k = pow_u32 [OF ring_inv_mod(2) [OF r]]
  have i: "unat (chead (cons r) AND mask k) = ?i" by (rule unat_and_mask)
  have u: "ring_used r < 2 ^ k" by (rule ring_free(2) [OF r])
  have "(2 :: nat) ^ k \<le> 2 ^ 31" using ring_inv_mod(2) [OF r] by (intro power_increasing) simp_all
  then have p: "(2 :: nat) ^ k \<le> 2147483648" by simp
  have "?i < 2 ^ k" by simp
  then have "?i + unat n < 4294967296" using n(1) u p by linarith
  then have "unat (chead (cons r) AND mask k) + unat n < 2 ^ LENGTH(32)" unfolding i by simp
  then have s: "unat ((chead (cons r) AND mask k) + n) = ?i + unat n"
    using i by (subst unat_add_no_wrap) simp_all
  have d: "dequeue_ptrs r (chead (cons r)) obj 8 n =
      (if ?i + unat n < 2 ^ k then copy_run 2 (unat n) obj 0 (cells r) ?i
       else wrap_read 2 (cells r) (2 ^ k) ?i obj (unat n))"
    using r s i k(1) by (simp add: dequeue_ptrs_def dequeue_elms_64_def Let_def ring_inv_def unrolled_run unat_mono_less)
  have o: "cyc_slice (elms 2 (cells r)) ?i (unat n) = take (unat n) (ring_objs r)"
  proof -
    have "cyc_slice (elms 2 (cells r)) ?i (unat n) = cyc_slice (elms 2 (cells r)) (unat (chead (cons r))) (unat n)"
      using cyc_slice_mod [of "elms 2 (cells r)"] ring_inv_mod(1) [OF r] by simp
    also have "\<dots> = take (unat n) (ring_objs r)"
      unfolding ring_objs_def cyc_slice_def using n(1) by (simp add: take_map)
    finally show ?thesis .
  qed
  have len: "length (cells r) div 2 = 2 ^ k" using r by (simp add: ring_inv_def)
  show ?thesis
  proof (cases "?i + unat n < 2 ^ k")
    case True
    then show ?thesis
      using plain_read_ok [of 2 "cells r" "2 ^ k" ?i "unat n" obj] len n(2) unfolding d o [symmetric] by simp
  next
    case False
    then show ?thesis
      using wrap_read_ok [of 2 "cells r" "2 ^ k" ?i "unat n" obj] len n u unfolding d o [symmetric] by simp
  qed
qed

lemma sc_dequeue_effect:
  assumes r: "ring_inv k r" and obj: "unat n \<le> length obj div 2"
  shows "unat n \<le> ring_used r \<Longrightarrow> \<exists>obj' r'. sc_do_dequeue r obj n = Inr (int (unat n), obj', r') \<and>
      ring_inv k r' \<and> ring_objs r' = drop (unat n) (ring_objs r) \<and>
      elms 2 obj' = take (unat n) (ring_objs r) @ drop (unat n) (elms 2 obj)"
    and "ring_used r < unat n \<Longrightarrow> sc_do_dequeue r obj n = Inr (- 1, obj, r)"
proof -
  show "ring_used r < unat n \<Longrightarrow> sc_do_dequeue r obj n = Inr (- 1, obj, r)"
    by (auto simp: sc_do_dequeue_def ring_used_def Let_def unat_mono_less)
  assume n: "unat n \<le> ring_used r"
  let ?r = "r\<lparr>cons := cons r\<lparr>chead := chead (cons r) + n, ctail := chead (cons r) + n\<rparr>\<rparr>"
  have u: "ring_used r < 2 ^ k" by (rule ring_free(2) [OF r])
  obtain obj' where o: "dequeue_ptrs r (chead (cons r)) obj 8 n = Inr obj'"
    "elms 2 obj' = take (unat n) (ring_objs r) @ drop (unat n) (elms 2 obj)"
    using dequeue_64_read [OF r n obj] by blast
  have "(2 :: nat) ^ k \<le> 2 ^ 31" using ring_inv_mod(2) [OF r] by (intro power_increasing) simp_all
  then have sn: "sint n = int (unat n)" using n u by (intro sint_small) simp
  have "ptail (prod r) - (chead (cons r) + n) = (ptail (prod r) - chead (cons r)) - n" by simp
  then have v: "unat (ptail (prod r) - (chead (cons r) + n)) = ring_used r - unat n"
    using n by (simp only: unat_sub_no_wrap ring_used_def)
  have c: "sc_do_dequeue r obj n = Inr (int (unat n), (if n = 0 then obj else obj'), (if n = 0 then r else ?r))"
    using n o(1) sn by (simp add: sc_do_dequeue_def ring_used_def Let_def unat_mono_less)
  show "\<exists>obj' r'. sc_do_dequeue r obj n = Inr (int (unat n), obj', r') \<and>
      ring_inv k r' \<and> ring_objs r' = drop (unat n) (ring_objs r) \<and>
      elms 2 obj' = take (unat n) (ring_objs r) @ drop (unat n) (elms 2 obj)"
  proof (cases "n = 0")
    case True
    then show ?thesis using c r by simp
  next
    case False
    have "ring_inv k ?r" using r v u by (simp add: ring_inv_def)
    moreover have "ring_objs ?r = drop (unat n) (ring_objs r)"
    proof -
      have "ring_objs ?r = cyc_slice (elms 2 (cells r)) (unat (chead (cons r) + n)) (ring_used r - unat n)"
        by (rule ring_objs_eq) (simp_all add: v)
      also have "\<dots> = cyc_slice (elms 2 (cells r)) (unat (chead (cons r)) + unat n) (ring_used r - unat n)"
        using cyc_slice_mod [of "elms 2 (cells r)" "unat (chead (cons r) + n)"]
          cyc_slice_mod [of "elms 2 (cells r)" "unat (chead (cons r)) + unat n"]
          index_mod [OF ring_inv_mod(2) [OF r], of "chead (cons r)" n] ring_inv_mod(1) [OF r]
        unfolding unat_and_mask by simp
      also have "\<dots> = drop (unat n) (ring_objs r)" unfolding ring_objs_def by (rule cyc_slice_drop [OF n])
      finally show ?thesis .
    qed
    ultimately show ?thesis using c o(2) False by auto
  qed
qed

subsection \<open>The ring as a bounded FIFO of objects\<close>

text \<open>
  One object is two words. A single object never crosses the end of the array, so
  \<open>cmt_ring_enqueue\<close> with several producers and the dequeue of one consumer give the contract
  of \<open>serving_fifo\<close>. A get hands the dequeue a table of \<open>n\<close> objects, which holds \<open>blank\<close>
  before, and returns the objects that the table holds afterwards: as many as the returned count
  says, none when it is -1.
\<close>

definition ring_put :: "'w ring \<Rightarrow> 'w list list \<Rightarrow> (nat \<times> 'w ring) res" where
  "ring_put r xs =
     andThen (mp_do_enqueue cas_value r (concat xs) (word_of_nat (length xs))) (\<lambda>(n, r). Inr (nat n, r))"

definition ring_serve :: "'w \<Rightarrow> 'w ring \<Rightarrow> nat \<Rightarrow> ('w list list \<times> 'w ring) res" where
  "ring_serve blank r n =
     andThen (sc_do_dequeue r (replicate (2 * n) blank) (word_of_nat n)) (\<lambda>(m, tab, r).
       Inr (if m < 0 then [] else take (nat m) (elms 2 tab), r))"

text \<open>The count is passed as an \<open>unsigned\<close>; a call for more than is stored gets nothing.\<close>

definition all_or_nothing :: "nat \<Rightarrow> nat \<Rightarrow> nat" where
  "all_or_nothing q stored = (let q = unat (word_of_nat q :: u32) in if q \<le> stored then q else 0)"

definition one_object :: "'w list list \<Rightarrow> bool" where
  "one_object xs \<longleftrightarrow> length xs \<le> 1 \<and> (\<forall>x\<in>set xs. length x = 2)"

lemma ring_put_law:
  assumes r: "ring_inv k r" and xs: "one_object xs"
  shows "\<exists>r'. ring_put r xs = Inr (min (length xs) (2 ^ k - 1 - length (ring_objs r)), r') \<and> ring_inv k r' \<and>
    ring_objs r' = ring_objs r @ take (2 ^ k - 1 - length (ring_objs r)) xs"
proof -
  define n where "n = min (length xs) (2 ^ k - 1 - ring_used r)"
  let ?i = "(unat (chead (cons r)) + ring_used r) mod 2 ^ k"
  have l: "unat (word_of_nat (length xs) :: u32) = length xs"
    using xs by (auto simp: one_object_def le_Suc_eq length_Suc_conv)
  have e: "elms 2 (concat xs) = xs"
    using xs by (auto simp: one_object_def le_Suc_eq length_Suc_conv elms_def)
  have "length (concat xs) div 2 = length xs"
    using xs by (auto simp: one_object_def le_Suc_eq length_Suc_conv)
  moreover have "?i < 2 ^ k" by simp
  moreover have "n \<le> 1" using xs unfolding n_def one_object_def by linarith
  ultimately obtain r' where "mp_do_enqueue cas_value r (concat xs) (word_of_nat (length xs)) = Inr (int n, r')"
    "ring_inv k r'" "ring_objs r' = ring_objs r @ take n xs"
    using mp_enqueue_effect(1) [OF r, of n "word_of_nat (length xs)" ?i "concat xs"]
    unfolding l e by (fastforce simp: n_def)
  moreover have "take n xs = take (2 ^ k - 1 - ring_used r) xs" by (simp add: n_def min_def)
  moreover have "length (ring_objs r) = ring_used r" by (simp add: ring_objs_def)
  ultimately show ?thesis by (auto simp: ring_put_def n_def)
qed

lemma ring_serve_law:
  assumes r: "ring_inv k r"
  shows "\<exists>r'. ring_serve b r m = Inr (take (all_or_nothing m (length (ring_objs r))) (ring_objs r), r') \<and>
    ring_inv k r' \<and> ring_objs r' = drop (all_or_nothing m (length (ring_objs r))) (ring_objs r)"
proof -
  let ?m = "word_of_nat m :: u32"
  have "unat ?m \<le> m" by (metis mod_less_eq_dividend unat_of_nat)
  then have l: "unat ?m \<le> length (replicate (2 * m) b) div 2" by simp
  have u: "length (ring_objs r) = ring_used r" by (simp add: ring_objs_def)
  show ?thesis
  proof (cases "unat ?m \<le> ring_used r")
    case True
    then obtain tab' r' where "sc_do_dequeue r (replicate (2 * m) b) ?m = Inr (int (unat ?m), tab', r')"
      "ring_inv k r'" "ring_objs r' = drop (unat ?m) (ring_objs r)"
      "elms 2 tab' = take (unat ?m) (ring_objs r) @ drop (unat ?m) (elms 2 (replicate (2 * m) b))"
      using sc_dequeue_effect(1) [OF r l] by blast
    then show ?thesis using True u by (simp add: ring_serve_def all_or_nothing_def Let_def)
  next
    case False
    then show ?thesis using sc_dequeue_effect(2) [OF r l] r u
      by (simp add: ring_serve_def all_or_nothing_def Let_def)
  qed
qed

interpretation rg: serving_fifo "ring_inv k" one_object ring_objs "\<lambda>r. 2 ^ k - 1" all_or_nothing
    ring_put "ring_serve b"
  for k :: nat and b :: 'w
proof unfold_locales
  fix r :: "'w ring" and xs :: "'w list list" assume "ring_inv k r" "one_object xs"
  then show "\<exists>r'. ring_put r xs = Inr (min (length xs) (2 ^ k - 1 - length (ring_objs r)), r') \<and> ring_inv k r' \<and>
      2 ^ k - 1 = (2 ^ k - 1 :: nat) \<and> ring_objs r' = ring_objs r @ take (2 ^ k - 1 - length (ring_objs r)) xs"
    using ring_put_law [of k r xs] by simp
next
  fix r :: "'w ring" and m assume "ring_inv k r"
  then show "\<exists>r'. ring_serve b r m = Inr (take (all_or_nothing m (length (ring_objs r))) (ring_objs r), r') \<and>
      ring_inv k r' \<and> 2 ^ k - 1 = (2 ^ k - 1 :: nat) \<and>
      ring_objs r' = drop (all_or_nothing m (length (ring_objs r))) (ring_objs r)"
    using ring_serve_law [of k r b m] by simp
next
  fix r :: "'w ring" assume "ring_inv k r"
  then show "length (ring_objs r) \<le> 2 ^ k - 1" using ring_free(2) [of k r] by simp
qed

subsection \<open>Properties\<close>

text \<open>
  The unrolled copies of the ring - blocks of eight, four or two elements, then a
  \<open>switch\<close> on the rest - copy exactly the elements a plain loop copies, and leave the memory
  for an access outside exactly when the plain loop does: for every width of element, every
  block size below 2^32, every position and every count.
\<close>

theorem unrolled_copies:
  assumes "k < 32"
  shows "unrolled w k d di s si n = copy_run w (unat n) d di s si"
  by (rule unrolled_run [OF assms])

lemma unrolled_copies_witness:
  "unrolled 2 3 (replicate 22 (0 :: nat)) 1 [0..<22] 0 10 = Inr ([0, 0] @ [0..<20])"
proof -
  have "copy_run 2 10 (replicate 22 (0 :: nat)) 1 [0..<22] 0 = Inr ([0, 0] @ [0..<20])" by code_simp
  then show ?thesis using unrolled_copies [of 3 2 "replicate 22 (0 :: nat)" 1 "[0..<22]" 0 10] by simp
qed

text \<open>
  One producer of the multi-producer variant and the single consumer on a ring of \<open>2 ^ k\<close>
  slots. The enqueue takes \<open>m\<close> objects, the smaller of what it is given and what is free, one
  slot always staying empty; if they fit before the end of the array it appends them to the
  stored objects, and if they do not it writes behind the array, because the misplaced
  parenthesis of \<open>likely(idx + n) < size\<close> never takes the branch that wraps around. The dequeue
  hands out the oldest \<open>q\<close> objects, across the end of the array too, and refuses with -1 and no
  effect when fewer are stored.
\<close>

theorem ring_operations:
  assumes r: "ring_inv k r"
    and m: "m = min (unat n) (2 ^ k - 1 - ring_used r)"
    and i: "i = (unat (chead (cons r)) + ring_used r) mod 2 ^ k"
    and obj: "m \<le> length obj div 2" "unat q \<le> length tab div 2"
  shows "(i + m \<le> 2 ^ k \<longrightarrow> (\<exists>r'. mp_do_enqueue cas_value r obj n = Inr (int m, r') \<and> ring_inv k r' \<and>
      ring_objs r' = ring_objs r @ take m (elms 2 obj))) \<and>
    (2 ^ k < i + m \<longrightarrow> mp_do_enqueue cas_value r obj n = Inl OutOfBounds) \<and>
    (unat q \<le> ring_used r \<longrightarrow> (\<exists>tab' r'. sc_do_dequeue r tab q = Inr (int (unat q), tab', r') \<and>
      ring_inv k r' \<and> ring_objs r' = drop (unat q) (ring_objs r) \<and>
      elms 2 tab' = take (unat q) (ring_objs r) @ drop (unat q) (elms 2 tab))) \<and>
    (ring_used r < unat q \<longrightarrow> sc_do_dequeue r tab q = Inr (- 1, tab, r))"
  using mp_enqueue_effect [OF r m i obj(1)] sc_dequeue_effect [OF r obj(2)] by blast

text \<open>A ring of four slots as \<open>cmt_ring_create\<close> returns it, for the examples.\<close>

definition four_slots :: "u32 \<Rightarrow> u32 \<Rightarrow> nat ring" where
  "four_slots sp sc =
     \<lparr>ring_name = ''rx'',
      prod = \<lparr>sp_enqueue = sp, psize = 4, pmask = 3, phead = 0, ptail = 0\<rparr>,
      cons = \<lparr>sc_dequeue = sc, csize = 4, cmask = 3, chead = 0, ctail = 0\<rparr>,
      cells = replicate 8 0\<rparr>"

lemma four_slots_inv: "ring_inv 2 (four_slots sp sc)" "ring_used (four_slots sp sc) = 0"
    "ring_objs (four_slots sp sc) = []" "chead (cons (four_slots sp sc)) = 0"
  by (simp_all add: ring_inv_def four_slots_def ring_used_def ring_objs_def mask_numeral)

lemma ring_operations_witness:
  "\<exists>r'. mp_do_enqueue cas_value (four_slots 0 1) [1, 2, 3, 4] 2 = Inr (2, r') \<and>
     ring_objs r' = [[1, 2], [3, 4]]"
  using ring_operations [OF four_slots_inv(1), of 2 2 0 1 0 "[1, 2, 3, 4]" 0 "[]"]
  by (auto simp: four_slots_inv elms_def upt_rec)

text \<open>
  C12: With the multi-producer enqueue of single objects and the single-consumer dequeue, the
  ring is a bounded first-in first-out buffer of \<open>2 ^ k - 1\<close> objects. Along any run of calls,
  whatever the indices are and however often they wrap around, an object is accepted exactly when
  fewer than \<open>2 ^ k - 1\<close> are stored; a dequeue of \<open>q\<close> objects (as an \<open>unsigned\<close>) finds the \<open>q\<close> oldest
  in its table, in their order, and gets nothing when fewer are stored. So the objects accepted
  and the objects found in the tables are those of the same calls on a list, and what was stored
  and accepted is what was handed out followed by what is stored at the end.
\<close>

theorem ring_fifo:
  assumes "ring_inv k r" "\<forall>p\<in>set ops. op_fits one_object p"
  shows "\<exists>ins outs r'. serve_run ring_put (ring_serve blank) r ops = Inr (ins, outs, r') \<and> ring_inv k r' \<and>
    spec_run (2 ^ k - 1) all_or_nothing (ring_objs r) ops = (ins, outs, ring_objs r') \<and>
    ring_objs r @ ins = outs @ ring_objs r' \<and>
    length (ring_objs r) + length ins \<le> length outs + (2 ^ k - 1)"
proof -
  obtain ins outs r' where f: "serve_run ring_put (ring_serve blank) r ops = Inr (ins, outs, r')" "ring_inv k r'"
    and s: "spec_run (2 ^ k - 1) all_or_nothing (ring_objs r) ops = (ins, outs, ring_objs r')"
    using rg.serve_refines [OF assms] by blast
  then show ?thesis using spec_run_fifo [OF s] spec_run_room [OF s rg.room_law [OF assms(1)]] by blast
qed

lemma ring_fifo_witness:
  "\<exists>r'. serve_run ring_put (ring_serve 0) (four_slots 0 1)
     [Put [[1, 2]], Put [[3, 4]], Get 1, Get 2, Put [[5, 6]], Put [[7, 8]], Put [[9, 10]], Get 3] =
       Inr ([[1, 2], [3, 4], [5, 6], [7, 8]], [[1, 2], [3, 4], [5, 6], [7, 8]], r') \<and> ring_objs r' = []"
proof -
  let ?ops = "[Put [[1, 2]], Put [[3, 4]], Get 1, Get 2, Put [[5, 6]], Put [[7, 8]], Put [[9, 10]], Get 3 :: nat list fifo_op]"
  have f: "\<forall>p\<in>set ?ops. op_fits one_object p" by (simp add: one_object_def)
  have "spec_run (2 ^ 2 - 1) all_or_nothing (ring_objs (four_slots 0 1)) ?ops =
      ([[1, 2], [3, 4], [5, 6], [7, 8]], [[1, 2], [3, 4], [5, 6], [7, 8]], [])"
    unfolding four_slots_inv(3) by code_simp
  with ring_fifo [where blank = 0, OF four_slots_inv(1) f] show ?thesis by (metis prod.inject)
qed

text \<open>
  Half of the variants of the ring never move an object. A ring with a single producer
  refuses every enqueue of at least one object, empty or not: its count of free entries is masked
  with the size of the ring and is always zero, so the single-object call returns -2 and the bulk
  call 2^32 - 1. A ring with several consumers hands out nothing and changes nothing, whatever
  it holds: the limit of the call is the constant zero.
\<close>

theorem ring_dead_variants:
  assumes "ring_inv k r"
  shows "sp_enqueue (prod r) = 1 \<longrightarrow> 0 < n \<longrightarrow>
      cmt_ring_enqueue CASra r obj = Inr (- 2, r) \<and>
      cmt_ring_enqueue_bulk CASra r tab n = Inr (- 1, r)"
    and "sc_dequeue (cons r) \<noteq> 1 \<longrightarrow>
      cmt_dequeue cas_value r obj = Inr (- 1, r) \<and> cmt_dequeue_bulk cas_value r obj n = Inr (0, r)"
  using sp_never [OF assms] mc_never [OF assms]
  by (simp_all add: cmt_ring_enqueue_def cmt_ring_enqueue_bulk_def cmt_dequeue_def cmt_dequeue_bulk_def)

lemma ring_dead_variants_witness:
  "cmt_ring_enqueue cas_value (four_slots 1 0) [1, 2] = Inr (- 2, four_slots 1 0)"
  using ring_dead_variants(1) [OF four_slots_inv(1), of 1 0 1 cas_value "[1, 2]" "[]"]
  by (simp add: four_slots_def)

text \<open>
  \<open>cmt_ring_create\<close> accepts exactly the powers of two, reports a failed allocation, and
  below 2^29 slots returns an empty ring in its invariant. From 2^29 slots on the size in bytes
  wraps to zero, the pool is asked for the header alone, and the first object put into the ring
  is written outside of it.
\<close>

theorem ring_create_cases:
  assumes mem: "\<And>m. alloc (sizeof_ring + count * 8) = Some m \<Longrightarrow>
      4 * length m = unat (sizeof_ring + count * 8) - unat sizeof_ring"
  shows "(\<forall>k<32. unat count \<noteq> 2 ^ k) \<longrightarrow> cmt_ring_create alloc name count sp sc = Inl EINVAL"
    and "k < 32 \<and> unat count = 2 ^ k \<and> alloc (sizeof_ring + count * 8) = None \<longrightarrow>
      cmt_ring_create alloc name count sp sc = Inl ENONMEM"
    and "k < 29 \<and> unat count = 2 ^ k \<and> alloc (sizeof_ring + count * 8) \<noteq> None \<longrightarrow>
      (\<exists>r. cmt_ring_create alloc name count sp sc = Inr r \<and> ring_inv k r \<and> ring_objs r = [])"
    and "29 \<le> k \<and> k < 32 \<and> unat count = 2 ^ k \<and> alloc (sizeof_ring + count * 8) \<noteq> None \<longrightarrow>
      (\<exists>r. cmt_ring_create alloc name count 0 sc = Inr r \<and>
         cmt_ring_enqueue cas_value r obj = Inl OutOfBounds)"
proof -
  have c: "ucast count = ROUND_2_UP count \<longleftrightarrow> (\<exists>k<32. unat count = 2 ^ k)" by (rule ROUND_2_UP_self)
  show "(\<forall>k<32. unat count \<noteq> 2 ^ k) \<longrightarrow> cmt_ring_create alloc name count sp sc = Inl EINVAL"
    using c by (auto simp: cmt_ring_create_def)
  show "k < 32 \<and> unat count = 2 ^ k \<and> alloc (sizeof_ring + count * 8) = None \<longrightarrow>
      cmt_ring_create alloc name count sp sc = Inl ENONMEM"
    using c by (auto simp: cmt_ring_create_def)
  have k: "count = 2 ^ k" if "k < 32" "unat count = 2 ^ k"
    using that pow_u32(1) [OF that(1)] by (simp add: word_unat_eq_iff)
  have b: "unat (count * 8) = 2 ^ k * 8 mod 2 ^ 32" if "unat count = 2 ^ k"
    using that by (simp add: unat_word_ariths)
  show "k < 29 \<and> unat count = 2 ^ k \<and> alloc (sizeof_ring + count * 8) \<noteq> None \<longrightarrow>
      (\<exists>r. cmt_ring_create alloc name count sp sc = Inr r \<and> ring_inv k r \<and> ring_objs r = [])"
  proof
    assume p: "k < 29 \<and> unat count = 2 ^ k \<and> alloc (sizeof_ring + count * 8) \<noteq> None"
    then obtain m where m: "alloc (sizeof_ring + count * 8) = Some m" by blast
    have "(2 :: nat) ^ k \<le> 2 ^ 28" using p by (intro power_increasing) auto
    then have "(2 :: nat) ^ k \<le> 268435456" by simp
    then have "unat (sizeof_ring + count * 8) = 256 + 2 ^ k * 8"
      using p b by (simp add: unat_add_eq sizeof_ring_def)
    then have "length m = 2 * 2 ^ k" using mem [OF m] by (simp add: sizeof_ring_def)
    moreover have "k < 32" using p by simp
    ultimately show "\<exists>r. cmt_ring_create alloc name count sp sc = Inr r \<and> ring_inv k r \<and> ring_objs r = []"
      using p m k c pow_u32 [of k]
      by (auto simp: cmt_ring_create_def ring_inv_def ring_objs_def ring_used_def mask_eq_exp_minus_1)
  qed
  show "29 \<le> k \<and> k < 32 \<and> unat count = 2 ^ k \<and> alloc (sizeof_ring + count * 8) \<noteq> None \<longrightarrow>
      (\<exists>r. cmt_ring_create alloc name count 0 sc = Inr r \<and>
         cmt_ring_enqueue cas_value r obj = Inl OutOfBounds)"
  proof
    assume p: "29 \<le> k \<and> k < 32 \<and> unat count = 2 ^ k \<and> alloc (sizeof_ring + count * 8) \<noteq> None"
    then obtain m where m: "alloc (sizeof_ring + count * 8) = Some m" by blast
    have "(2 :: nat) ^ 32 dvd 2 ^ (k + 3)" using p by (intro le_imp_power_dvd) simp
    then have "2 ^ k * 8 mod (2 :: nat) ^ 32 = 0" by (simp add: power_add dvd_eq_mod_eq_0)
    then have "count * 8 = 0" using b p by (simp add: unat_eq_0 [symmetric])
    then have e: "m = []" using mem [OF m] by simp
    define r where "r = \<lparr>ring_name = take 127 name,
      prod = \<lparr>sp_enqueue = 0, psize = count, pmask = mask k, phead = 0, ptail = 0\<rparr>,
      cons = \<lparr>sc_dequeue = sc, csize = count, cmask = mask k, chead = 0, ctail = 0\<rparr>, cells = m\<rparr>"
    have r: "cmt_ring_create alloc name count 0 sc = Inr r"
      using p m k c by (auto simp: cmt_ring_create_def r_def mask_eq_exp_minus_1)
    have k1: "(1 :: nat) < 2 ^ k" using p by (intro one_less_power) simp_all
    then have "unat (mask k :: u32) \<ge> 1" using pow_u32(2) [of k] p by simp
    then have f: "\<not> 1 > (mask k :: u32)" by (simp add: unat_mono_less)
    define r1 where "r1 = r\<lparr>prod := prod r\<lparr>phead := 1\<rparr>\<rparr>"
    have "enqueue_ptrs r1 0 obj 8 1 = store r1 (copy_run 2 (unat (1 :: u32)) (cells r1) 0 obj 0)"
      by (rule enqueue_64_run [of k]) (use p k k1 in \<open>simp_all add: r1_def r_def\<close>)
    also have "\<dots> = Inl OutOfBounds"
      by (simp add: store_def r1_def r_def e copy_elm_def)
    finally have "mp_do_enqueue cas_value r obj 1 = Inl OutOfBounds"
      using f by (simp add: mp_do_enqueue_def mp_reserve_value Let_def r1_def r_def)
    then show "\<exists>r. cmt_ring_create alloc name count 0 sc = Inr r \<and>
         cmt_ring_enqueue cas_value r obj = Inl OutOfBounds"
      using r by (intro exI [of _ r]) (simp add: cmt_ring_enqueue_def r_def)
  qed
qed

lemma ring_create_cases_witness:
  "\<exists>r. cmt_ring_create (\<lambda>b. Some (replicate 8 (0 :: nat))) ''rx'' 4 0 1 = Inr r \<and> ring_inv 2 r"
  using ring_create_cases(3) [of "\<lambda>b. Some (replicate 8 (0 :: nat))" 4 2 "''rx''" 0 1]
  by (auto simp: sizeof_ring_def)

end
