(* ===== verification/Ring_Threads.thy ===== *)
theory Ring_Threads
  imports Ring
begin

text \<open>
  The packet ring (\<open>include/ring.h\<close>) shared by several producers and one consumer. The body of
  \<open>_cmt_ring_mp_do_enqueue\<close> and of \<open>_cmt_ring_sc_do_dequeue\<close> is cut at its accesses to the shared
  ring: one step of a thread is one read of an index, one compare and swap, one copy between the
  ring and the table of the thread, or one store of an index, and the steps of the threads
  interleave in any order on one memory. A copy is one step; for a single object it is the single
  64-bit store of the code. What a thread keeps between two steps are its local variables.
\<close>

subsection \<open>The threads\<close>

text \<open>The point a producer is at, with \<open>obj_table\<close>, \<open>max\<close>, \<open>prod_head\<close>, \<open>cons_tail\<close>, \<open>n\<close> and \<open>prod_next\<close>.\<close>

datatype 'w producer =
    PIdle
  | PStart "'w list" u32
  | PHead "'w list" u32 u32
  | PTail "'w list" u32 u32 u32
  | PCopy "'w list" u32 u32 u32
  | PWait u32 u32 u32
  | PStore u32 u32

text \<open>The consumer: \<open>obj_table\<close>, \<open>n\<close> and \<open>cons_head\<close>, or \<open>cons_next\<close> once the objects are copied.\<close>

datatype 'w consumer =
    CIdle
  | CStart "'w list" u32
  | CHead "'w list" u32 u32
  | CCopy "'w list" u32 u32
  | CHeadOut "'w list" u32 u32
  | CTailOut "'w list" u32 u32

text \<open>
  What a run shows: calls, the objects a producer has reserved slots for at its compare and swap,
  the values returned, the objects handed out.
\<close>

datatype 'w event =
    Called nat "'w list" u32
  | Reserved nat "'w list list"
  | Returned nat int
  | Asked "'w list" u32
  | Refused int
  | Delivered "'w list list"

fun producer_step ::
  "cas \<Rightarrow> nat \<Rightarrow> 'w ring \<Rightarrow> 'w producer \<Rightarrow> ('w event list \<times> 'w producer \<times> 'w ring) res" where
  "producer_step CASra t r PIdle = Inr ([], PIdle, r)"
| "producer_step CASra t r (PStart obj max_n) = Inr ([], PHead obj max_n (phead (prod r)), r)"
| "producer_step CASra t r (PHead obj max_n prod_head) =
     Inr ([], PTail obj max_n prod_head (ctail (cons r)), r)"
| "producer_step CASra t r (PTail obj max_n prod_head cons_tail) =
     (let free_entries = pmask (prod r) + cons_tail - prod_head;
          n = (if max_n > free_entries then free_entries else max_n);
          prod_next = prod_head + n
      in andThen (CASra (phead (prod r)) prod_head prod_next) (\<lambda>(success, current).
         let r = r\<lparr>prod := prod r\<lparr>phead := current\<rparr>\<rparr> in
         Inr (if success then ([Reserved t (take (unat n) (elms 2 obj))], PCopy obj prod_head n prod_next, r)
              else ([], PStart obj max_n, r))))"
| "producer_step CASra t r (PCopy obj prod_head n prod_next) =
     andThen (enqueue_ptrs r prod_head obj 8 n) (\<lambda>r. Inr ([], PWait prod_head n prod_next, r))"
| "producer_step CASra t r (PWait prod_head n prod_next) =
     Inr ([], if ptail (prod r) \<noteq> prod_head then PWait prod_head n prod_next else PStore n prod_next, r)"
| "producer_step CASra t r (PStore n prod_next) =
     Inr ([Returned t (sint n)], PIdle, r\<lparr>prod := prod r\<lparr>ptail := prod_next\<rparr>\<rparr>)"

fun consumer_step :: "'w ring \<Rightarrow> 'w consumer \<Rightarrow> ('w event list \<times> 'w consumer \<times> 'w ring) res" where
  "consumer_step r CIdle = Inr ([], CIdle, r)"
| "consumer_step r (CStart tab n) =
     Inr (if n = 0 then ([Refused 0], CIdle, r) else ([], CHead tab n (chead (cons r)), r))"
| "consumer_step r (CHead tab n cons_head) =
     (let prod_tail = ptail (prod r); entries = prod_tail - cons_head in
      Inr (if n > entries then ([Refused (- 1)], CIdle, r) else ([], CCopy tab n cons_head, r)))"
| "consumer_step r (CCopy tab n cons_head) =
     andThen (dequeue_ptrs r cons_head tab 8 n) (\<lambda>tab. Inr ([], CHeadOut tab n (cons_head + n), r))"
| "consumer_step r (CHeadOut tab n cons_next) =
     Inr ([], CTailOut tab n cons_next, r\<lparr>cons := cons r\<lparr>chead := cons_next\<rparr>\<rparr>)"
| "consumer_step r (CTailOut tab n cons_next) =
     Inr ([Delivered (take (unat n) (elms 2 tab))], CIdle, r\<lparr>cons := cons r\<lparr>ctail := cons_next\<rparr>\<rparr>)"

record 'w threads =
  shared :: "'w ring"
  producers :: "nat \<Rightarrow> 'w producer"
  consumer :: "'w consumer"

text \<open>What happens next: a thread calls, or a thread takes its next step. A busy thread does not call.\<close>

datatype 'w choice =
    Call nat "'w list" u32
  | Ask "'w list" u32
  | Produce nat
  | Consume

fun ring_turn :: "cas \<Rightarrow> 'w threads \<Rightarrow> 'w choice \<Rightarrow> ('w event list \<times> 'w threads) res" where
  "ring_turn CASra s (Call t obj n) =
     Inr (case producers s t of
            PIdle \<Rightarrow> ([Called t obj n], s\<lparr>producers := (producers s)(t := PStart obj n)\<rparr>)
          | _ \<Rightarrow> ([], s))"
| "ring_turn CASra s (Ask tab n) =
     Inr (case consumer s of CIdle \<Rightarrow> ([Asked tab n], s\<lparr>consumer := CStart tab n\<rparr>) | _ \<Rightarrow> ([], s))"
| "ring_turn CASra s (Produce t) =
     andThen (producer_step CASra t (shared s) (producers s t)) (\<lambda>(e, p, r).
     Inr (e, s\<lparr>shared := r, producers := (producers s)(t := p)\<rparr>))"
| "ring_turn CASra s Consume =
     andThen (consumer_step (shared s) (consumer s)) (\<lambda>(e, c, r).
     Inr (e, s\<lparr>shared := r, consumer := c\<rparr>))"

inductive ring_runs :: "cas \<Rightarrow> 'w threads \<Rightarrow> 'w event list \<Rightarrow> 'w threads \<Rightarrow> bool" for CASra s0 where
  start: "ring_runs CASra s0 [] s0"
| turn: "ring_runs CASra s0 es s \<Longrightarrow> ring_turn CASra s c = Inr (e, s') \<Longrightarrow> ring_runs CASra s0 (es @ e) s'"

text \<open>Runs along a schedule compute.\<close>

fun ring_exec :: "cas \<Rightarrow> 'w threads \<Rightarrow> 'w choice list \<Rightarrow> ('w event list \<times> 'w threads) res" where
  "ring_exec CASra s [] = Inr ([], s)"
| "ring_exec CASra s (c # cs) =
     andThen (ring_turn CASra s c) (\<lambda>(e, s). andThen (ring_exec CASra s cs) (\<lambda>(es, s). Inr (e @ es, s)))"

definition all_idle :: "'w ring \<Rightarrow> 'w threads" where
  "all_idle r = \<lparr>shared = r, producers = (\<lambda>t. PIdle), consumer = CIdle\<rparr>"

text \<open>The objects reserved, in the order of the compare and swaps, and the objects handed out.\<close>

fun reserved_by :: "'w event \<Rightarrow> 'w list list" where
  "reserved_by (Reserved t xs) = xs"
| "reserved_by _ = []"

fun delivered_by :: "'w event \<Rightarrow> 'w list list" where
  "delivered_by (Delivered xs) = xs"
| "delivered_by _ = []"

definition reserved :: "'w event list \<Rightarrow> 'w list list" where
  "reserved es = concat (map reserved_by es)"

definition delivered :: "'w event list \<Rightarrow> 'w list list" where
  "delivered es = concat (map delivered_by es)"

text \<open>
  The calls of \<open>cmt_ring_enqueue\<close> (one object of two words) and of a consumer whose table is
  large enough, with no producer that found the ring full at its compare and swap.
\<close>

fun single_call :: "'w event \<Rightarrow> bool" where
  "single_call (Called t obj n) = (n = 1 \<and> length obj = 2)"
| "single_call (Asked tab n) = (unat n \<le> length tab div 2)"
| "single_call _ = True"

fun got_room :: "'w event \<Rightarrow> bool" where
  "got_room (Reserved t xs) = (xs \<noteq> [])"
| "got_room _ = True"

lemma reserved_simps [simp]: "reserved [] = []" "reserved (e # es) = reserved_by e @ reserved es"
    "reserved (es @ es') = reserved es @ reserved es'"
  by (simp_all add: reserved_def)

lemma delivered_simps [simp]: "delivered [] = []" "delivered (e # es) = delivered_by e @ delivered es"
    "delivered (es @ es') = delivered es @ delivered es'"
  by (simp_all add: delivered_def)

lemma ring_exec_runs:
  "ring_runs CASra s0 es s \<Longrightarrow> ring_exec CASra s cs = Inr (es', s') \<Longrightarrow> ring_runs CASra s0 (es @ es') s'"
proof (induction cs arbitrary: s es es')
  case (Cons c cs)
  then obtain e s1 e2 where "ring_turn CASra s c = Inr (e, s1)" "ring_exec CASra s1 cs = Inr (e2, s')" "es' = e @ e2"
    by (auto simp: andThen_Inr_iff)
  then show ?case using Cons.IH [of "es @ e" s1 e2] ring_runs.turn [OF Cons.prems(1)] by fastforce
qed simp

lemma replicate_numeral: "replicate (numeral n) x = x # replicate (pred_numeral n) x"
  by (simp add: numeral_eq_Suc)

text \<open>A thread that is not interrupted does what the operations of \<open>Ring\<close> do in one step.\<close>

lemma producer_alone:
  assumes "mp_do_enqueue cas_value r obj n = Inr (v, r')"
  shows "\<exists>xs. ring_exec cas_value (all_idle r) (Call t obj n # replicate 6 (Produce t)) =
    Inr ([Called t obj n, Reserved t xs, Returned t v], all_idle r')"
  using assms
  by (auto simp: mp_do_enqueue_def mp_reserve_value Let_def andThen_Inr_iff all_idle_def eval_nat_numeral
      cas_value_def fun_upd_idem split: if_splits)

lemma consumer_alone:
  assumes "sc_do_dequeue r tab n = Inr (v, tab', r')" "n \<noteq> 0" "v \<noteq> - 1"
  shows "ring_exec CASra (all_idle r) (Ask tab n # replicate 5 Consume) =
    Inr ([Asked tab n, Delivered (take (unat n) (elms 2 tab'))], all_idle r')"
  using assms
  by (auto simp: sc_do_dequeue_def Let_def andThen_Inr_iff all_idle_def eval_nat_numeral split: if_splits)

subsection \<open>Positions\<close>

text \<open>
  The objects are counted from the start of the run: object number \<open>i\<close> has the index \<open>at b i\<close>,
  where \<open>b\<close> is the consumer's head at the start, and lies in slot \<open>(b + i) mod 2 ^ k\<close>.
\<close>

definition at :: "nat \<Rightarrow> nat \<Rightarrow> u32" where
  "at b i = word_of_nat (b + i)"

definition in_slot :: "nat \<Rightarrow> nat \<Rightarrow> 'w ring \<Rightarrow> nat \<Rightarrow> 'w list" where
  "in_slot k b r i = elms 2 (cells r) ! ((b + i) mod 2 ^ k)"

lemma at_add [simp]: "at b i + n = at b (i + unat n)"
  by (simp add: at_def ac_simps)

lemma at_Suc [simp]: "at b (Suc i) - 1 = at b i"
  by (simp add: at_def)

lemma at_mod: "k < 32 \<Longrightarrow> unat (at b i) mod 2 ^ k = (b + i) mod 2 ^ k"
  using pow_u32(4) [of k] by (simp add: at_def unat_of_nat mod_mod_cancel del: of_nat_add)

lemma at_diff: "i \<le> j \<Longrightarrow> j < 2 ^ 32 + i \<Longrightarrow> unat (at b j - at b i) = j - i"
proof -
  assume ij: "i \<le> j" "j < 2 ^ 32 + i"
  have e: "at b j - at b i = word_of_nat (j - i)"
    using ij(1) by (simp add: at_def of_nat_diff algebra_simps)
  show "unat (at b j - at b i) = j - i" unfolding e unat_of_nat using ij by simp
qed

lemma at_inj: "at b i = at b j \<Longrightarrow> i < 2 ^ 32 \<Longrightarrow> j < 2 ^ 32 \<Longrightarrow> i = j"
proof (induction i j rule: linorder_wlog)
  case (le i j)
  then have "unat (at b j - at b i) = j - i" by (intro at_diff) simp_all
  then show ?case using le by simp
qed simp

lemma slot_inj:
  assumes "(b + i) mod 2 ^ k = (b + j) mod 2 ^ k" "i < j + 2 ^ k" "j < i + (2 ^ k :: nat)"
  shows "i = j"
  using assms
proof (induction i j rule: linorder_wlog)
  case (le i j)
  then have "(2 :: nat) ^ k dvd (b + j) - (b + i)" by (intro mod_eq_dvd_iff_nat [THEN iffD1]) simp_all
  then show ?case using le by (auto dest: dvd_imp_le)
qed (metis)

subsection \<open>The invariant\<close>

text \<open>
  \<open>L\<close> lists the objects stored at the start and those reserved since; the producers' tail is at
  object \<open>T\<close>, the consumer's at object \<open>c\<close>. One assertion for each point a producer can be at.
\<close>

definition reads_ok :: "nat \<Rightarrow> nat \<Rightarrow> nat \<Rightarrow> nat \<Rightarrow> u32 \<Rightarrow> u32 \<Rightarrow> bool" where
  "reads_ok k b H c h t \<longleftrightarrow> (\<exists>j d. j \<le> H \<and> h = at b j \<and> d \<le> c \<and> t = at b d \<and>
     (j < H \<or> H \<le> d + (2 ^ k - 1)))"

fun producer_ok :: "nat \<Rightarrow> nat \<Rightarrow> 'w list list \<Rightarrow> nat \<Rightarrow> nat \<Rightarrow> 'w ring \<Rightarrow> 'w producer \<Rightarrow> bool" where
  "producer_ok k b L T c r PIdle \<longleftrightarrow> True"
| "producer_ok k b L T c r (PStart obj m) \<longleftrightarrow> m = 1 \<and> length obj = 2"
| "producer_ok k b L T c r (PHead obj m h) \<longleftrightarrow> m = 1 \<and> length obj = 2 \<and> (\<exists>j\<le>length L. h = at b j)"
| "producer_ok k b L T c r (PTail obj m h t) \<longleftrightarrow> m = 1 \<and> length obj = 2 \<and>
     reads_ok k b (length L) c h t"
| "producer_ok k b L T c r (PCopy obj h n nx) \<longleftrightarrow> n = 1 \<and> length obj = 2 \<and>
     (\<exists>i. T \<le> i \<and> i < length L \<and> h = at b i \<and> nx = at b (Suc i) \<and> elms 2 obj = [L ! i])"
| "producer_ok k b L T c r (PWait h n nx) \<longleftrightarrow> n = 1 \<and>
     (\<exists>i. T \<le> i \<and> i < length L \<and> h = at b i \<and> nx = at b (Suc i) \<and> in_slot k b r i = L ! i)"
| "producer_ok k b L T c r (PStore n nx) \<longleftrightarrow> n = 1 \<and>
     T < length L \<and> nx = at b (Suc T) \<and> in_slot k b r T = L ! T"

text \<open>The index of the slot a producer has reserved and not published.\<close>

fun claim :: "'w producer \<Rightarrow> u32 option" where
  "claim (PCopy obj h n nx) = Some h"
| "claim (PWait h n nx) = Some h"
| "claim (PStore n nx) = Some (nx - n)"
| "claim _ = None"

fun consumer_ok :: "nat \<Rightarrow> 'w list list \<Rightarrow> nat \<Rightarrow> nat \<Rightarrow> u32 \<Rightarrow> 'w consumer \<Rightarrow> bool" where
  "consumer_ok b L T c ch CIdle \<longleftrightarrow> ch = at b c"
| "consumer_ok b L T c ch (CStart tab n) \<longleftrightarrow> ch = at b c \<and> unat n \<le> length tab div 2"
| "consumer_ok b L T c ch (CHead tab n h) \<longleftrightarrow> ch = at b c \<and> unat n \<le> length tab div 2 \<and> h = at b c"
| "consumer_ok b L T c ch (CCopy tab n h) \<longleftrightarrow> ch = at b c \<and> unat n \<le> length tab div 2 \<and> h = at b c \<and>
     c + unat n \<le> T"
| "consumer_ok b L T c ch (CHeadOut tab n nx) \<longleftrightarrow> ch = at b c \<and> c + unat n \<le> T \<and> nx = at b (c + unat n) \<and>
     take (unat n) (elms 2 tab) = take (unat n) (drop c L)"
| "consumer_ok b L T c ch (CTailOut tab n nx) \<longleftrightarrow> ch = nx \<and> c + unat n \<le> T \<and> nx = at b (c + unat n) \<and>
     take (unat n) (elms 2 tab) = take (unat n) (drop c L)"

definition ring_shape :: "nat \<Rightarrow> 'w ring \<Rightarrow> bool" where
  "ring_shape k r \<longleftrightarrow> k < 32 \<and> length (cells r) div 2 = 2 ^ k \<and>
     psize (prod r) = 2 ^ k \<and> pmask (prod r) = mask k \<and> csize (cons r) = 2 ^ k \<and> cmask (cons r) = mask k"

definition claims_ok :: "nat \<Rightarrow> nat \<Rightarrow> nat \<Rightarrow> (nat \<Rightarrow> 'w producer) \<Rightarrow> bool" where
  "claims_ok b T H ps \<longleftrightarrow>
     (\<forall>t u. t \<noteq> u \<longrightarrow> claim (ps t) \<noteq> None \<longrightarrow> claim (ps t) \<noteq> claim (ps u)) \<and>
     (\<forall>i. T \<le> i \<longrightarrow> i < H \<longrightarrow> (\<exists>t. claim (ps t) = Some (at b i)))"

definition indices_ok :: "nat \<Rightarrow> nat \<Rightarrow> 'w list list \<Rightarrow> nat \<Rightarrow> nat \<Rightarrow> 'w ring \<Rightarrow> bool" where
  "indices_ok k b L T c r \<longleftrightarrow> ring_shape k r \<and>
     phead (prod r) = at b (length L) \<and> ptail (prod r) = at b T \<and> ctail (cons r) = at b c \<and>
     c \<le> T \<and> T \<le> length L \<and> length L \<le> c + (2 ^ k - 1) \<and> length L < 2 ^ 32 \<and>
     (\<forall>i. c \<le> i \<longrightarrow> i < T \<longrightarrow> in_slot k b r i = L ! i)"

definition threads_inv :: "nat \<Rightarrow> nat \<Rightarrow> 'w list list \<Rightarrow> nat \<Rightarrow> nat \<Rightarrow> 'w threads \<Rightarrow> bool" where
  "threads_inv k b L T c s \<longleftrightarrow> indices_ok k b L T c (shared s) \<and>
     (\<forall>t. producer_ok k b L T c (shared s) (producers s t)) \<and>
     claims_ok b T (length L) (producers s) \<and>
     consumer_ok b L T c (chead (cons (shared s))) (consumer s)"

subsection \<open>What stays true when another thread moves\<close>

lemma producer_ok_append:
  assumes p: "producer_ok k b L T c r p" and xs: "xs \<noteq> []"
  shows "producer_ok k b (L @ xs) T c r p"
proof (cases p)
  case (PHead obj m h)
  then show ?thesis using p by (auto intro: trans_le_add1)
next
  case (PTail obj m h t)
  then obtain j d where j: "j \<le> length L" "h = at b j" "d \<le> c" "t = at b d"
    using p by (auto simp: reads_ok_def)
  then have "j < length (L @ xs)" using xs by (simp add: le_less_trans [of j "length L"])
  then have "reads_ok k b (length (L @ xs)) c h t"
    unfolding reads_ok_def using j by (intro exI [of _ j] exI [of _ d]) simp
  then show ?thesis using PTail p by simp
qed (use p in \<open>auto simp: nth_append\<close>)

lemma producer_ok_consumed:
  assumes p: "producer_ok k b L T c r p" and c: "c \<le> c'"
  shows "producer_ok k b L T c' r p"
proof (cases p)
  case (PTail obj m h t)
  then have "reads_ok k b (length L) c h t" using p by simp
  then obtain j d where "j \<le> length L" "h = at b j" "d \<le> c" "t = at b d"
    "j < length L \<or> length L \<le> d + (2 ^ k - 1)" unfolding reads_ok_def by blast
  then have "reads_ok k b (length L) c' h t"
    unfolding reads_ok_def using c by (intro exI [of _ j] exI [of _ d]) auto
  then show ?thesis using PTail p by simp
qed (use p in auto)

lemma producer_ok_published:
  assumes "producer_ok k b L T c r p" "claim p \<noteq> Some (at b T)"
  shows "producer_ok k b L (Suc T) c r p"
proof -
  have "Suc T \<le> i" if "T \<le> i" "at b i \<noteq> at b T" for i
    using that by (cases "i = T") simp_all
  then show ?thesis using assms by (cases p) auto
qed

lemma producer_ok_slots:
  "producer_ok k b L T c r p \<Longrightarrow>
   (\<And>i. T \<le> i \<Longrightarrow> i < length L \<Longrightarrow> claim p = Some (at b i) \<Longrightarrow> in_slot k b r' i = in_slot k b r i) \<Longrightarrow>
   producer_ok k b L T c r' p"
  by (cases p) auto

lemma producer_ok_claim:
  "producer_ok k b L T c r p \<Longrightarrow> claim p = Some w \<Longrightarrow> \<exists>i. T \<le> i \<and> i < length L \<and> w = at b i"
  by (cases p) auto

lemma consumer_ok_mono:
  "consumer_ok b L T c h p \<Longrightarrow> T \<le> length L \<Longrightarrow> T \<le> T' \<Longrightarrow> consumer_ok b (L @ xs) T' c h p"
  by (cases p) auto

lemma producer_ok_cells:
  "producer_ok k b L T c r p \<Longrightarrow> cells r' = cells r \<Longrightarrow> producer_ok k b L T c r' p"
  by (cases p) (simp_all add: in_slot_def)

subsection \<open>Copies\<close>

lemma copy_in:
  assumes r: "ring_shape k r" and k: "1 < (2 :: nat) ^ k" and obj: "length obj = 2" "elms 2 obj = [x]"
  shows "\<exists>m. enqueue_ptrs r (at b i) obj 8 1 = Inr (r\<lparr>cells := m\<rparr>) \<and> length m = length (cells r) \<and>
    elms 2 m = (elms 2 (cells r))[(b + i) mod 2 ^ k := x]"
proof -
  let ?i = "(b + i) mod 2 ^ k"
  have "enqueue_ptrs r (at b i) obj 8 1 = store r (copy_run 2 (unat (1 :: u32)) (cells r) ?i obj 0)"
    using r k by (intro enqueue_64_run [of k]) (simp_all add: ring_shape_def at_mod)
  moreover have "?i + 1 \<le> length (cells r) div 2" using r by (simp add: ring_shape_def Suc_le_eq)
  then obtain m where "copy_run 2 1 (cells r) ?i obj 0 = Inr m" "length m = length (cells r)"
    "elms 2 m = move 1 (elms 2 (cells r)) ?i (elms 2 obj) 0"
    using copy_run_ok [of 2 ?i 1 "cells r" 0 obj] obj(1) by auto
  ultimately show ?thesis using obj(2) by (intro exI [of _ m]) (simp add: store_def)
qed

lemma copy_out:
  assumes i: "indices_ok k b L T c r" and h: "chead (cons r) = at b c"
    and n: "unat n \<le> length tab div 2" "c + unat n \<le> T"
  shows "\<exists>tab'. dequeue_ptrs r (at b c) tab 8 n = Inr tab' \<and>
    take (unat n) (elms 2 tab') = take (unat n) (drop c L)"
proof -
  let ?r = "r\<lparr>prod := prod r\<lparr>phead := at b T\<rparr>\<rparr>"
  have i': "ring_shape k r" "ptail (prod r) = at b T" "ctail (cons r) = at b c" "c \<le> T" "T \<le> length L"
    "length L \<le> c + (2 ^ k - 1)" "length L < 2 ^ 32" "\<And>j. c \<le> j \<Longrightarrow> j < T \<Longrightarrow> in_slot k b r j = L ! j"
    using i by (auto simp: indices_ok_def)
  have u: "unat (at b T - at b c) = T - c" using i'(4,5,7) by (intro at_diff) simp_all
  have "0 < (2 :: nat) ^ k" by simp
  then have "T - c < 2 ^ k" using i'(4-6) by linarith
  then have inv: "ring_inv k ?r"
    using i' h u by (simp add: ring_inv_def ring_shape_def)
  have used: "ring_used ?r = T - c" using i' h u by (simp add: ring_used_def)
  have objs: "ring_objs ?r = take (T - c) (drop c L)"
  proof (rule nth_equalityI)
    fix j assume "j < length (ring_objs ?r)"
    then have j: "j < T - c" using used by simp
    have k: "k < 32" "length (elms 2 (cells r)) = 2 ^ k" using i'(1) by (simp_all add: ring_shape_def)
    have "ring_objs ?r ! j = elms 2 (cells r) ! ((unat (at b c) + j) mod 2 ^ k)"
      using j k(2) used h by (simp add: ring_objs_def cyc_slice_def)
    also have "(unat (at b c) + j) mod 2 ^ k = (b + (c + j)) mod 2 ^ k"
      using at_mod [OF k(1), of b c] by (metis add.assoc mod_add_left_eq)
    finally show "ring_objs ?r ! j = take (T - c) (drop c L) ! j"
      using i'(8) [of "c + j"] j i'(5) by (simp add: in_slot_def)
  qed (use used i'(4,5) in simp)
  have nn: "unat n \<le> ring_used ?r" using n(2) used i'(4) by simp
  obtain tab' where "dequeue_ptrs ?r (chead (cons ?r)) tab 8 n = Inr tab'"
    "elms 2 tab' = take (unat n) (ring_objs ?r) @ drop (unat n) (elms 2 tab)"
    using dequeue_64_read [OF inv nn n(1)] by blast
  moreover have "dequeue_ptrs ?r (at b c) tab 8 n = dequeue_ptrs r (at b c) tab 8 n"
    by (simp add: dequeue_ptrs_def dequeue_elms_64_def Let_def)
  moreover have "length (ring_objs ?r) \<ge> unat n" using n(2) used by simp
  ultimately show ?thesis using h objs n(2) by (auto simp: min_def)
qed

subsection \<open>Steps of a producer\<close>

lemma claims_keep: "claim p = claim (ps t) \<Longrightarrow> claims_ok b T H (ps(t := p)) \<longleftrightarrow> claims_ok b T H ps"
proof -
  assume "claim p = claim (ps t)"
  then have "claim ((ps(t := p)) u) = claim (ps u)" for u by simp
  then show ?thesis unfolding claims_ok_def by simp
qed

lemma claims_take:
  assumes c: "claims_ok b T H ps" and t: "claim (ps t) = None" "claim p = Some (at b H)"
    and H: "H < 2 ^ 32" and old: "\<And>u w. claim (ps u) = Some w \<Longrightarrow> \<exists>i<H. w = at b i"
  shows "claims_ok b T (Suc H) (ps(t := p))"
proof -
  have new: "claim (ps u) \<noteq> Some (at b H)" for u
    using old [of u "at b H"] at_inj [of b H] H by fastforce
  show ?thesis unfolding claims_ok_def
  proof (intro conjI allI impI)
    fix u v assume uv: "u \<noteq> v" "claim ((ps(t := p)) u) \<noteq> None"
    show "claim ((ps(t := p)) u) \<noteq> claim ((ps(t := p)) v)"
    proof (cases "u = t")
      case True
      then show ?thesis using uv(1) t(2) new [of v] by (simp add: eq_commute)
    next
      case False
      then show ?thesis using uv c t(2) new [of u] by (auto simp: claims_ok_def)
    qed
  next
    fix i assume i: "T \<le> i" "i < Suc H"
    show "\<exists>u. claim ((ps(t := p)) u) = Some (at b i)"
    proof (cases "i = H")
      case True
      then show ?thesis using t(2) by (intro exI [of _ t]) simp
    next
      case False
      then obtain u where u: "claim (ps u) = Some (at b i)" using c i by (auto simp: claims_ok_def)
      then have "u \<noteq> t" using t(1) by auto
      then show ?thesis using u by (intro exI [of _ u]) simp
    qed
  qed
qed

lemma claims_drop:
  assumes c: "claims_ok b T H ps" and t: "claim (ps t) = Some (at b T)" "claim p = None"
    and H: "H < 2 ^ 32"
  shows "claims_ok b (Suc T) H (ps(t := p))"
proof -
  have "\<exists>u. claim ((ps(t := p)) u) = Some (at b i)" if i: "Suc T \<le> i" "i < H" for i
  proof -
    obtain u where u: "claim (ps u) = Some (at b i)" using c i unfolding claims_ok_def by (meson Suc_leD)
    have "at b i \<noteq> at b T" using at_inj [of b i T] i H by auto
    then have "u \<noteq> t" using u t(1) by auto
    then show ?thesis using u by (intro exI [of _ u]) simp
  qed
  moreover have "claim ((ps(t := p)) u) \<noteq> claim ((ps(t := p)) v)"
    if "u \<noteq> v" "claim ((ps(t := p)) u) \<noteq> None" for u v
    using that c t(2) by (cases "u = t"; cases "v = t") (auto simp: claims_ok_def)
  ultimately show ?thesis unfolding claims_ok_def by blast
qed

lemma threads_invD:
  assumes "threads_inv k b L T c s"
  shows "indices_ok k b L T c (shared s)" "producer_ok k b L T c (shared s) (producers s t)"
    "claims_ok b T (length L) (producers s)" "consumer_ok b L T c (chead (cons (shared s))) (consumer s)"
  using assms by (simp_all add: threads_inv_def)

lemma threads_invI:
  assumes "indices_ok k b L T c r" "\<And>u. u \<noteq> t \<Longrightarrow> producer_ok k b L T c r (producers s u)"
    "producer_ok k b L T c r p" "claims_ok b T (length L) ((producers s)(t := p))"
    "consumer_ok b L T c (chead (cons r)) (consumer s)"
  shows "threads_inv k b L T c (s\<lparr>shared := r, producers := (producers s)(t := p)\<rparr>)"
  using assms unfolding threads_inv_def by simp

text \<open>A step that only moves the producer itself.\<close>

lemma inv_local:
  assumes "threads_inv k b L T c s" "producer_ok k b L T c (shared s) p" "claim p = claim (producers s t)"
  shows "threads_inv k b L T c (s\<lparr>producers := (producers s)(t := p)\<rparr>)"
  using assms claims_keep [of p "producers s" t b T "length L"] by (simp add: threads_inv_def)

text \<open>The compare and swap succeeds: the head read is still the head, so the room computed is real.\<close>

lemma free_entries:
  assumes "k < 32" "d \<le> H" "H \<le> d + (2 ^ k - 1)"
  shows "unat (mask k + at b d - at b H) = 2 ^ k - 1 - (H - d)"
proof -
  note p = pow_u32 [OF assms(1)]
  have d: "unat (at b H - at b d) = H - d" using assms p(5) by (intro at_diff) simp_all
  have e: "mask k + at b d - at b H = mask k - (at b H - at b d)" by simp
  have "at b H - at b d \<le> mask k" unfolding word_le_nat_alt d p(2) using assms by linarith
  then show ?thesis unfolding e word_le_nat_alt using d p(2) by (simp only: unat_sub_no_wrap)
qed

lemma reads_ok_head:
  assumes i: "indices_ok k b L T c r" and h: "reads_ok k b (length L) c (phead (prod r)) t"
  shows "\<exists>d\<le>c. t = at b d \<and> length L \<le> d + (2 ^ k - 1) \<and>
    unat (mask k + t - phead (prod r)) = 2 ^ k - 1 - (length L - d)"
proof -
  have r: "ring_shape k r" "phead (prod r) = at b (length L)" "c \<le> T" "T \<le> length L" "length L < 2 ^ 32"
    using i by (simp_all add: indices_ok_def)
  obtain j d where j: "j \<le> length L" "phead (prod r) = at b j" "d \<le> c" "t = at b d"
    "j < length L \<or> length L \<le> d + (2 ^ k - 1)" using h unfolding reads_ok_def by blast
  have "j = length L" using at_inj [of b j "length L"] j(1,2) r(2,5) by simp
  then have l: "length L \<le> d + (2 ^ k - 1)" using j(5) by simp
  have "k < 32" using r(1) by (simp add: ring_shape_def)
  then have "unat (mask k + t - phead (prod r)) = 2 ^ k - 1 - (length L - d)"
    unfolding r(2) j(4) using j(3) r(3,4) l by (intro free_entries) simp_all
  then show ?thesis using j l by blast
qed

lemma inv_take:
  assumes inv: "threads_inv k b L T c s" and p: "claim (producers s t) = None"
    and room: "length L < c + (2 ^ k - 1)" "Suc (length L) < 2 ^ 32"
    and obj: "length obj = 2" "elms 2 obj = [x]"
  shows "threads_inv k b (L @ [x]) T c (s\<lparr>shared := (shared s)\<lparr>prod := prod (shared s)\<lparr>phead := at b (Suc (length L))\<rparr>\<rparr>,
    producers := (producers s)(t := PCopy obj (at b (length L)) 1 (at b (Suc (length L))))\<rparr>)"
    (is "threads_inv k b _ T c (s\<lparr>shared := ?r, producers := _(t := ?p)\<rparr>)")
proof -
  note i = threads_invD [OF inv]
  have ix: "indices_ok k b (L @ [x]) T c ?r"
    using i(1) room by (auto simp: indices_ok_def ring_shape_def in_slot_def nth_append)
  have ps: "producer_ok k b (L @ [x]) T c ?r (producers s u)" for u
    using producer_ok_append [OF i(2), of "[x]" u] by (rule producer_ok_cells) simp_all
  have pt: "producer_ok k b (L @ [x]) T c ?r ?p"
    using i(1) obj by (auto simp: indices_ok_def intro!: exI [of _ "length L"])
  have "claims_ok b T (Suc (length L)) ((producers s)(t := ?p))"
  proof (rule claims_take [OF i(3) p])
    show "length L < 2 ^ 32" using room(2) by simp
    show "\<exists>i<length L. w = at b i" if "claim (producers s u) = Some w" for u w
      using producer_ok_claim [OF i(2) that] by blast
  qed simp
  moreover have "T \<le> length L" using i(1) by (simp add: indices_ok_def)
  then have "consumer_ok b (L @ [x]) T c (chead (cons ?r)) (consumer s)"
    using consumer_ok_mono [OF i(4), of T "[x]"] by simp
  ultimately show ?thesis using ix ps pt by (intro threads_invI) simp_all
qed

text \<open>The object is copied into a slot nobody else writes, and nobody reads before it is published.\<close>

lemma inv_copy:
  assumes inv: "threads_inv k b L T c s" and p: "producers s t = PCopy obj h n nx"
  shows "\<exists>r. enqueue_ptrs (shared s) h obj 8 n = Inr r \<and>
    threads_inv k b L T c (s\<lparr>shared := r, producers := (producers s)(t := PWait h n nx)\<rparr>)"
proof -
  note i = threads_invD [OF inv]
  obtain j where j: "n = 1" "length obj = 2" "T \<le> j" "j < length L" "h = at b j" "nx = at b (Suc j)"
    "elms 2 obj = [L ! j]"
    using i(2) [of t] p by auto
  have ix: "ring_shape k (shared s)" "c \<le> T" "length L \<le> c + (2 ^ k - 1)" "length L < 2 ^ 32"
    "\<And>q. c \<le> q \<Longrightarrow> q < T \<Longrightarrow> in_slot k b (shared s) q = L ! q"
    using i(1) by (simp_all add: indices_ok_def)
  have "1 < (2 :: nat) ^ k" using ix(2,3) j(3,4) by linarith
  then obtain m where m: "enqueue_ptrs (shared s) h obj 8 n = Inr ((shared s)\<lparr>cells := m\<rparr>)"
    "length m = length (cells (shared s))"
    "elms 2 m = (elms 2 (cells (shared s)))[(b + j) mod 2 ^ k := L ! j]"
    using copy_in [OF ix(1) _ j(2,7), of b j] j(1,5) by blast
  let ?r = "(shared s)\<lparr>cells := m\<rparr>"
  have here: "in_slot k b ?r j = L ! j" using ix(1) by (simp add: in_slot_def m(3) ring_shape_def)
  have other: "in_slot k b ?r q = in_slot k b (shared s) q" if q: "c \<le> q" "q < length L" "q \<noteq> j" for q
  proof -
    have "q < j + 2 ^ k" "j < q + 2 ^ k" using q(1,2) j(3,4) ix(2,3) by linarith+
    then have "(b + q) mod 2 ^ k \<noteq> (b + j) mod 2 ^ k" using slot_inj [of b q k j] q(3) by blast
    then show ?thesis by (simp add: in_slot_def m(3))
  qed
  have "producer_ok k b L T c ?r (producers s u)" if u: "u \<noteq> t" for u
  proof (rule producer_ok_slots [OF i(2)])
    fix q assume q: "T \<le> q" "q < length L" "claim (producers s u) = Some (at b q)"
    have "claim (producers s t) = Some (at b j)" using p j(5) by simp
    then have "q \<noteq> j" using i(3) u q(3) unfolding claims_ok_def by force
    then show "in_slot k b ?r q = in_slot k b (shared s) q" using other q ix(2) by simp
  qed
  moreover have "producer_ok k b L T c ?r (PWait h n nx)" using j here by auto
  moreover have "indices_ok k b L T c ?r"
    using i(1) other ix(2,5) m(2) j(3) by (simp add: indices_ok_def ring_shape_def)
  moreover have "claims_ok b T (length L) ((producers s)(t := PWait h n nx))"
    using i(3) p by (simp add: claims_keep)
  ultimately have "threads_inv k b L T c (s\<lparr>shared := ?r, producers := (producers s)(t := PWait h n nx)\<rparr>)"
    using i(4) by (intro threads_invI) simp_all
  then show ?thesis using m(1) by blast
qed

lemma inv_publish:
  assumes inv: "threads_inv k b L T c s" and p: "producers s t = PStore n nx"
  shows "threads_inv k b L (Suc T) c (s\<lparr>shared := (shared s)\<lparr>prod := prod (shared s)\<lparr>ptail := nx\<rparr>\<rparr>,
    producers := (producers s)(t := PIdle)\<rparr>)" (is "threads_inv k b L _ c (s\<lparr>shared := ?r, producers := _\<rparr>)")
proof -
  note i = threads_invD [OF inv]
  have j: "n = 1" "T < length L" "nx = at b (Suc T)" "in_slot k b (shared s) T = L ! T"
    using i(2) [of t] p by auto
  have ct: "claim (producers s t) = Some (at b T)" using p j(1,3) by simp
  have "indices_ok k b L (Suc T) c ?r"
    using i(1) j by (auto simp: indices_ok_def ring_shape_def in_slot_def less_Suc_eq)
  moreover have "producer_ok k b L (Suc T) c ?r (producers s u)" if u: "u \<noteq> t" for u
  proof -
    have "claim (producers s u) \<noteq> Some (at b T)" using i(3) ct u unfolding claims_ok_def by force
    then show ?thesis by (rule producer_ok_published [OF i(2), THEN producer_ok_cells]) simp
  qed
  moreover have "claims_ok b (Suc T) (length L) ((producers s)(t := PIdle))"
    using i(1) by (intro claims_drop [OF i(3) ct]) (simp_all add: indices_ok_def)
  moreover have "consumer_ok b L (Suc T) c (chead (cons ?r)) (consumer s)"
    using consumer_ok_mono [OF i(4), of "Suc T" "[]"] i(1) by (simp add: indices_ok_def)
  ultimately show ?thesis by (intro threads_invI) simp_all
qed

lemma elms_single: "length obj = 2 \<Longrightarrow> elms 2 obj = [obj]"
  by (simp add: elms_def)

text \<open>One turn of a producer never fails, and keeps the invariant if it does not reserve nothing.\<close>

lemma inv_cas:
  assumes inv: "threads_inv k b L T c s" and p: "producers s t = PTail obj m h ct"
  shows "\<exists>e s'. ring_turn cas_value s (Produce t) = Inr (e, s') \<and> delivered e = [] \<and>
    ((\<forall>x\<in>set e. got_room x) \<and> length L + length (reserved e) < 2 ^ 32 \<longrightarrow>
      threads_inv k b (L @ reserved e) T c s')"
proof -
  note i = threads_invD [OF inv]
  have m: "m = 1" "length obj = 2" "reads_ok k b (length L) c h ct" using i(2) [of t] p by simp_all
  show ?thesis
  proof (cases "phead (prod (shared s)) = h")
    case False
    have "threads_inv k b L T c (s\<lparr>producers := (producers s)(t := PStart obj m)\<rparr>)"
      by (rule inv_local [OF inv]) (use m p in simp_all)
    then show ?thesis using p False by (simp add: cas_value_def Let_def)
  next
    case h: True
    obtain d where d: "d \<le> c" "length L \<le> d + (2 ^ k - 1)"
      "unat (mask k + ct - h) = 2 ^ k - 1 - (length L - d)"
      using reads_ok_head [OF i(1), of ct] m(3) h by auto
    have mk: "pmask (prod (shared s)) = mask k" "h = at b (length L)"
      using i(1) h by (simp_all add: indices_ok_def ring_shape_def)
    show ?thesis
    proof (cases "mask k + ct - h = 0")
      case True
      then show ?thesis using p m(1) h mk(1) by (simp add: cas_value_def Let_def)
    next
      case False
      then have n: "\<not> 1 > mask k + ct - h" "0 < unat (mask k + ct - h)"
        by (simp_all add: word_less_1 unat_gt_0)
      have e: "ring_turn cas_value s (Produce t) = Inr ([Reserved t [obj]],
          s\<lparr>shared := (shared s)\<lparr>prod := prod (shared s)\<lparr>phead := at b (Suc (length L))\<rparr>\<rparr>,
            producers := (producers s)(t := PCopy obj (at b (length L)) 1 (at b (Suc (length L))))\<rparr>)"
        using p m(1) h n(1) elms_single [OF m(2)] unfolding ring_turn.simps p producer_step.simps mk(1) Let_def
        by (simp add: cas_value_def mk(2))
      have "length L < c + (2 ^ k - 1)" using n(2) d by linarith
      then show ?thesis
        using inv_take [OF inv, of t obj obj] p m(2) elms_single [OF m(2)] unfolding e by simp
    qed
  qed
qed

lemma producer_turn:
  assumes inv: "threads_inv k b L T c s"
  shows "\<exists>e s'. ring_turn cas_value s (Produce t) = Inr (e, s') \<and> delivered e = [] \<and>
    ((\<forall>x\<in>set e. got_room x) \<and> length L + length (reserved e) < 2 ^ 32 \<longrightarrow>
      (\<exists>T'. threads_inv k b (L @ reserved e) T' c s'))"
proof -
  note i = threads_invD [OF inv]
  have ix: "phead (prod (shared s)) = at b (length L)" "ptail (prod (shared s)) = at b T"
    "ctail (cons (shared s)) = at b c" "T \<le> length L" "length L < 2 ^ 32" "length L \<le> c + (2 ^ k - 1)"
    using i(1) by (simp_all add: indices_ok_def)
  note pt = i(2) [of t]
  show ?thesis
  proof (cases "producers s t")
    case PIdle
    then show ?thesis using inv_local [OF inv, of PIdle t] inv by auto
  next
    case (PStart obj m)
    have "threads_inv k b L T c (s\<lparr>producers := (producers s)(t := PHead obj m (phead (prod (shared s))))\<rparr>)"
      by (rule inv_local [OF inv]) (use PStart pt ix(1) in auto)
    then show ?thesis using PStart by auto
  next
    case (PHead obj m h)
    have "reads_ok k b (length L) c h (at b c)"
      using PHead pt ix(6) unfolding reads_ok_def by auto
    then have "threads_inv k b L T c (s\<lparr>producers := (producers s)(t := PTail obj m h (ctail (cons (shared s))))\<rparr>)"
      by (intro inv_local [OF inv]) (use PHead pt ix(3) in auto)
    then show ?thesis using PHead by auto
  next
    case (PTail obj m h ct)
    then show ?thesis using inv_cas [OF inv, of t] by blast
  next
    case (PCopy obj h n nx)
    then show ?thesis using inv_copy [OF inv PCopy] by auto
  next
    case (PWait h n nx)
    then obtain j where j: "n = 1" "T \<le> j" "j < length L" "h = at b j" "nx = at b (Suc j)"
      "in_slot k b (shared s) j = L ! j" using pt by auto
    let ?p = "if ptail (prod (shared s)) \<noteq> h then PWait h n nx else PStore n nx"
    have "producer_ok k b L T c (shared s) ?p \<and> claim ?p = Some h"
    proof (cases "h = at b T")
      case True
      have "j = T" using at_inj [of b j T] True j ix(4,5) by simp
      then show ?thesis using True j ix(2) by simp
    next
      case False
      then show ?thesis using PWait pt ix(2) by simp
    qed
    moreover have "claim (producers s t) = Some h" by (simp add: PWait)
    ultimately have "producer_ok k b L T c (shared s) ?p" "claim ?p = claim (producers s t)" by metis+
    then have "threads_inv k b L T c (s\<lparr>producers := (producers s)(t := ?p)\<rparr>)" by (rule inv_local [OF inv])
    then show ?thesis using PWait by auto
  next
    case (PStore n nx)
    then show ?thesis using inv_publish [OF inv PStore] by auto
  qed
qed

subsection \<open>Steps of the consumer\<close>

lemma inv_consumer:
  assumes "threads_inv k b L T c s" "consumer_ok b L T c (chead (cons r)) p"
    "cells r = cells (shared s)" "prod r = prod (shared s)"
    "cons r = (cons (shared s))\<lparr>chead := h\<rparr>"
  shows "threads_inv k b L T c (s\<lparr>shared := r, consumer := p\<rparr>)"
proof -
  note i = threads_invD [OF assms(1)]
  have "indices_ok k b L T c r"
    using i(1) assms(3-5) by (simp add: indices_ok_def ring_shape_def in_slot_def)
  moreover have "producer_ok k b L T c r (producers s t)" for t
    by (rule producer_ok_cells [OF i(2)]) (use assms(3) in simp)
  ultimately show ?thesis using i(3) assms(2) by (simp add: threads_inv_def)
qed

lemma inv_release:
  assumes inv: "threads_inv k b L T c s" and p: "consumer s = CTailOut tab n nx"
  shows "threads_inv k b L T (c + unat n) (s\<lparr>shared := (shared s)\<lparr>cons := cons (shared s)\<lparr>ctail := nx\<rparr>\<rparr>,
    consumer := CIdle\<rparr>)"
proof -
  note i = threads_invD [OF inv]
  let ?r = "(shared s)\<lparr>cons := cons (shared s)\<lparr>ctail := nx\<rparr>\<rparr>"
  have j: "chead (cons (shared s)) = nx" "c + unat n \<le> T" "nx = at b (c + unat n)" using i(4) p by simp_all
  have "indices_ok k b L T (c + unat n) ?r"
    using i(1) j by (auto simp: indices_ok_def ring_shape_def in_slot_def)
  moreover have "producer_ok k b L T (c + unat n) ?r (producers s t)" for t
    by (rule producer_ok_consumed [OF i(2), THEN producer_ok_cells]) simp_all
  ultimately show ?thesis using i(3) j by (simp add: threads_inv_def)
qed

lemma consumer_turn:
  assumes inv: "threads_inv k b L T c s"
  shows "\<exists>e s' c'. ring_turn CASra s Consume = Inr (e, s') \<and> reserved e = [] \<and> threads_inv k b L T c' s' \<and>
    c \<le> c' \<and> delivered e = take (c' - c) (drop c L)"
proof -
  note i = threads_invD [OF inv]
  have ix: "ptail (prod (shared s)) = at b T" "c \<le> T" "T \<le> length L" "length L < 2 ^ 32"
    using i(1) by (simp_all add: indices_ok_def)
  note ct = i(4)
  have still: "threads_inv k b L T c (s\<lparr>consumer := p\<rparr>)"
    if "consumer_ok b L T c (chead (cons (shared s))) p" for p
    using inv_consumer [OF inv that, where h = "chead (cons (shared s))"] by simp
  show ?thesis
  proof (cases "consumer s")
    case CIdle
    then show ?thesis using still [of CIdle] ct by (auto intro!: exI [of _ c])
  next
    case (CStart tab n)
    then show ?thesis
      using still [of "if n = 0 then CIdle else CHead tab n (chead (cons (shared s)))"] ct
      by (auto intro!: exI [of _ c])
  next
    case (CHead tab n h)
    have h: "chead (cons (shared s)) = at b c" "h = at b c" "unat n \<le> length tab div 2" using CHead ct by simp_all
    have u: "unat (at b T - at b c) = T - c" using ix by (intro at_diff) simp_all
    show ?thesis
    proof (cases "n > at b T - at b c")
      case True
      then show ?thesis using still [of CIdle] h CHead ix(1) by (auto simp: Let_def intro!: exI [of _ c])
    next
      case False
      then have "c + unat n \<le> T" using u ix(2) by (simp add: word_less_nat_alt)
      then have "threads_inv k b L T c (s\<lparr>consumer := CCopy tab n h\<rparr>)" using h by (intro still) simp
      then show ?thesis using False h CHead ix(1) by (auto simp: Let_def intro!: exI [of _ c])
    qed
  next
    case (CCopy tab n h)
    then have h: "chead (cons (shared s)) = at b c" "h = at b c" "unat n \<le> length tab div 2" "c + unat n \<le> T"
      using ct by simp_all
    obtain tab' where t: "dequeue_ptrs (shared s) (at b c) tab 8 n = Inr tab'"
      "take (unat n) (elms 2 tab') = take (unat n) (drop c L)"
      using copy_out [OF i(1) h(1,3,4)] by blast
    have "threads_inv k b L T c (s\<lparr>consumer := CHeadOut tab' n (h + n)\<rparr>)" using h t(2) by (intro still) simp
    then show ?thesis using CCopy t(1) h(2) by (auto intro!: exI [of _ c])
  next
    case (CHeadOut tab n nx)
    let ?r = "(shared s)\<lparr>cons := cons (shared s)\<lparr>chead := nx\<rparr>\<rparr>"
    have "threads_inv k b L T c (s\<lparr>shared := ?r, consumer := CTailOut tab n nx\<rparr>)"
      using CHeadOut ct by (intro inv_consumer [OF inv]) simp_all
    then show ?thesis using CHeadOut by (auto intro!: exI [of _ c])
  next
    case (CTailOut tab n nx)
    then show ?thesis using inv_release [OF inv CTailOut] ct by (auto intro!: exI [of _ "c + unat n"])
  qed
qed

subsection \<open>Runs\<close>

lemma all_idle_inv:
  assumes "ring_inv k r"
  shows "threads_inv k (unat (chead (cons r))) (ring_objs r) (ring_used r) 0 (all_idle r)"
proof -
  let ?b = "unat (chead (cons r))"
  have u: "ring_used r < 2 ^ k" "k < 32" using ring_free(2) [OF assms] assms by (simp_all add: ring_inv_def)
  have z: "at ?b 0 = chead (cons r)" by (simp add: at_def)
  have t: "at ?b (ring_used r) = ptail (prod r)" by (simp add: at_def ring_used_def)
  have "in_slot k ?b r i = ring_objs r ! i" if "i < ring_used r" for i
    using that ring_inv_mod(1) [OF assms] by (simp add: in_slot_def ring_objs_def cyc_slice_def)
  moreover have "ring_used r \<le> 2 ^ k - 1" using u(1) by linarith
  ultimately have "indices_ok k ?b (ring_objs r) (ring_used r) 0 r"
    using assms u pow_u32(5) [of k] z t by (simp add: indices_ok_def ring_shape_def ring_inv_def)
  then show ?thesis by (simp add: threads_inv_def all_idle_def claims_ok_def z)
qed

lemma turn_inv:
  assumes inv: "threads_inv k b L T c s" and e: "ring_turn cas_value s ch = Inr (e, s')"
    and ok: "\<forall>x\<in>set e. single_call x \<and> got_room x" and L: "length L + length (reserved e) < 2 ^ 32"
  shows "\<exists>T' c'. threads_inv k b (L @ reserved e) T' c' s' \<and> c \<le> c' \<and> c' \<le> length L \<and>
    delivered e = take (c' - c) (drop c L)"
proof -
  have cL: "c \<le> length L" using threads_invD(1) [OF inv] by (simp add: indices_ok_def)
  show ?thesis
  proof (cases ch)
    case (Call t obj n)
    show ?thesis
    proof (cases "producers s t = PIdle")
      case True
      then show ?thesis
        using inv_local [OF inv, of "PStart obj n" t] Call e ok cL by (intro exI [of _ T] exI [of _ c]) auto
    next
      case False
      then have "e = [] \<and> s' = s" using Call e by (auto split: producer.splits)
      then show ?thesis using inv cL by (intro exI [of _ T] exI [of _ c]) auto
    qed
  next
    case (Ask tab n)
    show ?thesis
    proof (cases "consumer s = CIdle")
      case True
      then have "e = [Asked tab n]" "s' = s\<lparr>consumer := CStart tab n\<rparr>" using Ask e by simp_all
      moreover have "threads_inv k b L T c (s\<lparr>consumer := CStart tab n\<rparr>)"
        using inv_consumer [OF inv, of "shared s" "CStart tab n" "chead (cons (shared s))"]
          threads_invD(4) [OF inv] True ok \<open>e = _\<close> by simp
      ultimately show ?thesis using cL by (intro exI [of _ T] exI [of _ c]) auto
    next
      case False
      then have "e = [] \<and> s' = s" using Ask e by (auto split: consumer.splits)
      then show ?thesis using inv cL by (intro exI [of _ T] exI [of _ c]) auto
    qed
  next
    case (Produce t)
    obtain T' where "threads_inv k b (L @ reserved e) T' c s'" "delivered e = []"
      using producer_turn [OF inv, of t] Produce e ok L by auto
    then show ?thesis using cL by (intro exI [of _ T'] exI [of _ c]) simp
  next
    case Consume
    then obtain c' where "threads_inv k b L T c' s'" "reserved e = []" "c \<le> c'" "delivered e = take (c' - c) (drop c L)"
      using consumer_turn [OF inv, of cas_value] e by auto
    moreover from this have "c' \<le> length L" using threads_invD(1) by (fastforce simp: indices_ok_def)
    ultimately show ?thesis by (intro exI [of _ T] exI [of _ c']) simp
  qed
qed

lemma run_inv:
  assumes "ring_runs cas_value (all_idle r) es s" "ring_inv k r" "\<forall>e\<in>set es. single_call e \<and> got_room e"
    "length (ring_objs r) + length (reserved es) < 2 ^ 32"
  shows "\<exists>T c. threads_inv k (unat (chead (cons r))) (ring_objs r @ reserved es) T c s \<and>
    delivered es = take c (ring_objs r @ reserved es)"
  using assms
proof (induction rule: ring_runs.induct)
  case start
  then show ?case using all_idle_inv [OF start(1)] by auto
next
  case (turn es s ch e s')
  let ?L = "ring_objs r @ reserved es"
  obtain T c where inv: "threads_inv k (unat (chead (cons r))) ?L T c s" and d: "delivered es = take c ?L"
    using turn by auto
  obtain T' c' where n: "threads_inv k (unat (chead (cons r))) (?L @ reserved e) T' c' s'" "c \<le> c'"
    "c' \<le> length ?L" "delivered e = take (c' - c) (drop c ?L)"
    using turn_inv [OF inv turn.hyps(2)] turn.prems by auto
  have "delivered (es @ e) = take c ?L @ take (c' - c) (drop c ?L)" by (simp only: delivered_simps d n(4))
  also have "\<dots> = take c' ?L" using n(2) by (simp only: take_add [symmetric] le_add_diff_inverse)
  also have "\<dots> = take c' (?L @ reserved e)" using n(3) by simp
  finally show ?case using n(1) by (intro exI [of _ T'] exI [of _ c']) simp
qed

subsection \<open>A producer that finds the ring full\<close>

text \<open>
  A ring of two slots, and a schedule: producer 1 fills the ring; producer 0 finds it full,
  reserves nothing and is about to store the tail; the consumer takes the object and producer 1
  puts another one; then producer 0 stores the tail it read at the start.
\<close>

definition two_slots :: "nat ring" where
  "two_slots =
     \<lparr>ring_name = ''rx'',
      prod = \<lparr>sp_enqueue = 0, psize = 2, pmask = 1, phead = 0, ptail = 0\<rparr>,
      cons = \<lparr>sc_dequeue = 1, csize = 2, cmask = 1, chead = 0, ctail = 0\<rparr>,
      cells = replicate 4 0\<rparr>"

definition full_race :: "nat choice list" where
  "full_race =
     Call 1 [1, 2] 1 # replicate 6 (Produce 1) @
     Call 0 [3, 4] 1 # replicate 5 (Produce 0) @
     Ask [0, 0] 1 # replicate 5 Consume @
     Call 1 [5, 6] 1 # replicate 6 (Produce 1) @
     [Produce 0]"

definition raced :: "nat ring" where
  "raced = two_slots\<lparr>prod := prod two_slots\<lparr>phead := 2, ptail := 1\<rparr>,
     cons := cons two_slots\<lparr>chead := 1, ctail := 1\<rparr>, cells := [1, 2, 5, 6]\<rparr>"

lemma full_race_run:
  "ring_exec cas_value (all_idle two_slots) full_race = Inr
     ([Called 1 [1, 2] 1, Reserved 1 [[1, 2]], Returned 1 1,
       Called 0 [3, 4] 1, Reserved 0 [],
       Asked [0, 0] 1, Delivered [[1, 2]],
       Called 1 [5, 6] 1, Reserved 1 [[5, 6]], Returned 1 1,
       Returned 0 0], all_idle raced)"
  by (simp add: full_race_def all_idle_def two_slots_def raced_def eval_nat_numeral cas_value_def Let_def
      enqueue_ptrs_def enqueue_elms_64_def dequeue_ptrs_def dequeue_elms_64_def unrolled_run store_def
      copy_elm_def splice_def elms_def wrap_write_def wrap_read_def fun_upd_idem)

text \<open>After it the indices never move again.\<close>

fun hung_producer :: "'w producer \<Rightarrow> bool" where
  "hung_producer (PHead obj m h) \<longleftrightarrow> h = 2"
| "hung_producer (PTail obj m h t) \<longleftrightarrow> h = 2 \<and> t = 1"
| "hung_producer (PCopy obj h n nx) \<longleftrightarrow> h = 2"
| "hung_producer (PWait h n nx) \<longleftrightarrow> h = 2"
| "hung_producer (PStore n nx) \<longleftrightarrow> False"
| "hung_producer _ \<longleftrightarrow> True"

fun hung_consumer :: "'w consumer \<Rightarrow> bool" where
  "hung_consumer CIdle \<longleftrightarrow> True"
| "hung_consumer (CStart tab n) \<longleftrightarrow> True"
| "hung_consumer (CHead tab n h) \<longleftrightarrow> n \<noteq> 0 \<and> h = 1"
| "hung_consumer _ \<longleftrightarrow> False"

definition hung :: "'w threads \<Rightarrow> bool" where
  "hung s \<longleftrightarrow> pmask (prod (shared s)) = 1 \<and> phead (prod (shared s)) = 2 \<and> ptail (prod (shared s)) = 1 \<and>
     chead (cons (shared s)) = 1 \<and> ctail (cons (shared s)) = 1 \<and>
     (\<forall>t. hung_producer (producers s t)) \<and> hung_consumer (consumer s)"

lemma store_indices: "store r m = Inr r' \<Longrightarrow> prod r' = prod r \<and> cons r' = cons r"
  by (auto simp: store_def andThen_Inr_iff)

lemma enqueue_indices: "enqueue_ptrs r h obj z n = Inr r' \<Longrightarrow> prod r' = prod r \<and> cons r' = cons r"
  by (auto simp: enqueue_ptrs_def enqueue_elms_64_def enqueue_elms_128_def enqueue_elms_32_def Let_def
      dest: store_indices split: if_splits)

lemma hung_turn:
  assumes h: "hung s" and e: "ring_turn cas_value s ch = Inr (e, s')"
  shows "hung s' \<and> delivered e = [] \<and> (\<forall>t v. Returned t v \<notin> set e)"
proof (cases ch)
  case (Call t obj n)
  then show ?thesis using h e by (auto simp: hung_def split: producer.splits)
next
  case (Ask tab n)
  then show ?thesis using h e by (auto simp: hung_def split: consumer.splits)
next
  case (Produce t)
  have "hung_producer (producers s t)" using h by (simp add: hung_def)
  then show ?thesis using h e Produce
    by (cases "producers s t")
      (auto simp: hung_def cas_value_def Let_def andThen_Inr_iff word_gt_0 dest: enqueue_indices split: if_splits)
next
  case Consume
  have "hung_consumer (consumer s)" using h by (simp add: hung_def)
  then show ?thesis using h e Consume
    by (cases "consumer s") (auto simp: hung_def Let_def word_gt_0 split: if_splits)
qed

lemma ring_exec_append:
  "ring_exec CASra s (cs @ cs') = andThen (ring_exec CASra s cs) (\<lambda>(es, s).
     andThen (ring_exec CASra s cs') (\<lambda>(es', s). Inr (es @ es', s)))"
proof (induction cs arbitrary: s)
  case Nil
  show ?case by (cases "ring_exec CASra s cs'") auto
next
  case (Cons c cs)
  show ?case
  proof (cases "ring_turn CASra s c")
    case (Inr p)
    show ?thesis
    proof (cases "ring_exec CASra (snd p) cs")
      case r: (Inr q)
      then show ?thesis using Inr Cons.IH [of "snd p"]
        by (cases "ring_exec CASra (snd q) cs'") (auto simp: case_prod_beta)
    qed (use Inr Cons.IH [of "snd p"] in \<open>simp add: case_prod_beta\<close>)
  qed simp
qed

lemma hung_runs:
  "ring_runs cas_value s es s' \<Longrightarrow> hung s \<Longrightarrow> hung s' \<and> delivered es = [] \<and> (\<forall>t v. Returned t v \<notin> set es)"
  by (induction rule: ring_runs.induct) (auto dest: hung_turn)

subsection \<open>Properties\<close>

text \<open>
  C13: The packet ring shared by any number of producers and one consumer, their steps interleaved
  in any order. If every call enqueues one object and no producer's compare and swap reserves
  nothing, then the objects handed out, in order, are the first of those stored at the start and
  those reserved since, in the order of the compare and swaps: none is lost, doubled or
  reordered, however the 32-bit indices wrap. At most \<open>2 ^ k - 1\<close> are in the ring, no
  thread ever leaves the memory of the ring, and while a producer waits for its turn there is one
  whose turn it is. The number of objects is bounded by 2^32, after which an index a producer has
  read may come around.
\<close>

theorem ring_threads_fifo:
  assumes "ring_inv k r" "ring_runs cas_value (all_idle r) es s"
    "\<forall>e\<in>set es. single_call e \<and> got_room e" "length (ring_objs r) + length (reserved es) < 2 ^ 32"
  shows "\<exists>rest. ring_objs r @ reserved es = delivered es @ rest \<and> length rest \<le> 2 ^ k - 1 \<and>
    (\<forall>ch. \<exists>e s'. ring_turn cas_value s ch = Inr (e, s')) \<and>
    ((\<exists>t h n nx. producers s t = PWait h n nx) \<longrightarrow>
      (\<exists>t. claim (producers s t) = Some (ptail (prod (shared s)))))"
proof -
  let ?L = "ring_objs r @ reserved es" let ?b = "unat (chead (cons r))"
  obtain T c where inv: "threads_inv k ?b ?L T c s" and d: "delivered es = take c ?L"
    using run_inv [OF assms(2,1,3,4)] by blast
  have ix: "ptail (prod (shared s)) = at ?b T" "length ?L \<le> c + (2 ^ k - 1)"
    using threads_invD(1) [OF inv] by (simp_all add: indices_ok_def)
  have "\<exists>e s'. ring_turn cas_value s ch = Inr (e, s')" for ch
    using producer_turn [OF inv] consumer_turn [OF inv, of cas_value] by (cases ch) (auto, blast)
  moreover have "\<exists>u. claim (producers s u) = Some (at ?b T)" if "producers s t = PWait h n nx" for t h n nx
  proof -
    have "T < length ?L" using threads_invD(2) [OF inv, of t] that by auto
    then show ?thesis using threads_invD(3) [OF inv] unfolding claims_ok_def by blast
  qed
  moreover have "?L = delivered es @ drop c ?L" unfolding d by (simp only: append_take_drop_id)
  moreover have "length (drop c ?L) \<le> 2 ^ k - 1" using ix(2) by simp
  ultimately show ?thesis unfolding ix(1) by blast
qed

lemma ring_threads_fifo_witness:
  "\<exists>es s rest. ring_exec cas_value (all_idle (four_slots 0 1))
     ([Call 0 [1, 2] 1, Call 1 [3, 4] 1, Produce 0, Produce 0, Produce 1, Produce 1, Produce 1] @
      replicate 6 (Produce 0) @ replicate 3 (Produce 1) @ replicate 2 (Produce 0) @
      Ask [0, 0] 1 # replicate 5 Consume) = Inr (es, s) \<and>
   reserved es = delivered es @ rest \<and> length rest \<le> 3"
proof -
  let ?es = "[Called 0 [1, 2] 1, Called 1 [3, 4] 1, Reserved 1 [[3, 4]], Reserved 0 [[1, 2]],
    Returned 1 1, Returned 0 1, Asked [0, 0] 1, Delivered [[3, 4 :: nat]]]"
  obtain s where s: "ring_exec cas_value (all_idle (four_slots 0 1))
     ([Call 0 [1, 2] 1, Call 1 [3, 4] 1, Produce 0, Produce 0, Produce 1, Produce 1, Produce 1] @
      replicate 6 (Produce 0) @ replicate 3 (Produce 1) @ replicate 2 (Produce 0) @
      Ask [0, 0] 1 # replicate 5 Consume) = Inr (?es, s)"
    by (simp add: all_idle_def four_slots_def cas_value_def Let_def replicate_numeral
      enqueue_ptrs_def enqueue_elms_64_def dequeue_ptrs_def dequeue_elms_64_def unrolled_run store_def
      copy_elm_def splice_def elms_def wrap_write_def wrap_read_def fun_upd_idem)
  then have "ring_runs cas_value (all_idle (four_slots 0 1)) ?es s"
    using ring_exec_runs [OF ring_runs.start] by fastforce
  then show ?thesis
    using ring_threads_fifo [OF four_slots_inv(1), of 0 1 ?es s] s by (fastforce simp: four_slots_inv)
qed

text \<open>
  C14: A producer that finds the ring full breaks it: it reserves nothing, but still waits for
  its turn and then stores the tail it read, and between the two other producers may publish. On a
  ring of two slots the store takes back the object 5, 6 that producer 1 has put and was told is
  stored; whatever the threads do from then on, no object is ever handed out again and no call to
  enqueue ever returns.
\<close>

theorem full_ring_race:
  assumes "ring_exec cas_value (all_idle two_slots) (full_race @ cs) = Inr (es, s)"
  shows "\<exists>es'. es = [Called 1 [1, 2] 1, Reserved 1 [[1, 2]], Returned 1 1,
       Called 0 [3, 4] 1, Reserved 0 [],
       Asked [0, 0] 1, Delivered [[1, 2]],
       Called 1 [5, 6] 1, Reserved 1 [[5, 6]], Returned 1 1,
       Returned 0 0] @ es' \<and> delivered es' = [] \<and> (\<forall>t v. Returned t v \<notin> set es')"
proof -
  obtain es' where e: "ring_exec cas_value (all_idle raced) cs = Inr (es', s)"
    "es = [Called 1 [1, 2] 1, Reserved 1 [[1, 2]], Returned 1 1, Called 0 [3, 4] 1, Reserved 0 [],
       Asked [0, 0] 1, Delivered [[1, 2]], Called 1 [5, 6] 1, Reserved 1 [[5, 6]], Returned 1 1,
       Returned 0 0] @ es'"
    using assms unfolding ring_exec_append full_race_run by (auto simp: andThen_Inr_iff)
  have "ring_runs cas_value (all_idle raced) es' s"
    using ring_exec_runs [OF ring_runs.start e(1)] by simp
  moreover have "hung (all_idle raced)" by (simp add: hung_def all_idle_def raced_def two_slots_def)
  ultimately show ?thesis using hung_runs e(2) by blast
qed

lemma full_ring_race_witness:
  "\<exists>es s. ring_exec cas_value (all_idle two_slots)
     (full_race @ Call 1 [7, 8] 1 # Ask [0, 0] 1 # replicate 9 (Produce 1) @ replicate 5 Consume) = Inr (es, s) \<and>
   delivered es = [[1, 2]]"
proof -
  obtain es s where e: "ring_exec cas_value (all_idle two_slots)
     (full_race @ Call 1 [7, 8] 1 # Ask [0, 0] 1 # replicate 9 (Produce 1) @ replicate 5 Consume) = Inr (es, s)"
    unfolding ring_exec_append full_race_run
    by (simp add: all_idle_def two_slots_def raced_def eval_nat_numeral cas_value_def Let_def
      enqueue_ptrs_def enqueue_elms_64_def unrolled_run store_def fun_upd_idem)
  then show ?thesis using full_ring_race [OF e] by auto
qed

end
