(* ===== verification/Rss.thy ===== *)
theory Rss
  imports Global
begin

text \<open>
  Receive side scaling (\<open>src/rss.c\<close>): the Toeplitz hash a network card uses to choose the queue,
  and so the core, of a packet, recomputed in software. The reference is the definition of the
  hash: the exclusive or of the 32-bit windows of the key at the positions of the set bits of
  the input.
\<close>

definition rss_key :: "u8 list" where
  "rss_key = concat (replicate 20 [0x6D, 0x5A])"

text \<open>The loop of \<open>BuildKeyCache\<close>; \<open>n\<close> is \<open>cache_len - i\<close>.\<close>

fun build_keys :: "u8 list \<Rightarrow> nat \<Rightarrow> nat \<Rightarrow> u32 \<Rightarrow> u32 list" where
  "build_keys key 0 idx result = []"
| "build_keys key (Suc n) idx result =
     (let shift = idx mod 8;
          b = (if push_bit shift (ucast (key ! (idx div 8)) :: u32) AND 0x80 \<noteq> 0 then 1 else 0)
      in result # build_keys key n (Suc idx) (push_bit 1 result OR b))"

definition BuildKeyCache :: "nat \<Rightarrow> u32 list" where
  "BuildKeyCache cache_len =
     (let result = push_bit 24 (ucast (rss_key ! 0)) OR push_bit 16 (ucast (rss_key ! 1)) OR
                   push_bit 8 (ucast (rss_key ! 2)) OR ucast (rss_key ! 3)
      in build_keys rss_key cache_len 32 result)"

text \<open>One of the four loops of \<open>GetRSSHash\<close>: \<open>n\<close> bits of \<open>w\<close>, keys from position \<open>k\<close> on.\<close>

fun xor_keys :: "u32 list \<Rightarrow> nat \<Rightarrow> 'a::len word \<Rightarrow> 'a word \<Rightarrow> nat \<Rightarrow> u32 \<Rightarrow> u32" where
  "xor_keys cache 0 msb_mask w k res = res"
| "xor_keys cache (Suc n) msb_mask w k res =
     xor_keys cache n msb_mask (push_bit 1 w) (Suc k)
       (if w AND msb_mask \<noteq> 0 then res XOR cache ! k else res)"

definition GetRSSHash :: "u32 \<Rightarrow> u32 \<Rightarrow> u16 \<Rightarrow> u16 \<Rightarrow> u32" where
  "GetRSSHash sip dip sp dp =
     (let key_cache = BuildKeyCache 96;
          res = xor_keys key_cache 32 0x80000000 sip 0 0;
          res = xor_keys key_cache 32 0x80000000 dip 32 res;
          res = xor_keys key_cache 16 0x8000 sp 64 res
      in xor_keys key_cache 16 0x8000 dp 80 res)"

definition GetRSSCPUCore :: "u32 \<Rightarrow> u32 \<Rightarrow> u16 \<Rightarrow> u16 \<Rightarrow> int \<Rightarrow> u8 \<Rightarrow> int res" where
  "GetRSSCPUCore sip dip sp dp num_queues endian_check =
     (let masked =
        (if endian_check \<noteq> 0
         then let masked = GetRSSHash sip dip sp dp AND 0x1FF
              in masked + [3, 1, - 1, - 3] ! unat (masked AND 3)
         else GetRSSHash sip dip sp dp AND 0x7F)
      in andThen (c_div masked (word_of_int num_queues)) (\<lambda>_.
         Inr (sint (masked mod word_of_int num_queues))))"

subsection \<open>The hash as a function of the bits of its input\<close>

definition bits_msb :: "'a::len word \<Rightarrow> bool list" where
  "bits_msb w = map (bit w) (rev [0..<LENGTH('a)])"

definition word_of_bits :: "bool list \<Rightarrow> u32" where
  "word_of_bits bs = foldl (\<lambda>w b. push_bit 1 w OR (if b then 1 else 0)) 0 bs"

definition window :: "bool list \<Rightarrow> nat \<Rightarrow> u32" where
  "window key i = word_of_bits (take 32 (drop i key))"

definition toeplitz :: "bool list \<Rightarrow> bool list \<Rightarrow> u32" where
  "toeplitz key input =
     foldl (\<lambda>h i. if input ! i then h XOR window key i else h) 0 [0..<length input]"

definition key_bits :: "u8 list \<Rightarrow> bool list" where
  "key_bits key = concat (map bits_msb key)"

lemma length_bits_msb [simp]: "length (bits_msb (w :: 'a::len word)) = LENGTH('a)"
  by (simp add: bits_msb_def)

lemma bits_msb_nth: "i < LENGTH('a) \<Longrightarrow> bits_msb (w :: 'a::len word) ! i = bit w (LENGTH('a) - Suc i)"
  by (simp add: bits_msb_def rev_nth)

lemma key_bits_nth:
  "i < 8 * length key \<Longrightarrow> key_bits key ! i = bit (key ! (i div 8)) (7 - i mod 8)"
proof (induction key arbitrary: i)
  case (Cons b key)
  show ?case
  proof (cases "i < 8")
    case True
    then show ?thesis by (simp add: key_bits_def nth_append bits_msb_nth)
  next
    case False
    then have "i div 8 = Suc ((i - 8) div 8)" "i mod 8 = (i - 8) mod 8" by (simp_all add: le_div_geq le_mod_geq)
    then show ?thesis using False Cons.IH [of "i - 8"] Cons.prems by (simp add: key_bits_def nth_append)
  qed
qed simp

lemma length_key_bits: "length (key_bits key) = 8 * length key"
  by (induction key) (simp_all add: key_bits_def)

lemma bit_shl_or:
  "bit (push_bit 1 (w :: u32) OR (if b then 1 else 0)) j \<longleftrightarrow> (if j = 0 then b else j < 32 \<and> bit w (j - 1))"
  unfolding bit_or_iff bit_push_bit_iff by (cases j) (auto simp: bit_1_iff dest: bit_imp_le_length)

lemma bit_word_of_bits: "bit (word_of_bits bs) j \<longleftrightarrow> j < 32 \<and> j < length bs \<and> bs ! (length bs - Suc j)"
proof (induction bs arbitrary: j rule: rev_induct)
  case (snoc b bs)
  have w: "word_of_bits (bs @ [b]) = push_bit 1 (word_of_bits bs) OR (if b then 1 else 0)"
    by (simp add: word_of_bits_def)
  show ?case
    unfolding w bit_shl_or by (cases j) (auto simp: snoc nth_append)
qed (simp add: word_of_bits_def)

lemma bit_window:
  "i + 32 \<le> length key \<Longrightarrow> bit (window key i) j \<longleftrightarrow> j < 32 \<and> key ! (i + (31 - j))"
  by (auto simp: window_def bit_word_of_bits)

text \<open>A window moves on by one bit.\<close>

lemma window_Suc:
  assumes "i + 33 \<le> length key"
  shows "window key (Suc i) = push_bit 1 (window key i) OR (if key ! (i + 32) then 1 else 0)"
proof (rule bit_word_eqI)
  fix j assume "j < LENGTH(32)"
  then show "bit (window key (Suc i)) j = bit (push_bit 1 (window key i) OR (if key ! (i + 32) then 1 else 0)) j"
    unfolding bit_shl_or using assms
    by (cases j) (auto simp: bit_window add.commute Suc_diff_Suc intro: back_subst [of "(!) key"])
qed

lemma test_bit:
  assumes "s < 8"
  shows "push_bit s (ucast (b :: u8) :: u32) AND 0x80 \<noteq> 0 \<longleftrightarrow> bit b (7 - s)"
proof -
  have m: "(0x80 :: u32) = 2 ^ 7" by simp
  show ?thesis using assms unfolding m and_exp_eq_0_iff_not_bit by (auto simp: bit_simps)
qed

lemma build_keys_windows:
  "32 + m + n \<le> 8 * length key \<Longrightarrow>
   build_keys key n (32 + m) (window (key_bits key) m) = map (window (key_bits key)) [m..<m + n]"
proof (induction n arbitrary: m)
  case (Suc n)
  let ?b = "if push_bit ((32 + m) mod 8) (ucast (key ! ((32 + m) div 8)) :: u32) AND 0x80 \<noteq> 0 then 1 else 0 :: u32"
  have "key_bits key ! (m + 32) = bit (key ! ((32 + m) div 8)) (7 - (32 + m) mod 8)"
    using Suc.prems by (simp add: key_bits_nth add.commute)
  then have w: "push_bit 1 (window (key_bits key) m) OR ?b = window (key_bits key) (Suc m)"
    using window_Suc [of m "key_bits key"] Suc.prems by (simp add: length_key_bits test_bit)
  have "build_keys key (Suc n) (32 + m) (window (key_bits key) m)
      = window (key_bits key) m # build_keys key n (32 + Suc m) (window (key_bits key) (Suc m))"
    unfolding build_keys.simps Let_def w by simp
  also have "\<dots> = window (key_bits key) m # map (window (key_bits key)) [Suc m..<Suc m + n]"
    using Suc.IH [of "Suc m"] Suc.prems by simp
  also have "\<dots> = map (window (key_bits key)) [m..<m + Suc n]"
    using upt_conv_Cons [of m "m + Suc n"] by simp
  finally show ?case .
qed simp

lemma key_cache: "BuildKeyCache n = map (window (key_bits rss_key)) [0..<n]" if "n \<le> 288"
proof -
  have "window (key_bits rss_key) 0 = push_bit 24 (ucast (rss_key ! 0)) OR push_bit 16 (ucast (rss_key ! 1)) OR
                   push_bit 8 (ucast (rss_key ! 2)) OR ucast (rss_key ! 3)"
    by code_simp
  moreover have "length rss_key = 40" by code_simp
  ultimately show ?thesis
    using build_keys_windows [of 0 n rss_key] that unfolding BuildKeyCache_def Let_def by simp
qed

text \<open>The four loops walk over the bits of the input.\<close>

lemma xor_keys_foldl:
  fixes w :: "'a::len word"
  shows "n \<le> LENGTH('a) \<Longrightarrow> m = 2 ^ (LENGTH('a) - 1) \<Longrightarrow> k + n \<le> length cache \<Longrightarrow>
   xor_keys cache n m w k res =
     foldl (\<lambda>h i. if bits_msb w ! i then h XOR cache ! (k + i) else h) res [0..<n]"
proof (induction n arbitrary: w k res)
  case (Suc n)
  have b0: "w AND m \<noteq> 0 \<longleftrightarrow> bits_msb w ! 0"
    using Suc.prems by (simp add: and_exp_eq_0_iff_not_bit bits_msb_nth)
  have s: "bits_msb (push_bit 1 w) ! i = bits_msb w ! Suc i" if "i < n" for i
  proof -
    have "bits_msb (push_bit 1 w) ! i = bit (push_bit 1 w) (LENGTH('a) - Suc i)"
      using that Suc.prems(1) by (intro bits_msb_nth) simp
    also have "\<dots> = bit w (LENGTH('a) - Suc (Suc i))"
    proof -
      have "1 \<le> LENGTH('a) - Suc i" using that Suc.prems(1) by linarith
      then show ?thesis unfolding bit_push_bit_iff by simp
    qed
    also have "\<dots> = bits_msb w ! Suc i" using that Suc.prems(1) by (simp add: bits_msb_nth)
    finally show ?thesis .
  qed
  have "xor_keys cache (Suc n) m w k res =
      foldl (\<lambda>h i. if bits_msb (push_bit 1 w) ! i then h XOR cache ! (Suc k + i) else h)
        (if bits_msb w ! 0 then res XOR cache ! k else res) [0..<n]"
    using Suc b0 by simp
  also have "\<dots> = foldl (\<lambda>h i. if bits_msb w ! Suc i then h XOR cache ! (k + Suc i) else h)
        (if bits_msb w ! 0 then res XOR cache ! k else res) [0..<n]"
    by (rule foldl_cong) (simp_all add: s [simplified])
  also have "\<dots> = foldl (\<lambda>h i. if bits_msb w ! i then h XOR cache ! (k + i) else h) res (0 # map Suc [0..<n])"
    by (simp add: foldl_map)
  also have "0 # map Suc [0..<n] = [0..<Suc n]" by (simp add: map_Suc_upt upt_conv_Cons del: upt_Suc)
  finally show ?case .
qed simp

definition toeplitz_step :: "bool list \<Rightarrow> bool list \<Rightarrow> u32 \<Rightarrow> nat \<Rightarrow> u32" where
  "toeplitz_step key input h i = (if input ! i then h XOR window key i else h)"

lemma xor_keys_part:
  fixes w :: "'a::len word"
  assumes "m = 2 ^ (LENGTH('a) - 1)" "n = LENGTH('a)" "k = length xs" "e = k + n" "k + n \<le> 96"
    and inp: "inp = xs @ bits_msb w @ ys"
  shows "xor_keys (BuildKeyCache 96) n m w k res = foldl (toeplitz_step (key_bits rss_key) inp) res [k..<e]"
proof -
  have c: "BuildKeyCache 96 ! i = window (key_bits rss_key) i" if "i < 96" for i
    using that by (simp add: key_cache)
  have "xor_keys (BuildKeyCache 96) n m w k res =
      foldl (\<lambda>h i. if bits_msb w ! i then h XOR BuildKeyCache 96 ! (k + i) else h) res [0..<n]"
    using assms by (intro xor_keys_foldl) (simp_all add: key_cache)
  also have "\<dots> = foldl (\<lambda>h i. toeplitz_step (key_bits rss_key) inp h (i + k)) res [0..<n]"
    using assms by (intro foldl_cong) (auto simp: toeplitz_step_def nth_append c add.commute inp)
  also have "\<dots> = foldl (toeplitz_step (key_bits rss_key) inp) res (map (\<lambda>i. i + k) [0..<n])"
    by (simp add: foldl_map)
  also have "map (\<lambda>i. i + k) [0..<n] = [k..<e]" using assms by (simp add: map_add_upt add.commute)
  finally show ?thesis .
qed

lemma toeplitz_foldl: "toeplitz key input = foldl (toeplitz_step key input) 0 [0..<length input]"
  by (simp add: toeplitz_def toeplitz_step_def [abs_def])

lemma rss_hash:
  "GetRSSHash sip dip sp dp =
     toeplitz (key_bits rss_key) (bits_msb sip @ bits_msb dip @ bits_msb sp @ bits_msb dp)"
proof -
  let ?in = "bits_msb sip @ bits_msb dip @ bits_msb sp @ bits_msb dp"
  let ?f = "\<lambda>res a b. foldl (toeplitz_step (key_bits rss_key) ?in) res [a..<b]"
  have p1: "xor_keys (BuildKeyCache 96) 32 0x80000000 sip 0 res = ?f res 0 32" for res
    by (rule xor_keys_part [where xs = "[]" and ys = "bits_msb dip @ bits_msb sp @ bits_msb dp"]) simp_all
  have p2: "xor_keys (BuildKeyCache 96) 32 0x80000000 dip 32 res = ?f res 32 64" for res
    by (rule xor_keys_part [where xs = "bits_msb sip" and ys = "bits_msb sp @ bits_msb dp"]) simp_all
  have p3: "xor_keys (BuildKeyCache 96) 16 0x8000 sp 64 res = ?f res 64 80" for res
    by (rule xor_keys_part [where xs = "bits_msb sip @ bits_msb dip" and ys = "bits_msb dp"]) simp_all
  have p4: "xor_keys (BuildKeyCache 96) 16 0x8000 dp 80 res = ?f res 80 96" for res
    by (rule xor_keys_part [where xs = "bits_msb sip @ bits_msb dip @ bits_msb sp" and ys = "[]"]) simp_all
  have "[0..<96] = [0..<32] @ [32..<64] @ [64..<80] @ [80..<96 :: nat]"
    by code_simp
  then have "?f 0 0 96 = ?f (?f (?f (?f 0 0 32) 32 64) 64 80) 80 96" by (simp only: foldl_append)
  moreover have "length ?in = 96" by simp
  ultimately show ?thesis by (simp only: GetRSSHash_def Let_def p1 p2 p3 p4 toeplitz_foldl)
qed

subsection \<open>Both directions of a connection\<close>

lemma xor_keys_res: "xor_keys cache n m w k res = res XOR xor_keys cache n m w k 0"
proof (induction n arbitrary: w k res)
  case (Suc n)
  show ?case
    using Suc [of "push_bit 1 w" "Suc k" "if w AND m \<noteq> 0 then res XOR cache ! k else res"]
      Suc [of "push_bit 1 w" "Suc k" "if w AND m \<noteq> 0 then 0 XOR cache ! k else 0"]
    unfolding xor_keys.simps by (simp add: xor.assoc split: if_splits)
qed simp

lemma xor_keys_shift:
  "(\<And>i. i < n \<Longrightarrow> cache ! (k + i) = cache ! (l + i)) \<Longrightarrow>
   xor_keys cache n m w k res = xor_keys cache n m w l res"
proof (induction n arbitrary: w k l res)
  case (Suc n)
  have "cache ! k = cache ! l" using Suc.prems [of 0] by simp
  moreover have "xor_keys cache n m (push_bit 1 w) (Suc k) r = xor_keys cache n m (push_bit 1 w) (Suc l) r" for r
    using Suc.prems [of "Suc i" for i] by (intro Suc.IH) simp
  ultimately show ?case unfolding xor_keys.simps by presburger
qed simp

text \<open>The key repeats every 16 bits, and so do its windows.\<close>

lemma key_period:
  assumes "i + 48 \<le> 320"
  shows "window (key_bits rss_key) (i + 16) = window (key_bits rss_key) i"
proof -
  have d: "drop 16 (key_bits rss_key) = take 304 (key_bits rss_key)" by code_simp
  have "take 32 (drop (i + 16) (key_bits rss_key)) = take 32 (drop i (take 304 (key_bits rss_key)))"
    by (simp flip: d)
  also have "\<dots> = take 32 (drop i (key_bits rss_key))"
    using assms by (simp add: drop_take min_absorb1)
  finally show ?thesis by (simp only: window_def)
qed

lemma cache_period: "i + 16 < 96 \<Longrightarrow> BuildKeyCache 96 ! (i + 16) = BuildKeyCache 96 ! i"
  using key_period [of i] by (simp add: key_cache)

lemma rss_swap: "GetRSSHash sip dip sp dp = GetRSSHash dip sip dp sp"
proof -
  let ?c = "BuildKeyCache 96"
  note per = cache_period
  have a: "?c ! (32 + i) = ?c ! (0 + i)" if "i < 32" for i
    using that per [of "i + 16"] per [of i] by (simp add: add.commute)
  have b: "?c ! (80 + i) = ?c ! (64 + i)" if "i < 16" for i
    using that per [of "64 + i"] by (simp add: add.commute)
  have s: "xor_keys ?c 32 m w 32 0 = xor_keys ?c 32 m w 0 0" for m w :: u32
    using a by (intro xor_keys_shift) simp
  have t: "xor_keys ?c 16 m w 80 0 = xor_keys ?c 16 m w 64 0" for m w :: u16
    using b by (intro xor_keys_shift) simp
  have r1: "xor_keys ?c 32 m w 32 res = res XOR xor_keys ?c 32 m w 0 0" for m w :: u32 and res
    using xor_keys_res [of ?c 32 m w 32 res] s by simp
  have r2: "xor_keys ?c 16 m w 64 res = res XOR xor_keys ?c 16 m w 64 0" for m w :: u16 and res
    by (rule xor_keys_res)
  have r3: "xor_keys ?c 16 m w 80 res = res XOR xor_keys ?c 16 m w 64 0" for m w :: u16 and res
    using xor_keys_res [of ?c 16 m w 80 res] t by simp
  have "GetRSSHash x y p q = xor_keys ?c 32 0x80000000 x 0 0 XOR xor_keys ?c 32 0x80000000 y 0 0 XOR
      (xor_keys ?c 16 0x8000 p 64 0 XOR xor_keys ?c 16 0x8000 q 64 0)" for x y p q
    unfolding GetRSSHash_def Let_def
    by (subst r3, subst r2, subst r1) (simp only: xor.assoc)
  then show ?thesis by (simp add: ac_simps)
qed

lemma core_swap: "GetRSSCPUCore sip dip sp dp n e = GetRSSCPUCore dip sip dp sp n e"
  by (simp only: GetRSSCPUCore_def rss_swap [of sip dip sp dp])

subsection \<open>Properties\<close>

text \<open>
  C35: The hash computed with the cache of shifted keys is the Toeplitz hash of the 96 bits of
  source address, destination address, source port and destination port under the 320-bit
  system key: the exclusive or, over the set bits of the input, of the 32 key bits that start
  at the position of the bit.
\<close>

theorem rss_hash_toeplitz:
  "GetRSSHash sip dip sp dp =
     toeplitz (key_bits rss_key) (bits_msb sip @ bits_msb dip @ bits_msb sp @ bits_msb dp)"
  by (rule rss_hash)

lemma masked_small:
  assumes "unat (x :: u32) < 2 ^ 31" "0 < n" "n < 2 ^ 31"
  shows "sint (x mod word_of_int n) = int (unat x) mod n"
proof -
  have n: "unat (word_of_int n :: u32) = nat n"
    using assms(2,3) by (simp add: unsigned_word_eqI unsigned_of_int take_bit_int_eq_self)
  have m: "unat (x mod word_of_int n) = unat x mod nat n" by (simp add: unat_mod n)
  moreover have "unat x mod nat n < 2 ^ 31" using assms(1) by (meson le_less_trans mod_less_eq_dividend)
  ultimately have "sint (x mod word_of_int n) = int (unat x mod nat n)" by (simp only: sint_small)
  also have "\<dots> = int (unat x) mod n" using assms(2) by (simp only: zmod_int int_nat_eq) simp
  finally show ?thesis .
qed

text \<open>The redirection table of the \<open>i40e\<close> cards reverses blocks of four entries.\<close>

lemma i40e_entry:
  assumes "unat (y :: u32) < 512"
  shows "unat (y + [3, 1, - 1, - 3] ! unat (y AND 3)) < 512"
proof -
  have "unat (y AND mask 2) = unat y mod 4" unfolding unat_and_mask by simp
  then have i: "unat (y AND 3) = unat y mod 4" by (simp add: mask_numeral)
  have c: "[3, 1, - 1, - 3 :: u32] ! k = (if k = 0 then 3 else if k = 1 then 1 else if k = 2 then - 1 else - 3)"
    if "k < 4" for k using that by (auto simp: less_Suc_eq numeral_eq_Suc)
  have d: "unat y = 4 * (unat y div 4) + unat y mod 4" by simp
  have l: "unat y div 4 < 128" using assms by (simp add: div_less_iff_less_mult)
  consider "unat y mod 4 = 0" | "unat y mod 4 = 1" | "unat y mod 4 = 2" | "unat y mod 4 = 3" by linarith
  then show ?thesis
  proof cases
    case 1
    then show ?thesis using l d by (simp add: i unat_add_eq)
  next
    case 2
    then show ?thesis using l d by (simp add: i unat_add_eq)
  next
    case 3
    then have "unat (1 :: u32) \<le> unat y" using d by simp
    then show ?thesis using 3 assms by (simp add: i unat_sub_no_wrap)
  next
    case 4
    then have "unat (3 :: u32) \<le> unat y" using d by simp
    then show ?thesis using 4 assms by (simp add: i unat_sub_no_wrap)
  qed
qed

lemma core_range:
  "0 < n \<and> n < 2 ^ 31 \<longrightarrow> (\<exists>c. GetRSSCPUCore sip dip sp dp n e = Inr c \<and> 0 \<le> c \<and> c < n \<and>
     GetRSSCPUCore dip sip dp sp n e = Inr c)"
  "GetRSSCPUCore sip dip sp dp 0 e = Inl DivByZero"
proof -
  let ?h = "GetRSSHash sip dip sp dp"
  let ?m = "if e \<noteq> 0 then (?h AND 0x1FF) + [3, 1, - 1, - 3] ! unat ((?h AND 0x1FF) AND 3) else ?h AND 0x7F"
  have g: "GetRSSCPUCore sip dip sp dp n e =
      andThen (c_div ?m (word_of_int n)) (\<lambda>_. Inr (sint (?m mod word_of_int n)))" for n
    by (simp only: GetRSSCPUCore_def Let_def)
  show "GetRSSCPUCore sip dip sp dp 0 e = Inl DivByZero" by (simp add: g c_div_def)
  show "0 < n \<and> n < 2 ^ 31 \<longrightarrow> (\<exists>c. GetRSSCPUCore sip dip sp dp n e = Inr c \<and> 0 \<le> c \<and> c < n \<and>
     GetRSSCPUCore dip sip dp sp n e = Inr c)"
  proof
    assume n: "0 < n \<and> n < 2 ^ 31"
    have "unat (?h AND mask 9) < 512" "unat (?h AND mask 7) < 128" unfolding unat_and_mask by simp_all
    then have "unat ?m < 512" using i40e_entry [of "?h AND 0x1FF"] by (auto simp: mask_numeral)
    then have "unat ?m < 2 ^ 31" by (rule less_trans) simp
    then have s: "sint (?m mod word_of_int n) = int (unat ?m) mod n" using n by (intro masked_small) simp_all
    have "(word_of_int n :: u32) \<noteq> 0"
      using n by (simp add: word_uint_eq_iff uint_word_of_int)
    then have "GetRSSCPUCore sip dip sp dp n e = Inr (int (unat ?m) mod n)"
      unfolding g s by (simp add: c_div_def)
    then show "\<exists>c. GetRSSCPUCore sip dip sp dp n e = Inr c \<and> 0 \<le> c \<and> c < n \<and>
     GetRSSCPUCore dip sip dp sp n e = Inr c"
      using n core_swap [of sip dip sp dp n e] by (intro exI [of _ "int (unat ?m) mod n"]) simp
  qed
qed

text \<open>
  For a positive number of queues the core chosen for a packet is one of \<open>0..<num_queues\<close>,
  and the packets of both directions of a connection are given to the same core, because the
  key repeats after 16 bits; without queues the call divides by zero.
\<close>

theorem rss_core_range:
  "(0 < n \<and> n < 2 ^ 31 \<longrightarrow> (\<exists>c. GetRSSCPUCore sip dip sp dp n e = Inr c \<and> 0 \<le> c \<and> c < n \<and>
     GetRSSCPUCore dip sip dp sp n e = Inr c)) \<and>
   GetRSSCPUCore sip dip sp dp 0 e = Inl DivByZero"
  by (intro conjI core_range)

lemma rss_core_range_witness:
  "\<exists>c. GetRSSCPUCore 0x0A000001 0x0A000002 1025 80 4 1 = Inr c \<and> c < 4 \<and>
     GetRSSCPUCore 0x0A000002 0x0A000001 80 1025 4 1 = Inr c"
  using rss_core_range [of 4 "0x0A000001" "0x0A000002" 1025 80 1] by auto

end
