(* ===== verification/Addr_Pool.thy ===== *)
theory Addr_Pool
  imports Rss
begin

text \<open>
  The pool of source addresses a core connects from (\<open>src/addr_pool.c\<close>), over a memory of 64-bit
  words, because what the code does depends on where its objects lie. An entry has 24 bytes: a
  pointer, then a \<open>sockaddr_in\<close> of which the first word holds family, port and address and the
  second zeros. \<open>get_list_node\<close> casts an entry to a \<open>list_node_t\<close>, whose two pointers are the
  first two words: the link to the previous node is the word of port and address.
  \<open>free_list\<close> and \<open>used_list\<close> are pointers, the last two words of \<open>addr_pool\<close>, and their
  addresses are what the tail queue functions get as heads; a head has two words, so the second
  word of \<open>&ap->free_list\<close> is the first of \<open>&ap->used_list\<close>, whose second word lies behind
  the structure. The integers of \<open>addr_pool\<close> and its pointers to the two arrays are a record.

  What the allocations return, the memory after them and whether the lock could be initialised
  is a parameter, \<open>alloc\<close>; the lock has no effect on one caller. \<open>INPORT_ANY\<close> and
  \<open>FetchEndianType\<close> are declared nowhere in the repository and are parameters. The layout is that of
  the x86-64 with the mutex (40 bytes) as lock. The number of entries is a mathematical integer: the model
  is the code for at most 33,288 addresses, beyond which the product of line 61 overflows an
  \<open>int\<close>. The file does not compile: \<open>tailq_next\<close> is used with a second argument, \<open>tailq_first\<close>
  on the address of a pointer, and types are mistaken for each other; the model reads the first
  word of what is given and ignores the second argument.
\<close>

subsection \<open>Memory\<close>

text \<open>
  Addresses are those of bytes and multiples of eight; \<open>None\<close> is memory that is not the program's.
  The members of a null pointer to a node or a head are the addresses 0 and 8.
\<close>

type_synonym wmem = "u64 \<Rightarrow> u64 option"

definition load :: "u64 \<Rightarrow> wmem \<Rightarrow> u64 res" where
  "load a m = (if a < 16 then Inl NullDeref else case m a of None \<Rightarrow> Inl OutOfBounds | Some v \<Rightarrow> Inr v)"

definition store :: "u64 \<Rightarrow> u64 \<Rightarrow> wmem \<Rightarrow> wmem res" where
  "store a v m = (if a < 16 then Inl NullDeref else case m a of None \<Rightarrow> Inl OutOfBounds | Some _ \<Rightarrow> Inr (m(a \<mapsto> v)))"

text \<open>The functions of \<open>queue.h\<close> on a head at \<open>h\<close> and a node at \<open>n\<close>.\<close>

definition init_list :: "u64 \<Rightarrow> wmem \<Rightarrow> wmem res" where
  "init_list h m = andThen (store h 0 m) (store (h + 8) h)"

definition append_node :: "u64 \<Rightarrow> u64 \<Rightarrow> wmem \<Rightarrow> wmem res" where
  "append_node h n m =
     andThen (store n 0 m) (\<lambda>m.
     andThen (load (h + 8) m) (\<lambda>l.
     andThen (store (n + 8) l m) (\<lambda>m.
     andThen (load (h + 8) m) (\<lambda>l.
     andThen (store l n m) (\<lambda>m.
     store (h + 8) n m)))))"

definition unlink_node :: "u64 \<Rightarrow> u64 \<Rightarrow> wmem \<Rightarrow> wmem res" where
  "unlink_node h n m =
     andThen (load n m) (\<lambda>nxt.
     andThen (load (n + 8) m) (\<lambda>prv.
     andThen (store (if nxt \<noteq> 0 then nxt + 8 else h + 8) prv m) (\<lambda>m.
     andThen (load (n + 8) m) (\<lambda>prv.
     andThen (load n m) (\<lambda>nxt.
     store prv nxt m)))))"

subsection \<open>Addresses\<close>

record sockaddr_in =
  sin_family :: u16
  sin_port :: u16
  s_addr :: u32
  sin_zero :: u64

text \<open>The first word of a \<open>sockaddr_in\<close>, on a little-endian machine.\<close>

definition port_of :: "u64 \<Rightarrow> u16" where
  "port_of w = ucast (drop_bit 16 w)"

definition addr_of :: "u64 \<Rightarrow> u32" where
  "addr_of w = ucast (drop_bit 32 w)"

definition set_port :: "u64 \<Rightarrow> u16 \<Rightarrow> wmem \<Rightarrow> wmem res" where
  "set_port a p m =
     andThen (load a m) (\<lambda>w. store a ((w AND 0xFFFFFFFF0000FFFF) OR push_bit 16 (ucast p)) m)"

definition set_addr :: "u64 \<Rightarrow> u32 \<Rightarrow> wmem \<Rightarrow> wmem res" where
  "set_addr a s m =
     andThen (load a m) (\<lambda>w. store a ((w AND 0xFFFFFFFF) OR push_bit 32 (ucast s)) m)"

definition get_sockaddr :: "u64 \<Rightarrow> wmem \<Rightarrow> sockaddr_in res" where
  "get_sockaddr a m =
     andThen (load a m) (\<lambda>w.
     andThen (load (a + 8) m) (\<lambda>z.
     Inr \<lparr>sin_family = ucast w, sin_port = port_of w, s_addr = addr_of w, sin_zero = z\<rparr>))"

subsection \<open>Creating a pool\<close>

record addr_pool =
  ap_at :: u64
  ap_pool :: u64
  ap_mapper :: u64
  addr_base :: u32
  num_addr :: int
  num_entry :: int
  num_free :: int
  num_used :: int

definition MIN_PORT :: nat where "MIN_PORT = 1025"
definition MAX_PORT :: nat where "MAX_PORT = 65536"

definition free_list :: "addr_pool \<Rightarrow> u64" where
  "free_list ap = ap_at ap + 80"

definition used_list :: "addr_pool \<Rightarrow> u64" where
  "used_list ap = ap_at ap + 88"

record alloc =
  at_ap :: u64
  at_pool :: u64
  at_mapper :: u64
  lock_fails :: bool
  heap :: wmem

definition fresh_pool :: "alloc \<Rightarrow> u32 \<Rightarrow> nat \<Rightarrow> addr_pool" where
  "fresh_pool al base n =
     \<lparr>ap_at = at_ap al, ap_pool = at_pool al, ap_mapper = at_mapper al, addr_base = ntohl base,
      num_addr = int n, num_entry = 0, num_free = 0, num_used = 0\<rparr>"

text \<open>The allocations, the lists and the lock, the same in both functions.\<close>

definition with_pool ::
  "alloc \<Rightarrow> u32 \<Rightarrow> nat \<Rightarrow> (addr_pool \<Rightarrow> wmem \<Rightarrow> (nat \<times> wmem) res) \<Rightarrow> (addr_pool \<times> wmem) option res" where
  "with_pool al base n loops =
     (if at_pool al = 0 then Inr None
      else if at_mapper al = 0 then Inr None
      else let ap = fresh_pool al base n in
        andThen (init_list (free_list ap) (heap al)) (\<lambda>m.
        andThen (init_list (used_list ap) m) (\<lambda>m.
        if lock_fails al then Inr None
        else andThen (loops ap m) (\<lambda>(cnt, m).
             Inr (Some (ap\<lparr>num_entry := int cnt, num_free := int cnt, num_used := 0\<rparr>, m))))))"

text \<open>What both loops do with an address and a port.\<close>

definition store_entry :: "addr_pool \<Rightarrow> nat \<Rightarrow> nat \<Rightarrow> nat \<Rightarrow> wmem \<Rightarrow> wmem res" where
  "store_entry ap i j cnt m =
     (let e = ap_pool ap + 24 * word_of_nat cnt in
      andThen (set_addr (e + 8) (htonl (addr_base ap + word_of_nat i)) m) (\<lambda>m.
      andThen (set_port (e + 8) (htons (word_of_nat j)) m) (\<lambda>m.
      andThen (store (ap_mapper ap + 8 * word_of_nat (MAX_PORT * i + j)) e m) (\<lambda>m.
      append_node (free_list ap) e m))))"

fun create_ports :: "nat \<Rightarrow> addr_pool \<Rightarrow> nat \<Rightarrow> nat list \<Rightarrow> nat \<times> wmem \<Rightarrow> (nat \<times> wmem) res" where
  "create_ports entries ap i [] st = Inr st"
| "create_ports entries ap i (j # js) (cnt, m) =
     andThen (store_entry ap i j cnt m) (\<lambda>m.
     if Suc cnt \<ge> entries then Inr (Suc cnt, m) else create_ports entries ap i js (Suc cnt, m))"

fun create_addrs :: "nat \<Rightarrow> addr_pool \<Rightarrow> nat list \<Rightarrow> nat \<times> wmem \<Rightarrow> (nat \<times> wmem) res" where
  "create_addrs entries ap [] st = Inr st"
| "create_addrs entries ap (i # is) st =
     andThen (create_ports entries ap i [MIN_PORT..<MAX_PORT] st) (create_addrs entries ap is)"

definition create_address_pool :: "alloc \<Rightarrow> u32 \<Rightarrow> nat \<Rightarrow> (addr_pool \<times> wmem) option res" where
  "create_address_pool al base n =
     (if at_ap al = 0 then Inr None
      else let entries = n * (MAX_PORT - MIN_PORT)
        in with_pool al base n (\<lambda>ap m. create_addrs entries ap [0..<n] (0, m)))"

text \<open>Only the ports whose packets the network card gives to this core.\<close>

fun core_ports ::
  "nat \<Rightarrow> (nat \<Rightarrow> nat \<Rightarrow> int res) \<Rightarrow> int \<Rightarrow> addr_pool \<Rightarrow> nat \<Rightarrow> nat list \<Rightarrow> nat \<times> wmem \<Rightarrow> (nat \<times> wmem) res" where
  "core_ports entries rss core ap i [] st = Inr st"
| "core_ports entries rss core ap i (j # js) (cnt, m) =
     (if cnt \<ge> entries then Inr (cnt, m)
      else andThen (rss i j) (\<lambda>rss_core.
           if rss_core \<noteq> core then core_ports entries rss core ap i js (cnt, m)
           else andThen (store_entry ap i j cnt m) (\<lambda>m. core_ports entries rss core ap i js (Suc cnt, m))))"

fun core_addrs ::
  "nat \<Rightarrow> (nat \<Rightarrow> nat \<Rightarrow> int res) \<Rightarrow> int \<Rightarrow> addr_pool \<Rightarrow> nat list \<Rightarrow> nat \<times> wmem \<Rightarrow> (nat \<times> wmem) res" where
  "core_addrs entries rss core ap [] st = Inr st"
| "core_addrs entries rss core ap (i # is) st =
     andThen (core_ports entries rss core ap i [MIN_PORT..<MAX_PORT] st) (core_addrs entries rss core ap is)"

definition create_address_pool_per_core ::
  "alloc \<Rightarrow> u8 \<Rightarrow> int \<Rightarrow> nat \<Rightarrow> u32 \<Rightarrow> nat \<Rightarrow> u32 \<Rightarrow> u16 \<Rightarrow> (addr_pool \<times> wmem) option res" where
  "create_address_pool_per_core al endian_check core num_queues saddr_base n daddr dport =
     (if at_ap al = 0 then Inr None
      else if num_queues = 0 then Inl DivByZero
      else let entries = n * (MAX_PORT - MIN_PORT) div num_queues;
               daddr_h = ntohl daddr;
               dport_h = ntohs dport
        in with_pool al saddr_base n (\<lambda>ap m.
             core_addrs entries (\<lambda>i j. GetRSSCPUCore daddr_h (addr_base ap + word_of_nat i) dport_h (word_of_nat j)
               (int num_queues) endian_check) core ap [0..<n] (0, m)))"

subsection \<open>Lending and taking back\<close>

text \<open>The result of the search is a pointer, null if there is none. The list may be a cycle.\<close>

partial_function (option) find_entry ::
  "u16 \<Rightarrow> wmem \<Rightarrow> int \<Rightarrow> int \<Rightarrow> u8 \<Rightarrow> sockaddr_in \<Rightarrow> sockaddr_in \<Rightarrow> u64 \<Rightarrow> u64 res option" where
  "find_entry INPORT_ANY m core num_queues endian daddr saddr walk =
     (if walk = 0 then Some (Inr 0)
      else case load walk m of Inl e \<Rightarrow> Some (Inl e) | Inr nxt \<Rightarrow>
      (case load (walk + 8) m of Inl e \<Rightarrow> Some (Inl e) | Inr w \<Rightarrow>
       if s_addr saddr \<noteq> 0 \<and> addr_of w \<noteq> s_addr saddr
       then find_entry INPORT_ANY m core num_queues endian daddr saddr nxt
       else if sin_port saddr \<noteq> INPORT_ANY \<and> port_of w \<noteq> sin_port saddr
       then find_entry INPORT_ANY m core num_queues endian daddr saddr nxt
       else case GetRSSCPUCore (ntohl (addr_of w)) (ntohl (s_addr daddr)) (ntohs (port_of w))
                    (ntohs (sin_port daddr)) num_queues endian of
              Inl e \<Rightarrow> Some (Inl e)
            | Inr rss_core \<Rightarrow>
                if core = rss_core then Some (Inr walk)
                else find_entry INPORT_ANY m core num_queues endian daddr saddr nxt))"

text \<open>The entry is copied to \<open>*saddr\<close>, taken off the free list and put on the used list.\<close>

definition lend :: "addr_pool \<Rightarrow> u64 \<Rightarrow> wmem \<Rightarrow> (sockaddr_in \<times> addr_pool \<times> wmem) res" where
  "lend ap walk m =
     andThen (get_sockaddr (walk + 8) m) (\<lambda>a.
     andThen (unlink_node (free_list ap) walk m) (\<lambda>m.
     andThen (append_node (used_list ap) walk m) (\<lambda>m.
     Inr (a, ap\<lparr>num_free := num_free ap - 1, num_used := num_used ap + 1\<rparr>, m))))"

text \<open>The results are the return value, \<open>*saddr\<close>, the pool and the memory; a pointer may be null.\<close>

definition fetch_address ::
  "u16 \<Rightarrow> u8 \<Rightarrow> addr_pool option \<Rightarrow> int \<Rightarrow> int \<Rightarrow> sockaddr_in option \<Rightarrow> sockaddr_in option \<Rightarrow> wmem \<Rightarrow>
    (int \<times> sockaddr_in option \<times> addr_pool option \<times> wmem) res" where
  "fetch_address INPORT_ANY endian ap core num_queues daddr saddr m =
     (case (ap, daddr, saddr) of
        (Some p, Some d, Some s) \<Rightarrow>
          andThen (load (free_list p) m) (\<lambda>first.
          andThen (with_fuel (find_entry INPORT_ANY m core num_queues endian d s first)) (\<lambda>walk.
          if walk = 0 then Inr (- 1, saddr, ap, m)
          else andThen (lend p walk m) (\<lambda>(a, p, m). Inr (0, Some a, Some p, m))))
      | _ \<Rightarrow> Inr (- 1, saddr, ap, m))"

definition fetch_address_per_core ::
  "addr_pool option \<Rightarrow> sockaddr_in option \<Rightarrow> sockaddr_in option \<Rightarrow> wmem \<Rightarrow>
    (int \<times> sockaddr_in option \<times> addr_pool option \<times> wmem) res" where
  "fetch_address_per_core ap daddr saddr m =
     (case (ap, daddr, saddr) of
        (Some p, Some d, Some s) \<Rightarrow>
          andThen (load (free_list p) m) (\<lambda>walk.
          if walk = 0 then Inr (- 1, saddr, ap, m)
          else andThen (lend p walk m) (\<lambda>(a, p, m). Inr (0, Some a, Some p, m)))
      | _ \<Rightarrow> Inr (- 1, saddr, ap, m))"

text \<open>
  Without a map the used list is searched, but \<open>walk_value\<close> is set before the loop only, so every
  round compares with the first entry.
\<close>

partial_function (option) used_walk :: "wmem \<Rightarrow> sockaddr_in \<Rightarrow> u64 \<Rightarrow> u64 \<Rightarrow> u64 res option" where
  "used_walk m addr walk_value walk =
     (if walk = 0 then Some (Inr 0)
      else case load walk m of Inl e \<Rightarrow> Some (Inl e) | Inr nxt \<Rightarrow>
      (case load (walk_value + 8) m of Inl e \<Rightarrow> Some (Inl e) | Inr w \<Rightarrow>
       if sin_port addr = port_of w \<and> s_addr addr = addr_of w then Some (Inr walk)
       else used_walk m addr walk_value nxt))"

text \<open>
  The map names an entry whether it is lent or not, and the entry is taken out of whatever list it
  is in.
\<close>

definition free_address ::
  "addr_pool option \<Rightarrow> sockaddr_in option \<Rightarrow> wmem \<Rightarrow> (int \<times> addr_pool option \<times> wmem) res" where
  "free_address ap addr m =
     (case (ap, addr) of
        (Some p, Some a) \<Rightarrow>
          andThen
            (if ap_mapper p \<noteq> 0 then
               (let addr_h = ntohl (s_addr a);
                    port_h = ntohs (sin_port a);
                    index = sint (addr_h - addr_base p)
                in if 0 \<le> index \<and> index < num_addr p
                   then load (ap_mapper p + 8 * (of_nat MAX_PORT * ucast (addr_h - addr_base p) + ucast port_h)) m
                   else Inr 0)
             else andThen (load (used_list p) m) (\<lambda>walk. with_fuel (used_walk m a walk walk)))
            (\<lambda>walk.
             if walk = 0 then Inr (- 1, ap, m)
             else andThen (unlink_node (used_list p) walk m) (\<lambda>m.
                  andThen (append_node (free_list p) walk m) (\<lambda>m.
                  Inr (0, Some (p\<lparr>num_free := num_free p + 1, num_used := num_used p - 1\<rparr>), m))))
      | _ \<Rightarrow> Inr (- 1, ap, m))"

text \<open>The two arrays and the structure are given back to the allocator, if there is a pool.\<close>

definition destroy_address_pool :: "addr_pool option \<Rightarrow> u64 list" where
  "destroy_address_pool ap =
     (case ap of None \<Rightarrow> []
      | Some p \<Rightarrow> (if ap_pool p \<noteq> 0 then [ap_pool p] else []) @
                  (if ap_mapper p \<noteq> 0 then [ap_mapper p] else []) @ [ap_at p])"

subsection \<open>Reading and writing words\<close>

lemma load_Inr: "load a m = Inr v \<longleftrightarrow> 16 \<le> a \<and> m a = Some v"
  by (auto simp: load_def split: option.splits)

lemma store_Inr: "store a v m = Inr m' \<longleftrightarrow> 16 \<le> a \<and> m a \<noteq> None \<and> m' = m(a \<mapsto> v)"
  by (auto simp: store_def split: option.splits)

lemma next_word [simp]: "(a :: u64) + 8 \<noteq> a" "a \<noteq> a + 8" "a + 16 \<noteq> a" "a + 16 \<noteq> a + 8" "a + 8 \<noteq> a + 16"
  by simp_all

lemma init_list_Inr:
  "init_list h m = Inr m' \<longleftrightarrow> 16 \<le> h \<and> 16 \<le> h + 8 \<and> m h \<noteq> None \<and> m (h + 8) \<noteq> None \<and> m' = m(h \<mapsto> 0, h + 8 \<mapsto> h)"
  by (auto simp: init_list_def andThen_Inr_iff store_Inr)

lemma get_sockaddr_Inr:
  "get_sockaddr p m = Inr a \<Longrightarrow> m p = Some w \<Longrightarrow> s_addr a = addr_of w \<and> sin_port a = port_of w"
  by (auto simp: get_sockaddr_def andThen_Inr_iff load_Inr)

lemma linked_word:
  assumes a: "append_node h n m = Inr m'" and d: "h + 8 \<noteq> n" "h \<noteq> n" and t: "m (h + 8) = Some l" "l \<noteq> n + 8"
  shows "m' (n + 8) = Some l"
proof -
  have h: "h + 8 \<noteq> n + 8" using d(2) by simp
  show ?thesis
    using a d t h by (auto simp: append_node_def andThen_Inr_iff load_Inr store_Inr)
qed

text \<open>
  Linking an entry writes the pointer to the previous link over its family, port and address:
  whatever was stored there, what \<open>fetch_address\<close> reads afterwards are bytes of that pointer.
\<close>

theorem linked_entry_loses_address:
  assumes "append_node h n m = Inr m'" "h + 8 \<noteq> n" "h \<noteq> n" "m (h + 8) = Some l" "l \<noteq> n + 8"
    and "get_sockaddr (n + 8) m' = Inr a"
  shows "s_addr a = addr_of l \<and> sin_port a = port_of l"
  using get_sockaddr_Inr [OF assms(6) linked_word [OF assms(1-5)]] .

subsection \<open>No pool with an entry is ever created\<close>

text \<open>
  What \<open>calloc\<close> promises of the three blocks: they are zero, apart from each other, and none lies
  at the lowest addresses or wraps around.
\<close>

definition block :: "u64 \<Rightarrow> nat \<Rightarrow> u64 set" where
  "block a n = (\<lambda>k. a + 8 * word_of_nat k) ` {..<n}"

definition calloced :: "alloc \<Rightarrow> nat \<Rightarrow> nat \<Rightarrow> bool" where
  "calloced al entries n \<longleftrightarrow>
     (\<forall>a \<in> block (at_ap al) 12 \<union> block (at_pool al) (3 * entries) \<union> block (at_mapper al) (n * MAX_PORT).
        16 \<le> a \<and> heap al a = Some 0) \<and>
     at_ap al \<le> at_ap al + 96 \<and>
     block (at_ap al) 12 \<inter> block (at_pool al) (3 * entries) = {} \<and>
     block (at_ap al) 12 \<inter> block (at_mapper al) (n * MAX_PORT) = {} \<and>
     block (at_pool al) (3 * entries) \<inter> block (at_mapper al) (n * MAX_PORT) = {}"

lemma in_block: "k < n \<Longrightarrow> b = a + 8 * word_of_nat k \<Longrightarrow> b \<in> block a n"
  by (auto simp: block_def)

lemma struct_words: "at_ap al + 80 \<in> block (at_ap al) 12" "at_ap al + 88 \<in> block (at_ap al) 12"
  by (rule in_block [of 10], simp_all) (rule in_block [of 11], simp_all)

lemma entry_words:
  "cnt < entries \<Longrightarrow> p + 24 * word_of_nat cnt \<in> block p (3 * entries) \<and>
     p + 24 * word_of_nat cnt + 8 \<in> block p (3 * entries)"
  by (intro conjI in_block [of "3 * cnt"] in_block [of "3 * cnt + 1"]) (simp_all add: algebra_simps)

lemma map_word:
  assumes "i < n" "j < MAX_PORT"
  shows "q + 8 * word_of_nat (MAX_PORT * i + j) \<in> block q (n * MAX_PORT)"
proof (rule in_block [OF _ refl])
  have "MAX_PORT * i + j < MAX_PORT * Suc i" using assms(2) by simp
  also have "\<dots> \<le> MAX_PORT * n" using assms(1) by (intro mult_le_mono2) simp
  finally show "MAX_PORT * i + j < n * MAX_PORT" by (simp only: mult.commute)
qed

text \<open>The lists after both initialisations: the tail of the free list is the null first of the used list.\<close>

definition lists_mem :: "alloc \<Rightarrow> wmem" where
  "lists_mem al = (heap al)(at_ap al + 80 \<mapsto> 0, at_ap al + 88 \<mapsto> at_ap al + 80,
     at_ap al + 88 \<mapsto> 0, at_ap al + 96 \<mapsto> at_ap al + 88)"

lemma init_lists:
  assumes c: "calloced al entries n"
  shows "andThen (init_list (at_ap al + 80) (heap al)) (\<lambda>m. andThen (init_list (at_ap al + 88) m) k) =
     (if heap al (at_ap al + 96) = None then Inl OutOfBounds
      else k (lists_mem al))"
proof -
  have a: "16 \<le> at_ap al" using c in_block [of 0 12 "at_ap al" "at_ap al"] by (auto simp: calloced_def)
  have w: "16 \<le> at_ap al + 80" "16 \<le> at_ap al + 88" "heap al (at_ap al + 80) = Some 0" "heap al (at_ap al + 88) = Some 0"
    using c struct_words [of al] by (auto simp: calloced_def)
  have e: "16 \<le> at_ap al + 96" using c a by (auto simp: calloced_def)
  then have "\<not> at_ap al + 80 < 16" "\<not> at_ap al + 88 < 16" "\<not> at_ap al + 96 < 16" using w by (simp_all add: not_less)
  then show ?thesis using w
    by (auto simp: init_list_def store_def lists_mem_def add.assoc split: option.splits)
qed

text \<open>The first entry that is linked dereferences the tail of the free list, a null pointer.\<close>

lemma append_null_tail:
  assumes "16 \<le> n" "16 \<le> n + 8" "16 \<le> h + 8" "m n \<noteq> None" "m (n + 8) \<noteq> None" "m (h + 8) = Some 0" "h + 8 \<noteq> n" "h \<noteq> n"
  shows "append_node h n m = Inl NullDeref"
proof -
  have "\<not> n < 16" "\<not> n + 8 < 16" "\<not> h + 8 < 16" using assms(1-3) by (simp_all add: not_less)
  then show ?thesis using assms(4-) by (auto simp: append_node_def load_def store_def)
qed

lemma set_word_mapped:
  "16 \<le> a \<Longrightarrow> m a \<noteq> None \<Longrightarrow> \<exists>v. set_addr a s m = Inr (m(a \<mapsto> v))"
  "16 \<le> a \<Longrightarrow> m a \<noteq> None \<Longrightarrow> \<exists>v. set_port a p m = Inr (m(a \<mapsto> v))"
  by (auto simp: set_addr_def set_port_def load_def store_def not_less)

lemma lists_mem_words:
  "lists_mem al (at_ap al + 88) = Some 0" "heap al a \<noteq> None \<Longrightarrow> lists_mem al a \<noteq> None"
  by (simp_all add: lists_mem_def)

lemma first_link:
  assumes c: "calloced al entries n" and ap: "ap_at ap = at_ap al" "ap_pool ap = at_pool al" "ap_mapper ap = at_mapper al"
    and b: "cnt < entries" "i < n" "j < MAX_PORT" and l: "m = lists_mem al"
  shows "store_entry ap i j cnt m = Inl NullDeref"
proof -
  define e where "e = at_pool al + 24 * word_of_nat cnt"
  define q where "q = at_mapper al + 8 * word_of_nat (MAX_PORT * i + j)"
  have e: "e \<in> block (at_pool al) (3 * entries)" "e + 8 \<in> block (at_pool al) (3 * entries)"
    using entry_words [OF b(1), of "at_pool al"] by (simp_all add: e_def)
  have q: "q \<in> block (at_mapper al) (n * MAX_PORT)" unfolding q_def by (rule map_word [OF b(2,3)])
  have z: "16 \<le> a \<and> heap al a = Some 0" if "a \<in> {at_ap al + 80, at_ap al + 88, e, e + 8, q}" for a
    using c that e q struct_words [of al] unfolding calloced_def by blast
  have ne: "x \<noteq> y"
    if "x \<in> block (at_pool al) (3 * entries) \<union> block (at_mapper al) (n * MAX_PORT)" "y \<in> block (at_ap al) 12" for x y
    using c that unfolding calloced_def by blast
  have d: "e \<noteq> at_ap al + 80" "e \<noteq> at_ap al + 88" "e + 8 \<noteq> at_ap al + 88" "q \<noteq> at_ap al + 88"
    by (rule ne, simp add: e q, rule struct_words)+
  have h: "heap al e = Some 0" "heap al (e + 8) = Some 0" "heap al q = Some 0"
    "16 \<le> e" "16 \<le> e + 8" "16 \<le> q" "16 \<le> at_ap al + 88"
    using z by blast+
  have m: "m (at_ap al + 88) = Some 0" "m e \<noteq> None" "m (e + 8) \<noteq> None" "m q \<noteq> None"
    unfolding l using lists_mem_words h(1-3) by force+
  obtain v where v: "set_addr (e + 8) (htonl (addr_base ap + word_of_nat i)) m = Inr (m(e + 8 \<mapsto> v))"
    using set_word_mapped(1) [of "e + 8" m, OF h(5) m(3)] by blast
  obtain v' where v': "set_port (e + 8) (htons (word_of_nat j)) (m(e + 8 \<mapsto> v)) = Inr (m(e + 8 \<mapsto> v'))"
    using set_word_mapped(2) [OF h(5), of "m(e + 8 \<mapsto> v)"] by fastforce
  have s: "store q e (m(e + 8 \<mapsto> v')) = Inr (m(e + 8 \<mapsto> v', q \<mapsto> e))"
    unfolding store_Inr using h(6) m(4) by fastforce
  have "append_node (at_ap al + 80) e (m(e + 8 \<mapsto> v', q \<mapsto> e)) = Inl NullDeref"
    using d m by (intro append_null_tail [OF h(4,5)]) (simp_all add: add.assoc h(7))
  then show ?thesis
    unfolding store_entry_def Let_def ap free_list_def e_def [symmetric] q_def [symmetric] v
    by (simp add: v' s)
qed

lemma with_pool_calloced:
  assumes c: "calloced al entries n" and nz: "at_pool al \<noteq> 0" "at_mapper al \<noteq> 0"
  shows "with_pool al base n loops =
     (if heap al (at_ap al + 96) = None then Inl OutOfBounds
      else if lock_fails al then Inr None
      else andThen (loops (fresh_pool al base n) (lists_mem al)) (\<lambda>(cnt, m).
        Inr (Some ((fresh_pool al base n)\<lparr>num_entry := int cnt, num_free := int cnt, num_used := 0\<rparr>, m))))"
proof -
  have l: "free_list (fresh_pool al base n) = at_ap al + 80" "used_list (fresh_pool al base n) = at_ap al + 88"
    by (simp_all add: free_list_def used_list_def fresh_pool_def)
  show ?thesis unfolding with_pool_def Let_def l init_lists [OF c] using nz by simp
qed

text \<open>
  C15: Once the three blocks are there, creating a pool of at least one address never returns it: the
  initialisation of the second list writes behind the structure, because the list heads are the
  addresses of two adjacent pointers; and if that word may be written, the first entry that
  is linked dereferences a null pointer, for the second initialisation has overwritten the tail
  pointer of the first list. The only other outcome is \<open>NULL\<close> when the lock cannot be initialised.
\<close>

theorem address_pool_never_created:
  assumes c: "calloced al (n * (MAX_PORT - MIN_PORT)) n" and n: "0 < n"
    and nz: "at_ap al \<noteq> 0" "at_pool al \<noteq> 0" "at_mapper al \<noteq> 0"
  shows "create_address_pool al base n =
     (if heap al (at_ap al + 96) = None then Inl OutOfBounds
      else if lock_fails al then Inr None else Inl NullDeref)"
proof -
  let ?ap = "fresh_pool al base n"
  let ?entries = "n * (MAX_PORT - MIN_PORT)"
  let ?m = "lists_mem al"
  have lt: "MIN_PORT < MAX_PORT" by (simp add: MIN_PORT_def MAX_PORT_def)
  then have p: "[MIN_PORT..<MAX_PORT] = MIN_PORT # [Suc MIN_PORT..<MAX_PORT]" by (rule upt_conv_Cons)
  have "0 < ?entries" using n lt by simp
  then have "store_entry ?ap 0 MIN_PORT 0 ?m = Inl NullDeref"
    by (rule first_link [OF c _ _ _ _ n lt refl, rotated -1]) (simp_all add: fresh_pool_def)
  then have e: "create_addrs ?entries ?ap [0..<n] (0, ?m) = Inl NullDeref"
    using n by (simp add: upt_conv_Cons p)
  have "create_address_pool al base n = with_pool al base n (\<lambda>ap m. create_addrs ?entries ap [0..<n] (0, m))"
    using nz(1) by (simp only: create_address_pool_def Let_def if_False)
  then show ?thesis unfolding with_pool_calloced [OF c nz(2,3)] e by simp
qed

text \<open>The loops of one core: they fail at the first pair of its packets and store nothing before it.\<close>

lemma core_ports_first:
  assumes "calloced al entries n" "ap_at ap = at_ap al" "ap_pool ap = at_pool al" "ap_mapper ap = at_mapper al"
    "i < n" "m = lists_mem al" and t: "\<And>j. \<exists>c. rss i j = Inr c"
  shows "set js \<subseteq> {..<MAX_PORT} \<Longrightarrow> core_ports entries rss core ap i js (0, m) =
    (if 0 < entries \<and> (\<exists>j\<in>set js. rss i j = Inr core) then Inl NullDeref else Inr (0, m))"
proof (induction js)
  case (Cons j js)
  obtain c where c: "rss i j = Inr c" using t by blast
  show ?case
  proof (cases "entries = 0")
    case False
    have "store_entry ap i j 0 m = Inl NullDeref"
      using Cons.prems(1) False by (intro first_link [OF assms(1-4) _ assms(5) _ assms(6)]) auto
    then show ?thesis using Cons c False by auto
  qed simp
qed simp

lemma core_addrs_first:
  assumes "calloced al entries n" "ap_at ap = at_ap al" "ap_pool ap = at_pool al" "ap_mapper ap = at_mapper al"
    "m = lists_mem al" and t: "\<And>i j. \<exists>c. rss i j = Inr c"
  shows "set is \<subseteq> {..<n} \<Longrightarrow> core_addrs entries rss core ap is (0, m) =
    (if 0 < entries \<and> (\<exists>i\<in>set is. \<exists>j\<in>{MIN_PORT..<MAX_PORT}. rss i j = Inr core) then Inl NullDeref else Inr (0, m))"
proof (induction "is")
  case (Cons i "is")
  have "core_ports entries rss core ap i [MIN_PORT..<MAX_PORT] (0, m) =
    (if 0 < entries \<and> (\<exists>j\<in>set [MIN_PORT..<MAX_PORT]. rss i j = Inr core) then Inl NullDeref else Inr (0, m))"
    using Cons.prems by (intro core_ports_first [OF assms(1-4) _ assms(5) t]) auto
  then show ?case using Cons by auto
qed simp

text \<open>
  C34: Likewise for the pool of one core: the creation fails as soon as there is an address and port of
  the core, and the pool that is returned otherwise has no entry and lends none, by either
  function.
\<close>

theorem core_pool_never_lends:
  assumes c: "calloced al (n * (MAX_PORT - MIN_PORT) div queues) n"
    and nz: "at_ap al \<noteq> 0" "at_pool al \<noteq> 0" "at_mapper al \<noteq> 0" and q: "0 < queues" "queues < 2 ^ 31"
  shows "create_address_pool_per_core al endian core queues base n daddr dport =
     (if heap al (at_ap al + 96) = None then Inl OutOfBounds
      else if lock_fails al then Inr None
      else if 0 < n * (MAX_PORT - MIN_PORT) div queues \<and> (\<exists>i\<in>{..<n}. \<exists>j\<in>{MIN_PORT..<MAX_PORT}.
          GetRSSCPUCore (ntohl daddr) (ntohl base + word_of_nat i) (ntohs dport) (word_of_nat j)
            (int queues) endian = Inr core)
      then Inl NullDeref
      else Inr (Some (fresh_pool al base n, lists_mem al))) \<and>
    fetch_address_per_core (Some (fresh_pool al base n)) (Some d) (Some s) (lists_mem al) =
      Inr (- 1, Some s, Some (fresh_pool al base n), lists_mem al) \<and>
    fetch_address INPORT_ANY endian (Some (fresh_pool al base n)) core (int queues) (Some d) (Some s) (lists_mem al) =
      Inr (- 1, Some s, Some (fresh_pool al base n), lists_mem al)"
proof -
  let ?ap = "fresh_pool al base n"
  let ?rss = "\<lambda>ap i j. GetRSSCPUCore (ntohl daddr) (addr_base ap + word_of_nat i) (ntohs dport) (word_of_nat j)
      (int queues) endian"
  let ?entries = "n * (MAX_PORT - MIN_PORT) div queues"
  have b: "addr_base ?ap = ntohl base" by (simp add: fresh_pool_def)
  have t: "\<exists>c. ?rss ap i j = Inr c" for ap i j
    using core_range(1) [of "int queues"] q by (simp add: nat_less_iff) blast
  have l: "core_addrs ?entries (?rss ?ap) core ?ap [0..<n] (0, lists_mem al) =
     (if 0 < ?entries \<and> (\<exists>i\<in>set [0..<n]. \<exists>j\<in>{MIN_PORT..<MAX_PORT}. ?rss ?ap i j = Inr core)
      then Inl NullDeref else Inr (0, lists_mem al))"
    by (rule core_addrs_first [OF c _ _ _ refl t]) (auto simp: fresh_pool_def)
  have u: "?ap\<lparr>num_entry := int 0, num_free := int 0, num_used := 0\<rparr> = ?ap" by (simp add: fresh_pool_def)
  have "create_address_pool_per_core al endian core queues base n daddr dport =
     with_pool al base n (\<lambda>ap m. core_addrs ?entries (?rss ap) core ap [0..<n] (0, m))"
    using nz(1) q(1) unfolding create_address_pool_per_core_def Let_def by simp
  then have cr: "create_address_pool_per_core al endian core queues base n daddr dport =
     (if heap al (at_ap al + 96) = None then Inl OutOfBounds
      else if lock_fails al then Inr None
      else if 0 < ?entries \<and> (\<exists>i\<in>set [0..<n]. \<exists>j\<in>{MIN_PORT..<MAX_PORT}. ?rss ?ap i j = Inr core)
      then Inl NullDeref else Inr (Some (?ap, lists_mem al)))"
    unfolding with_pool_calloced [OF c nz(2,3)] l using u by simp
  have "16 \<le> at_ap al + 80" using c struct_words [of al] by (auto simp: calloced_def)
  then have "load (free_list ?ap) (lists_mem al) = Inr 0"
    by (auto simp: load_Inr free_list_def fresh_pool_def lists_mem_def)
  then show ?thesis
    unfolding cr by (simp add: fetch_address_per_core_def fetch_address_def find_entry.simps b atLeast0LessThan)
qed

subsection \<open>Concrete allocations\<close>

text \<open>Three blocks far from each other; \<open>behind\<close> says whether the word behind the structure may be written.\<close>

definition three_blocks :: "bool \<Rightarrow> alloc" where
  "three_blocks behind =
     \<lparr>at_ap = 0x1000, at_pool = 0x10000000, at_mapper = 0x20000000, lock_fails = False,
      heap = (\<lambda>a. if a = 0x1060 \<and> \<not> behind then None else Some 0)\<rparr>"

lemma block_word:
  "x \<in> block a n \<Longrightarrow> unat a + 8 * n < 2 ^ 64 \<Longrightarrow> unat a \<le> unat x \<and> unat x < unat a + 8 * n"
proof -
  assume "x \<in> block a n" and n: "unat a + 8 * n < 2 ^ 64"
  then obtain k where k: "k < n" "x = a + 8 * word_of_nat k" by (auto simp: block_def)
  have "x = a + word_of_nat (8 * k)" by (simp add: k(2))
  moreover have u: "unat (word_of_nat (8 * k) :: u64) = 8 * k"
    using n k(1) unfolding unat_of_nat by (intro mod_less) simp
  ultimately have "unat x = unat a + 8 * k"
    using n k(1) unat_add_no_wrap [of a "word_of_nat (8 * k)"] unfolding u by simp
  then show "unat a \<le> unat x \<and> unat x < unat a + 8 * n" using k(1) by simp
qed

lemma three_blocks_calloced: "entries \<le> 1000000 \<Longrightarrow> n \<le> 10 \<Longrightarrow> calloced (three_blocks behind) entries n"
proof -
  assume b: "entries \<le> 1000000" "n \<le> 10"
  have s: "0x1000 \<le> unat x \<and> unat x < 0x1060" if "x \<in> block 0x1000 12" for x :: u64
    using block_word [OF that] by simp
  have p: "0x10000000 \<le> unat x \<and> unat x < 0x20000000" if "x \<in> block 0x10000000 (3 * entries)" for x :: u64
    using block_word [OF that] b(1) by simp
  have q: "0x20000000 \<le> unat x" if "x \<in> block 0x20000000 (n * MAX_PORT)" for x :: u64
    using block_word [OF that] b(2) by (simp add: MAX_PORT_def)
  have m: "16 \<le> x \<and> heap (three_blocks behind) x = Some 0"
    if "0x1000 \<le> unat x \<and> unat x < 0x1060 \<or> 0x10000000 \<le> unat x" for x
    using that by (auto simp: three_blocks_def word_le_nat_alt)
  show ?thesis
    unfolding calloced_def
    using m s p q by (simp add: three_blocks_def) (fastforce)
qed

lemma three_blocks_simps:
  "at_ap (three_blocks b) \<noteq> 0" "at_pool (three_blocks b) \<noteq> 0" "at_mapper (three_blocks b) \<noteq> 0"
  "lock_fails (three_blocks b) \<longleftrightarrow> False" "heap (three_blocks b) (at_ap (three_blocks b) + 96) = None \<longleftrightarrow> \<not> b"
  by (simp_all add: three_blocks_def)

lemma address_pool_never_created_witness:
  "create_address_pool (three_blocks False) 0x0100000A 1 = Inl OutOfBounds \<and>
   create_address_pool (three_blocks True) 0x0100000A 1 = Inl NullDeref"
proof -
  have c: "calloced (three_blocks b) (1 * (MAX_PORT - MIN_PORT)) 1" for b
    by (rule three_blocks_calloced) (simp_all add: MAX_PORT_def MIN_PORT_def)
  show ?thesis
    using address_pool_never_created [OF c zero_less_one three_blocks_simps(1-3), of False "0x0100000A"]
      address_pool_never_created [OF c zero_less_one three_blocks_simps(1-3), of True "0x0100000A"]
    unfolding three_blocks_simps by simp
qed

text \<open>No address and port leads to a core that does not exist: its pool is created and empty.\<close>

lemma core_pool_never_lends_witness:
  "\<exists>ap m. create_address_pool_per_core (three_blocks True) 1 7 4 0x0100000A 3 0x0200000A 0x5000 = Inr (Some (ap, m)) \<and>
     fetch_address_per_core (Some ap) (Some \<lparr>sin_family = 2, sin_port = 0x5000, s_addr = 0x0200000A, sin_zero = 0\<rparr>)
       (Some \<lparr>sin_family = 2, sin_port = 0, s_addr = 0, sin_zero = 0\<rparr>) m =
     Inr (- 1, Some \<lparr>sin_family = 2, sin_port = 0, s_addr = 0, sin_zero = 0\<rparr>, Some ap, m)"
proof -
  have k: "calloced (three_blocks True) (3 * (MAX_PORT - MIN_PORT) div 4) 3"
    by (rule three_blocks_calloced) (simp_all add: MAX_PORT_def MIN_PORT_def)
  have "GetRSSCPUCore s d p q (int 4) e \<noteq> Inr 7" for s d p q e
    using core_range(1) [of "int 4" s d p q e] by fastforce
  then show ?thesis
    using core_pool_never_lends [OF k three_blocks_simps(1-3), of 1 7 "0x0100000A" "0x0200000A" "0x5000"
        "\<lparr>sin_family = 2, sin_port = 0x5000, s_addr = 0x0200000A, sin_zero = 0\<rparr>"
        "\<lparr>sin_family = 2, sin_port = 0, s_addr = 0, sin_zero = 0\<rparr>" 0]
    by (auto simp: three_blocks_simps)
qed

end
