(* ===== verification/Arp.thy ===== *)
theory Arp
  imports Tcp_Seq
begin

text \<open>
  The link layer output and address resolution (\<open>ethernet_output\<close> of \<open>src/eth.c\<close>,
  \<open>src/arp.c\<close>), with the part of the configuration they read. A packet is written into a
  buffer of the I/O module; \<open>get_wptr\<close>, a function of that module, is a parameter that says
  whether there is a buffer for an interface and a length, and \<open>frames\<close> collects what was
  written, oldest first. Hardware addresses are lists of six bytes. The configuration struct has
  one counter \<open>entry_nums\<close>, which the code also calls \<open>entries\<close>.
\<close>

record eth_table =
  ip_addr :: u32
  haddr :: "u8 list"
  ifindex :: int

record arp_entry =
  prefix :: int
  ae_ip :: u32
  ip_mask :: u32
  ip_masked :: u32
  ae_haddr :: "u8 list"
  ae_flag :: u8

record arp_queue_entry =
  qe_ip :: u32
  nif_out :: int
  ts_out :: u32
  qe_flag :: u8

record arphdr =
  ar_hrd :: u16
  ar_pro :: u16
  ar_hln :: u8
  ar_pln :: u8
  ar_op :: u16
  ar_sha :: "u8 list"
  ar_sip :: u32
  ar_tha :: "u8 list"
  ar_tip :: u32

record ipv4_hdr =
  ihl :: nat
  version :: nat
  tos :: u8
  tot_len :: u16
  ip_id :: u16
  frag_off :: u16
  ttl :: u8
  protocol :: u8
  iph_check :: u16
  iph_saddr :: u32
  iph_daddr :: u32

record route =
  rt_mask :: u32
  rt_masked :: u32
  rt_prefix :: int
  rt_nif :: int

text \<open>An IP packet is its header and the bytes behind it.\<close>

datatype packet = Arp_packet arphdr | Ip_packet ipv4_hdr "u8 list" | Other_packet u16

record frame =
  fr_eidx :: int
  h_dest :: "u8 list"
  h_source :: "u8 list"
  h_proto :: u16
  fr_body :: packet

record net =
  eths :: "eth_table list"
  nif_to_eidx :: "int list"
  gateway :: "(u32 \<times> int) option"   \<comment> \<open>address and interface\<close>
  routes :: "route list"
  arp_entries :: "arp_entry list"
  entry_nums :: nat
  arp_gateway :: "nat option"
  working_list :: "arp_queue_entry list"
  frames :: "frame list"

definition ETH_P_IP :: u16 where "ETH_P_IP = 0x0800"
definition ETH_P_ARP :: u16 where "ETH_P_ARP = 0x0806"
definition MAX_ARPENTRY :: nat where "MAX_ARPENTRY = 1024"

type_synonym wptr = "int \<Rightarrow> u16 \<Rightarrow> bool"

subsection \<open>Ethernet output\<close>

text \<open>An index into an array of the configuration.\<close>

definition at :: "'a list \<Rightarrow> int \<Rightarrow> 'a res" where
  "at xs i = (if 0 \<le> i \<and> i < int (length xs) then Inr (xs ! nat i) else Inl OutOfBounds)"

text \<open>
  The header of the frame that was started; the caller writes the rest. \<open>get_wptr\<close> takes the
  length of the frame as a \<open>uint16_t\<close>: when it wraps around, the buffer is shorter than the header
  of 14 bytes that is written into it.
\<close>

definition ethernet_output ::
  "wptr \<Rightarrow> net \<Rightarrow> u16 \<Rightarrow> int \<Rightarrow> u8 list \<Rightarrow> u16 \<Rightarrow> (packet \<Rightarrow> frame) option res" where
  "ethernet_output get_wptr net proto nif dst_haddr iplen =
     (if nif < 0 then Inr None
      else andThen (at (nif_to_eidx net) nif) (\<lambda>eidx.
      if eidx < 0 then Inr None
      else if \<not> get_wptr eidx (iplen + 14) then Inr None
      else if unat (iplen + 14) < 14 then Inl OutOfBounds
      else andThen (at (eths net) eidx) (\<lambda>eth.
      Inr (Some (\<lambda>body. \<lparr>fr_eidx = eidx, h_dest = dst_haddr, h_source = haddr eth,
                        h_proto = htons proto, fr_body = body\<rparr>)))))"

definition send :: "net \<Rightarrow> frame \<Rightarrow> net" where
  "send net f = net\<lparr>frames := frames net @ [f]\<rparr>"

subsection \<open>The table\<close>

text \<open>Whether the two allocations of \<open>init_ARP_table\<close> return memory.\<close>

definition blank_entry :: arp_entry where
  "blank_entry = \<lparr>prefix = 0, ae_ip = 0, ip_mask = 0, ip_masked = 0, ae_haddr = replicate 6 0, ae_flag = 0\<rparr>"

definition init_ARP_table :: "bool \<Rightarrow> bool \<Rightarrow> net \<Rightarrow> (int \<times> net) res" where
  "init_ARP_table table_ok queue_ok net =
     (let net = net\<lparr>entry_nums := 0\<rparr> in
      if \<not> table_ok then Inr (- 1, net)
      else let net = net\<lparr>arp_entries := replicate MAX_ARPENTRY blank_entry\<rparr> in
        if queue_ok then Inr (- 1, net\<lparr>arp_entries := []\<rparr>)
        else Inl NullDeref)"

fun get_HW_addr :: "eth_table list \<Rightarrow> u32 \<Rightarrow> u8 list option" where
  "get_HW_addr [] addr = None"
| "get_HW_addr (e # es) addr = (if addr = ip_addr e then Some (haddr e) else get_HW_addr es addr)"

fun lookup :: "u32 \<Rightarrow> arp_entry list \<Rightarrow> int \<Rightarrow> u8 list option \<Rightarrow> u8 list option" where
  "lookup dip [] best d_haddr = d_haddr"
| "lookup dip (e # es) best d_haddr =
     (if prefix e = 1
      then (if ae_ip e = dip then Some (ae_haddr e) else lookup dip es best d_haddr)
      else if dip AND ip_mask e = ip_masked e \<and> prefix e > best
      then lookup dip es (prefix e) (Some (ae_haddr e))
      else lookup dip es best d_haddr)"

definition get_destination_HW_addr :: "net \<Rightarrow> u32 \<Rightarrow> u8 \<Rightarrow> u8 list option" where
  "get_destination_HW_addr net dip is_gateway =
     (case arp_gateway net of
        Some g \<Rightarrow> if is_gateway = 1 then Some (ae_haddr (arp_entries net ! g))
                  else lookup dip (take (entry_nums net) (arp_entries net)) 0 None
      | None \<Rightarrow> lookup dip (take (entry_nums net) (arp_entries net)) 0 None)"

definition register_ARP_entry :: "net \<Rightarrow> u32 \<Rightarrow> u8 list \<Rightarrow> net res" where
  "register_ARP_entry net addr hw =
     (let idx = entry_nums net; net = net\<lparr>entry_nums := Suc idx\<rparr> in
      if idx < length (arp_entries net)
      then (let e = \<lparr>prefix = 32, ae_ip = addr, ip_mask = - 1, ip_masked = addr, ae_haddr = hw, ae_flag = 1\<rparr>;
                net = net\<lparr>arp_entries := (arp_entries net)[idx := e]\<rparr>
            in Inr (case gateway net of
                 Some (daddr, _) \<Rightarrow> if daddr AND ip_mask e = ip_masked e then net\<lparr>arp_gateway := Some idx\<rparr> else net
               | None \<Rightarrow> net))
      else Inl OutOfBounds)"

subsection \<open>Messages\<close>

definition ARP_output ::
  "wptr \<Rightarrow> net \<Rightarrow> int \<Rightarrow> u16 \<Rightarrow> u32 \<Rightarrow> u8 list \<Rightarrow> u8 list option \<Rightarrow> (int \<times> net) res" where
  "ARP_output get_wptr net nif opcode dst_ip dst_haddr target_haddr =
     andThen (ethernet_output get_wptr net ETH_P_ARP nif dst_haddr 46) (\<lambda>buf. case buf of
       None \<Rightarrow> Inr (- 1, net)
     | Some f \<Rightarrow>
         andThen (at (nif_to_eidx net) nif) (\<lambda>edix.
         andThen (at (eths net) edix) (\<lambda>eth.
         Inr (0, send net (f (Arp_packet
           \<lparr>ar_hrd = htons 1, ar_pro = htons ETH_P_IP, ar_hln = 6, ar_pln = 4, ar_op = htons opcode,
            ar_sha = haddr eth, ar_sip = ip_addr eth,
            ar_tha = (case target_haddr of Some t \<Rightarrow> t | None \<Rightarrow> dst_haddr), ar_tip = dst_ip\<rparr>))))))"

text \<open>
  The loop that links the new entry repeats while its compare-and-swap succeeds. \<open>cas_ok\<close> says
  whether the first one finds the head it has just read, as it does unless another thread
  changed it in between; after a success the loop swaps the entry for itself, for ever.
\<close>

definition request_ARP ::
  "wptr \<Rightarrow> bool \<Rightarrow> bool \<Rightarrow> net \<Rightarrow> u32 \<Rightarrow> int \<Rightarrow> u32 \<Rightarrow> (int \<times> net) res" where
  "request_ARP get_wptr alloc_ok cas_ok net addr nif cur_ts =
     (if \<exists>ent\<in>set (working_list net). qe_ip ent = addr \<and> qe_flag ent \<noteq> 0 then Inr (0, net)
      else if \<not> alloc_ok then Inr (- 1, net)
      else if cas_ok then Inl NoReturn
      else andThen (ARP_output get_wptr net nif 1 addr (replicate 6 0xFF) (Some (replicate 6 0)))
             (\<lambda>(_, net). Inr (0, net)))"

definition process_ARP_request :: "wptr \<Rightarrow> net \<Rightarrow> arphdr \<Rightarrow> int \<Rightarrow> (int \<times> net) res" where
  "process_ARP_request get_wptr net arph nif =
     andThen (if get_destination_HW_addr net (ar_sip arph) 0 = None
              then register_ARP_entry net (ar_sip arph) (ar_sha arph) else Inr net) (\<lambda>net.
     andThen (ARP_output get_wptr net nif 2 (ar_sip arph) (ar_sha arph) None) (\<lambda>(_, net).
     Inr (0, net)))"

text \<open>
  The entries behind the one the loop stands on. After unlinking an entry the loop steps over
  the next one without looking at it, and dereferences null when there is none.
\<close>

fun reply_walk :: "u32 \<Rightarrow> arp_queue_entry list \<Rightarrow> arp_queue_entry list res" where
  "reply_walk sip [] = Inr []"
| "reply_walk sip [old] = (if qe_ip old = sip then Inl NullDeref else Inr [old])"
| "reply_walk sip (old # nxt # rest) =
     (if qe_ip old = sip then andThen (reply_walk sip rest) (\<lambda>l. Inr (nxt # l))
      else andThen (reply_walk sip (nxt # rest)) (\<lambda>l. Inr (old # l)))"

definition process_ARP_reply :: "net \<Rightarrow> arphdr \<Rightarrow> (int \<times> net) res" where
  "process_ARP_reply net arph =
     andThen (if get_destination_HW_addr net (ar_sip arph) 0 = None
              then register_ARP_entry net (ar_sip arph) (ar_sha arph) else Inr net) (\<lambda>net.
     andThen (reply_walk (ar_sip arph) (working_list net)) (\<lambda>l. Inr (0, net\<lparr>working_list := l\<rparr>)))"

definition process_ARP_packet :: "wptr \<Rightarrow> net \<Rightarrow> int \<Rightarrow> arphdr \<Rightarrow> (int \<times> net) res" where
  "process_ARP_packet get_wptr net ifidx arph =
     (let to_me = (\<exists>e\<in>set (eths net). ar_tip arph = ip_addr e) in
      if \<not> to_me then Inr (0, net)
      else if ntohs (ar_op arph) = 1
      then andThen (at (eths net) ifidx) (\<lambda>eth.
           andThen (process_ARP_request get_wptr net arph (ifindex eth)) (\<lambda>(_, net). Inr (0, net)))
      else if ntohs (ar_op arph) = 2
      then andThen (process_ARP_reply net arph) (\<lambda>(_, net). Inr (0, net))
      else Inr (0, net))"

text \<open>\<open>SEC_TO_TS\<close> is not defined in the repository; \<open>timeout\<close> is \<open>SEC_TO_TS(ARP_TIMEOUT_SEC)\<close>.\<close>

definition ARP_timer :: "u32 \<Rightarrow> u32 \<Rightarrow> net \<Rightarrow> net" where
  "ARP_timer timeout cur_ts net =
     net\<lparr>working_list := filter (\<lambda>ent. \<not> TCP_SEQ_GT cur_ts (ts_out ent + timeout)) (working_list net)\<rparr>"

subsection \<open>Lookup and registration\<close>

lemma lookup_kept: "lookup dip es b (Some d) \<noteq> None"
  by (induction es arbitrary: b d) auto

lemma lookup_append:
  "lookup dip xs b None = None \<Longrightarrow> lookup dip (xs @ ys) b None = lookup dip ys b None"
  by (induction xs) (auto split: if_splits simp: lookup_kept)

lemma lookup_registered:
  assumes "get_destination_HW_addr net addr 0 = None" "entry_nums net < length (arp_entries net)"
  shows "\<exists>net'. register_ARP_entry net addr hw = Inr net' \<and> get_destination_HW_addr net' addr 0 = Some hw \<and>
    eths net' = eths net \<and> nif_to_eidx net' = nif_to_eidx net \<and> frames net' = frames net \<and>
    working_list net' = working_list net \<and> entry_nums net' = Suc (entry_nums net) \<and>
    length (arp_entries net') = length (arp_entries net)"
proof -
  let ?n = "entry_nums net"
  let ?e = "\<lparr>prefix = 32, ae_ip = addr, ip_mask = - 1, ip_masked = addr, ae_haddr = hw, ae_flag = 1\<rparr>"
  have l: "lookup addr (take ?n (arp_entries net)) 0 None = None"
    using assms(1) by (simp add: get_destination_HW_addr_def split: option.splits)
  have "take (Suc ?n) ((arp_entries net)[?n := ?e]) = take ?n (arp_entries net) @ [?e]"
    using assms(2) by (simp add: take_Suc_conv_app_nth)
  then have f: "lookup addr (take (Suc ?n) ((arp_entries net)[?n := ?e])) 0 None = Some hw"
    using lookup_append [OF l, of "[?e]"] by simp
  show ?thesis
    using assms(2) f
    by (auto simp: register_ARP_entry_def get_destination_HW_addr_def Let_def split: option.splits)
qed

text \<open>A full table is written past its end.\<close>

lemma register_full: "length (arp_entries net) \<le> entry_nums net \<Longrightarrow> register_ARP_entry net addr hw = Inl OutOfBounds"
  by (simp add: register_ARP_entry_def Let_def)

lemma ARP_output_sends:
  assumes "at (nif_to_eidx net) nif = Inr eidx" "at (eths net) eidx = Inr eth" "get_wptr eidx 60"
  shows "ARP_output get_wptr net nif opcode dst_ip dst_haddr target =
    Inr (0, send net \<lparr>fr_eidx = eidx, h_dest = dst_haddr, h_source = haddr eth, h_proto = htons ETH_P_ARP,
      fr_body = Arp_packet \<lparr>ar_hrd = htons 1, ar_pro = htons ETH_P_IP, ar_hln = 6, ar_pln = 4, ar_op = htons opcode,
            ar_sha = haddr eth, ar_sip = ip_addr eth,
            ar_tha = (case target of Some t \<Rightarrow> t | None \<Rightarrow> dst_haddr), ar_tip = dst_ip\<rparr>\<rparr>)"
  using assms by (auto simp: ARP_output_def ethernet_output_def at_def split: if_splits)

lemma init_never_succeeds: "init_ARP_table table_ok queue_ok net = Inr (r, net') \<Longrightarrow> r = - 1"
  by (auto simp: init_ARP_table_def Let_def split: if_splits)

text \<open>With an empty working list, as at the start, and no other thread, no request is ever sent.\<close>

lemma request_new:
  "\<forall>ent\<in>set (working_list net). qe_ip ent \<noteq> addr \<Longrightarrow>
   request_ARP get_wptr True True net addr nif cur_ts = Inl NoReturn"
  by (auto simp: request_ARP_def)

subsection \<open>Properties\<close>

text \<open>
  C37: An ARP request for one of our addresses, from a sender that is not in the table, with room
  in the table and a buffer for the answer: afterwards the table resolves the sender's address to
  the hardware address it sent from, and exactly one frame went out, an ARP reply to that
  hardware address with our addresses as the sender and the requester's as the target.
\<close>

theorem arp_learns_and_replies:
  assumes me: "me \<in> set (eths net)" "ar_tip arph = ip_addr me" "ntohs (ar_op arph) = 1"
    and unknown: "get_destination_HW_addr net (ar_sip arph) 0 = None"
    and room: "entry_nums net < length (arp_entries net)"
    and route: "at (eths net) ifidx = Inr eth" "at (nif_to_eidx net) (ifindex eth) = Inr eidx"
      "at (eths net) eidx = Inr out" "get_wptr eidx 60"
  shows "\<exists>net'. process_ARP_packet get_wptr net ifidx arph = Inr (0, net') \<and>
    get_destination_HW_addr net' (ar_sip arph) 0 = Some (ar_sha arph) \<and>
    frames net' = frames net @ [\<lparr>fr_eidx = eidx, h_dest = ar_sha arph, h_source = haddr out, h_proto = htons ETH_P_ARP,
      fr_body = Arp_packet \<lparr>ar_hrd = htons 1, ar_pro = htons ETH_P_IP, ar_hln = 6, ar_pln = 4, ar_op = htons 2,
        ar_sha = haddr out, ar_sip = ip_addr out, ar_tha = ar_sha arph, ar_tip = ar_sip arph\<rparr>\<rparr>]"
proof -
  obtain n1 where n1: "register_ARP_entry net (ar_sip arph) (ar_sha arph) = Inr n1"
    "get_destination_HW_addr n1 (ar_sip arph) 0 = Some (ar_sha arph)"
    "eths n1 = eths net" "nif_to_eidx n1 = nif_to_eidx net" "frames n1 = frames net"
    using lookup_registered [OF unknown room, of "ar_sha arph"] by blast
  have o: "ARP_output get_wptr n1 (ifindex eth) 2 (ar_sip arph) (ar_sha arph) None = Inr (0, send n1
      \<lparr>fr_eidx = eidx, h_dest = ar_sha arph, h_source = haddr out, h_proto = htons ETH_P_ARP,
      fr_body = Arp_packet \<lparr>ar_hrd = htons 1, ar_pro = htons ETH_P_IP, ar_hln = 6, ar_pln = 4, ar_op = htons 2,
        ar_sha = haddr out, ar_sip = ip_addr out, ar_tha = ar_sha arph, ar_tip = ar_sip arph\<rparr>\<rparr>)"
    by (subst ARP_output_sends [of n1 "ifindex eth" eidx out]) (simp_all add: n1 route)
  have "get_destination_HW_addr (send n1 f) d g = get_destination_HW_addr n1 d g" for f d g
    by (simp add: get_destination_HW_addr_def send_def split: option.split)
  then show ?thesis
    using me route(1) n1 by (auto simp: process_ARP_packet_def process_ARP_request_def unknown o send_def)
qed

text \<open>
  The table of 1024 entries is not protected: once it is full, the next ARP message for one of
  our addresses from a sender it cannot resolve, request or reply, is registered in the memory
  behind the table.
\<close>

theorem arp_table_overflow:
  assumes "me \<in> set (eths net)" "ar_tip arph = ip_addr me"
    and "ntohs (ar_op arph) = 1 \<and> at (eths net) ifidx = Inr eth \<or> ntohs (ar_op arph) = 2"
    and "get_destination_HW_addr net (ar_sip arph) 0 = None"
    and "length (arp_entries net) \<le> entry_nums net"
  shows "process_ARP_packet get_wptr net ifidx arph = Inl OutOfBounds"
  using assms
  by (auto simp: process_ARP_packet_def process_ARP_request_def process_ARP_reply_def register_full)

text \<open>A host with one interface, for the examples.\<close>

definition one_eth :: "arp_entry list \<Rightarrow> nat \<Rightarrow> net" where
  "one_eth es n =
     \<lparr>eths = [\<lparr>ip_addr = 0x0100000A, haddr = [2, 0, 0, 0, 0, 1], ifindex = 0\<rparr>], nif_to_eidx = [0],
      gateway = None, routes = [\<lparr>rt_mask = 0x00FFFFFF, rt_masked = 0x0000000A, rt_prefix = 24, rt_nif = 0\<rparr>],
      arp_entries = es, entry_nums = n, arp_gateway = None, working_list = [], frames = []\<rparr>"

definition who_has :: "u32 \<Rightarrow> arphdr" where
  "who_has sip =
     \<lparr>ar_hrd = 0x0100, ar_pro = 0x0008, ar_hln = 6, ar_pln = 4, ar_op = 0x0100,
      ar_sha = [2, 0, 0, 0, 0, 9], ar_sip = sip, ar_tha = replicate 6 0, ar_tip = 0x0100000A\<rparr>"

lemma who_has_op: "ntohs (ar_op (who_has sip)) = 1"
  by (simp add: who_has_def ntohs_def htons_def)

lemma arp_learns_and_replies_witness:
  "\<exists>net'. process_ARP_packet (\<lambda>i l. True) (one_eth (replicate 1024 blank_entry) 0) 0 (who_has 0x0900000A) = Inr (0, net') \<and>
     get_destination_HW_addr net' 0x0900000A 0 = Some [2, 0, 0, 0, 0, 9]"
  using arp_learns_and_replies [of "eths (one_eth (replicate 1024 blank_entry) 0) ! 0" "one_eth (replicate 1024 blank_entry) 0"
      "who_has 0x0900000A" 0 _ 0 _ "\<lambda>i l. True"]
  by (auto simp: one_eth_def who_has_op get_destination_HW_addr_def at_def who_has_def [THEN arg_cong, of ar_sip]
      who_has_def [THEN arg_cong, of ar_tip] who_has_def [THEN arg_cong, of ar_sha])

lemma lookup_blank: "lookup dip (replicate n blank_entry) 0 None = None"
  by (induction n) (simp_all add: blank_entry_def)

lemma arp_table_overflow_witness:
  "process_ARP_packet (\<lambda>i l. True) (one_eth (replicate 1024 blank_entry) 1024) 0 (who_has 0x0900000A) = Inl OutOfBounds"
  using arp_table_overflow [of "eths (one_eth (replicate 1024 blank_entry) 1024) ! 0" "one_eth (replicate 1024 blank_entry) 1024"
      "who_has 0x0900000A" 0 "eths (one_eth (replicate 1024 blank_entry) 1024) ! 0" "\<lambda>i l. True"]
    who_has_op [of "0x0900000A"]
  by (simp add: one_eth_def get_destination_HW_addr_def at_def lookup_blank) (simp add: who_has_def)

end
