(* ===== verification/Ip.thy ===== *)
theory Ip
  imports Arp Checksum
begin

text \<open>
  The network layer: input and output of IPv4 packets and the choice of the interface
  (\<open>src/ip.c\<close>), echo requests (\<open>src/icmp.c\<close>) and the dispatch of received frames
  (\<open>process_packet\<close> of \<open>src/eth.c\<close>). The checksum \<open>ip_fast_csum\<close> and the ioctls of the I/O
  module are not in the repository: \<open>csum\<close> is the former, on the bytes of the header in memory;
  \<open>rx_rc\<close> and \<open>tx_rc\<close> are what the latter return, \<open>-1\<close> without the hook. \<open>ERROR\<close> is not defined
  in the repository either. Fields of more than a byte are stored as on a little-endian host.
\<close>

type_synonym csum = "u8 list \<Rightarrow> u16"

definition le16 :: "u16 \<Rightarrow> u8 list" where
  "le16 w = [ucast w, ucast (drop_bit 8 w)]"

definition le32 :: "u32 \<Rightarrow> u8 list" where
  "le32 w = [ucast w, ucast (drop_bit 8 w), ucast (drop_bit 16 w), ucast (drop_bit 24 w)]"

definition hdr_bytes :: "ipv4_hdr \<Rightarrow> u8 list" where
  "hdr_bytes h =
     [word_of_nat (ihl h mod 16 + 16 * (version h mod 16)), tos h] @ le16 (tot_len h) @ le16 (ip_id h) @
     le16 (frag_off h) @ [ttl h, protocol h] @ le16 (iph_check h) @ le32 (iph_saddr h) @ le32 (iph_daddr h)"

lemma length_le [simp]: "length (le16 w) = 2" "length (le32 v) = 4"
  by (simp_all add: le16_def le32_def)

lemma length_hdr_bytes [simp]: "length (hdr_bytes h) = 20"
  by (simp add: hdr_bytes_def)

subsection \<open>Routing\<close>

text \<open>
  The loop ends at the first route that matches, so \<open>prefix\<close> is zero at every comparison. The
  result is the interface and whether the packet goes to the gateway.
\<close>

fun route_loop :: "(u32 \<times> int) option \<Rightarrow> u32 \<Rightarrow> route list \<Rightarrow> int \<times> u8" where
  "route_loop gw daddr [] = (- 1, 0)"
| "route_loop gw daddr (r # rs) =
     (if daddr AND rt_mask r = rt_masked r
      then (if rt_prefix r > 0 then (rt_nif r, 0)
            else case gw of Some (_, nif) \<Rightarrow> (nif, 1) | None \<Rightarrow> (- 1, 0))
      else route_loop gw daddr rs)"

definition get_output_interface :: "net \<Rightarrow> u32 \<Rightarrow> (int \<times> u8) res" where
  "get_output_interface net daddr =
     (let (nif, is_external) = route_loop (gateway net) daddr (routes net)
      in c_assert (\<not> nif < 0) (nif, is_external))"

subsection \<open>Output\<close>

definition ip_header :: "csum \<Rightarrow> (u8 \<Rightarrow> int) \<Rightarrow> u8 \<Rightarrow> u16 \<Rightarrow> u32 \<Rightarrow> u32 \<Rightarrow> u16 \<Rightarrow> ipv4_hdr" where
  "ip_header csum tx_rc proto ident saddr daddr payloadlen =
     (let h = \<lparr>ihl = 5, version = 4, tos = 0, tot_len = htons (20 + payloadlen), ip_id = htons ident,
               frag_off = htons 0x4000, ttl = 64, protocol = proto, iph_check = 0,
               iph_saddr = saddr, iph_daddr = daddr\<rparr>;
          rc = (if proto = 6 \<or> proto = 1 then tx_rc proto else - 1)
      in if rc = - 1 then h\<lparr>iph_check := csum (hdr_bytes h)\<rparr> else h)"

text \<open>
  The packet that was started, as a function of the bytes the caller puts behind the header, or
  null. The gateway is there whenever \<open>is_external\<close> is set. The header of 20 bytes is written
  behind the 14 bytes of the frame's, into a buffer of \<open>payloadlen + 34\<close> bytes modulo 2^16.
\<close>

definition IP_output_standalone ::
  "wptr \<Rightarrow> bool \<Rightarrow> bool \<Rightarrow> csum \<Rightarrow> (u8 \<Rightarrow> int) \<Rightarrow> net \<Rightarrow> u32 \<Rightarrow> u8 \<Rightarrow> u16 \<Rightarrow> u32 \<Rightarrow> u32 \<Rightarrow> u16 \<Rightarrow>
    ((u8 list \<Rightarrow> frame) option \<times> net) res" where
  "IP_output_standalone get_wptr alloc_ok cas_ok csum tx_rc net cur_ts proto ident saddr daddr payloadlen =
     andThen (get_output_interface net daddr) (\<lambda>(nif, is_external).
     case get_destination_HW_addr net daddr is_external of
       None \<Rightarrow> andThen (request_ARP get_wptr alloc_ok cas_ok net
                  (case gateway net of Some (gw, _) \<Rightarrow> if is_external \<noteq> 0 then gw else daddr | None \<Rightarrow> daddr)
                  nif cur_ts) (\<lambda>(_, net). Inr (None, net))
     | Some hw \<Rightarrow> andThen (ethernet_output get_wptr net ETH_P_IP nif hw (payloadlen + 20)) (\<lambda>buf.
         case buf of None \<Rightarrow> Inr (None, net)
         | Some f \<Rightarrow>
             if unat (payloadlen + 34) < 34 then Inl OutOfBounds
             else Inr (Some (\<lambda>rest. f (Ip_packet (ip_header csum tx_rc proto ident saddr daddr payloadlen) rest)), net)))"

text \<open>What \<open>IP_output\<close> reads and updates in the stream.\<close>

record ip_stream =
  is_nif_out :: int
  is_external :: u8
  is_ip_id :: u16
  is_saddr :: u32
  is_daddr :: u32

definition IP_output ::
  "wptr \<Rightarrow> bool \<Rightarrow> bool \<Rightarrow> csum \<Rightarrow> (u8 \<Rightarrow> int) \<Rightarrow> net \<Rightarrow> u32 \<Rightarrow> ip_stream \<Rightarrow> u16 \<Rightarrow>
    ((u8 list \<Rightarrow> frame) option \<times> ip_stream \<times> net) res" where
  "IP_output get_wptr alloc_ok cas_ok csum tx_rc net cur_ts s tcplen =
     andThen (if is_nif_out s \<ge> 0 then Inr s
              else andThen (get_output_interface net (is_daddr s)) (\<lambda>(nif, ext).
                   Inr (s\<lparr>is_nif_out := nif, is_external := ext\<rparr>))) (\<lambda>s.
     case get_destination_HW_addr net (is_daddr s) (is_external s) of
       None \<Rightarrow> andThen (request_ARP get_wptr alloc_ok cas_ok net
                  (case gateway net of Some (gw, _) \<Rightarrow> if is_external s \<noteq> 0 then gw else is_daddr s | None \<Rightarrow> is_daddr s)
                  (is_nif_out s) cur_ts) (\<lambda>(_, net). Inr (None, s, net))
     | Some hw \<Rightarrow> andThen (ethernet_output get_wptr net ETH_P_IP (is_nif_out s) hw (tcplen + 20)) (\<lambda>buf.
         case buf of None \<Rightarrow> Inr (None, s, net)
         | Some f \<Rightarrow>
             if unat (tcplen + 34) < 34 then Inl OutOfBounds
             else Inr (Some (\<lambda>rest. f (Ip_packet (ip_header csum tx_rc 6 (is_ip_id s) (is_saddr s) (is_daddr s) tcplen) rest)),
                       s\<lparr>is_ip_id := is_ip_id s + 1\<rparr>, net)))"

subsection \<open>Input\<close>

definition process_IPv4_packet ::
  "int \<Rightarrow> int \<Rightarrow> csum \<Rightarrow> net \<Rightarrow> int \<Rightarrow> ipv4_hdr \<Rightarrow> u8 list \<Rightarrow>
    (ipv4_hdr \<Rightarrow> u8 list \<Rightarrow> int \<Rightarrow> (int \<times> net) res) \<Rightarrow> (ipv4_hdr \<Rightarrow> u8 list \<Rightarrow> int \<Rightarrow> (int \<times> net) res) \<Rightarrow> (int \<times> net) res" where
  "process_IPv4_packet ERROR rx_rc csum net ifidx iph rest process_TCP process_ICMP =
     (let ip_len = int (unat (ntohs (tot_len iph))) in
      if ip_len < 20 then Inr (ERROR, net)
      else if rx_rc = - 1 \<and> 20 + length rest < 4 * ihl iph then Inl OutOfBounds
      else if rx_rc = - 1 \<and> csum (take (4 * ihl iph) (hdr_bytes iph @ rest)) \<noteq> 0 then Inr (- 1, net)
      else andThen (at (eths net) ifidx) (\<lambda>eth.
        if iph_daddr iph \<noteq> ip_addr eth then Inr (0, net)
        else if version iph \<noteq> 4 then Inr (0, net)
        else if protocol iph = 6 then process_TCP iph rest ip_len
        else if protocol iph = 1 then process_ICMP iph rest ip_len
        else Inr (0, net)))"

text \<open>\<open>msg\<close> is the message in memory from \<open>IP_NEXT_PTR\<close> on. The fields are read as two bytes.\<close>

definition rd16 :: "u8 list \<Rightarrow> nat \<Rightarrow> u16" where
  "rd16 bs i = ucast (bs ! i) OR push_bit 8 (ucast (bs ! Suc i))"

definition ICMP_output ::
  "wptr \<Rightarrow> bool \<Rightarrow> bool \<Rightarrow> csum \<Rightarrow> (u8 \<Rightarrow> int) \<Rightarrow> u8 \<Rightarrow> net \<Rightarrow> u32 \<Rightarrow> u32 \<Rightarrow> u32 \<Rightarrow> u8 \<Rightarrow> u8 \<Rightarrow> u16 \<Rightarrow> u16 \<Rightarrow>
    u8 list \<Rightarrow> u16 \<Rightarrow> (int \<times> net) res" where
  "ICMP_output get_wptr alloc_ok cas_ok csum tx_rc junk net cur_ts saddr daddr icmp_type icmp_code icmp_id icmp_seq icmpd len =
     andThen (IP_output_standalone get_wptr alloc_ok cas_ok csum tx_rc net cur_ts 1 0 saddr daddr (8 + len)) (\<lambda>(buf, net).
     case buf of
       None \<Rightarrow> Inr (- 1, net)
     | Some f \<Rightarrow>
         (if unat len > length icmpd \<or> 8 + unat len > unat (8 + len) then Inl OutOfBounds
          else let tail = le16 (htons icmp_id) @ le16 (htons icmp_seq) @ take (unat len) icmpd
               in andThen (ICMP_check_sum junk ([icmp_type, icmp_code] @ le16 0 @ tail) (8 + int (unat len))) (\<lambda>ck.
                  Inr (0, send net (f ([icmp_type, icmp_code] @ le16 ck @ tail))))))"

definition request_ICMP ::
  "wptr \<Rightarrow> bool \<Rightarrow> bool \<Rightarrow> csum \<Rightarrow> (u8 \<Rightarrow> int) \<Rightarrow> u8 \<Rightarrow> net \<Rightarrow> u32 \<Rightarrow> u32 \<Rightarrow> u32 \<Rightarrow> u16 \<Rightarrow> u16 \<Rightarrow> u8 list \<Rightarrow> u16 \<Rightarrow>
    net res" where
  "request_ICMP get_wptr alloc_ok cas_ok csum tx_rc junk net cur_ts saddr daddr icmp_id icmp_sequence icmpd len =
     andThen (ICMP_output get_wptr alloc_ok cas_ok csum tx_rc junk net cur_ts saddr daddr 8 0 (ntohs icmp_id)
       (ntohs icmp_sequence) icmpd len) (\<lambda>(_, net). Inr net)"

text \<open>
  The byte next to the last one of a message of odd length is not initialised: \<open>junk\<close> in the
  check of the message that came in, \<open>junk'\<close> in the computation for the answer.
\<close>

definition process_ICMP_echo_request ::
  "wptr \<Rightarrow> bool \<Rightarrow> bool \<Rightarrow> csum \<Rightarrow> (u8 \<Rightarrow> int) \<Rightarrow> u8 \<Rightarrow> u8 \<Rightarrow> net \<Rightarrow> u32 \<Rightarrow> ipv4_hdr \<Rightarrow> u8 list \<Rightarrow> int \<Rightarrow> (int \<times> net) res" where
  "process_ICMP_echo_request get_wptr alloc_ok cas_ok csum tx_rc junk junk' net cur_ts iph msg len =
     andThen (ICMP_check_sum junk msg (len - 4 * int (ihl iph))) (\<lambda>ck.
     if ck \<noteq> 0 then Inr (- 1, net)
     else if length msg < 8 then Inl OutOfBounds
     else andThen (ICMP_output get_wptr alloc_ok cas_ok csum tx_rc junk' net cur_ts (iph_daddr iph) (iph_saddr iph) 0 0
            (ntohs (rd16 msg 4)) (ntohs (rd16 msg 6)) (drop 8 msg)
            (word_of_int (len - 4 * int (ihl iph) - 8))) (\<lambda>(_, net). Inr (0, net)))"

definition process_ICMP_packet ::
  "wptr \<Rightarrow> bool \<Rightarrow> bool \<Rightarrow> csum \<Rightarrow> (u8 \<Rightarrow> int) \<Rightarrow> u8 \<Rightarrow> u8 \<Rightarrow> net \<Rightarrow> u32 \<Rightarrow> ipv4_hdr \<Rightarrow> u8 list \<Rightarrow> int \<Rightarrow> (int \<times> net) res" where
  "process_ICMP_packet get_wptr alloc_ok cas_ok csum tx_rc junk junk' net cur_ts iph rest len =
     (let msg = drop (4 * ihl iph) (hdr_bytes iph @ rest);
          to_me = (\<exists>e\<in>set (eths net). iph_daddr iph = ip_addr e) in
      if \<not> to_me then Inr (0, net)
      else if msg = [] then Inl OutOfBounds
      else if msg ! 0 = 8
      then andThen (process_ICMP_echo_request get_wptr alloc_ok cas_ok csum tx_rc junk junk' net cur_ts iph msg len)
             (\<lambda>(_, net). Inr (1, net))
      else Inr (1, net))"

text \<open>\<open>process_TCP\<close> stands for \<open>process_TCP_packet\<close>, which is called and defined nowhere.\<close>

definition process_packet ::
  "wptr \<Rightarrow> bool \<Rightarrow> bool \<Rightarrow> csum \<Rightarrow> (u8 \<Rightarrow> int) \<Rightarrow> u8 \<Rightarrow> u8 \<Rightarrow> int \<Rightarrow> int \<Rightarrow> (ipv4_hdr \<Rightarrow> u8 list \<Rightarrow> int \<Rightarrow> (int \<times> net) res) \<Rightarrow>
    net \<Rightarrow> int \<Rightarrow> u32 \<Rightarrow> packet \<Rightarrow> (int \<times> net) res" where
  "process_packet get_wptr alloc_ok cas_ok csum tx_rc junk junk' ERROR rx_rc process_TCP net ifidx cur_ts pkt =
     (case pkt of
        Ip_packet iph rest \<Rightarrow> process_IPv4_packet ERROR rx_rc csum net ifidx iph rest process_TCP
          (process_ICMP_packet get_wptr alloc_ok cas_ok csum tx_rc junk junk' net cur_ts)
      | Arp_packet arph \<Rightarrow> andThen (process_ARP_packet get_wptr net ifidx arph) (\<lambda>(_, net). Inr (0, net))
      | Other_packet _ \<Rightarrow> Inr (0, net))"

subsection \<open>Fields and checksums\<close>

lemma le16_rd16:
  assumes "Suc i < length bs"
  shows "le16 (rd16 bs i) = [bs ! i, bs ! Suc i]"
proof -
  have "ucast (rd16 bs i) = bs ! i" "ucast (drop_bit 8 (rd16 bs i)) = bs ! Suc i"
    by (rule bit_word_eqI; auto simp: rd16_def bit_simps dest: bit_imp_le_length)+
  then show ?thesis by (simp add: le16_def)
qed

lemma sum_le16: "unat (ucast c :: u8) + 256 * unat (ucast (drop_bit 8 c) :: u8) = unat (c :: u16)"
proof -
  have "unat c div 256 < 256" using unat_u16_less [of c] by (simp add: less_mult_imp_div_less)
  then show ?thesis by (simp add: unsigned_ucast_eq take_bit_eq_mod drop_bit_eq_div unat_div)
qed

lemma sum_nat_insert:
  "even (length pre) \<Longrightarrow> sum_nat junk (pre @ le16 c @ post) = sum_nat junk (pre @ le16 0 @ post) + unat c"
  using sum_le16 [of c] by (simp add: sum_nat_append le16_def)

text \<open>A message that carries its own checksum sums up to zero.\<close>

lemma ICMP_check_sum_self:
  assumes "even (length pre)" "length (pre @ le16 0 @ post) = n" "n < 65536"
    and ck: "ICMP_check_sum junk (pre @ le16 0 @ post) (int n) = Inr ck"
  shows "ICMP_check_sum junk (pre @ le16 ck @ post) (int n) = Inr 0"
proof -
  have l: "length (pre @ le16 d @ post) = n" for d using assms(2) by simp
  have u: "unat (sum_words junk 0 (pre @ le16 d @ post)) = sum_nat junk (pre @ le16 d @ post)" for d
    using sum_nat_bound [of junk "pre @ le16 d @ post"] l [of d] assms(3)
    by (simp add: sum_words_of_nat unat_of_nat)
  define x where "x = sum_nat junk (pre @ le16 0 @ post)"
  have f: "fold_sum (sum_words junk 0 (pre @ le16 0 @ post)) = ck"
    using ck l [of 0] by (simp add: ICMP_check_sum_def)
  have c: "unat ck = 65535 - fold_nat x"
    using unat_fold_sum [of "sum_words junk 0 (pre @ le16 0 @ post)"] unfolding f u x_def by simp
  have s: "sum_nat junk (pre @ le16 ck @ post) = x + unat ck" unfolding x_def by (rule sum_nat_insert [OF assms(1)])
  have "0 < x + unat ck" 
  proof (cases "x = 0")
    case True
    then show ?thesis using c by (simp add: fold_nat_def)
  qed simp
  then have "unat (fold_sum (sum_words junk 0 (pre @ le16 ck @ post))) = 0"
    unfolding unat_fold_sum u s using fold_complement [OF c] by simp
  then show ?thesis using l [of ck] by (simp add: ICMP_check_sum_def unat_eq_zero)
qed

lemma sum_words_even: "even (length bs) \<Longrightarrow> sum_words junk acc bs = sum_words 0 acc bs"
  by (induction "0 :: u8" acc bs rule: sum_words.induct) auto

lemma ICMP_check_sum_even:
  "even n \<Longrightarrow> n \<le> length bs \<Longrightarrow> ICMP_check_sum j bs (int n) = ICMP_check_sum k bs (int n)"
  using sum_words_even [of "take n bs" j] sum_words_even [of "take n bs" k] by (simp add: ICMP_check_sum_def)

subsection \<open>Output that finds its way\<close>

text \<open>The length of the frame is below that of its headers exactly when it wraps around.\<close>

lemma length_fits: "unat payloadlen < 65502 \<Longrightarrow> unat (34 + payloadlen :: u16) = 34 + unat payloadlen"
  by (subst unat_add_no_wrap) simp_all

lemma length_wraps: "\<not> unat payloadlen < 65502 \<Longrightarrow> unat (34 + payloadlen :: u16) < 34"
proof -
  assume "\<not> unat payloadlen < 65502"
  then have e: "34 + unat payloadlen = 65536 + (unat payloadlen - 65502)" and l: "unat payloadlen - 65502 < 34"
    using unat_u16_less [of payloadlen] by linarith+
  have "(65536 + (unat payloadlen - 65502)) mod 65536 < 34" using l by (subst mod_add_self1) simp
  then show ?thesis unfolding e [symmetric] by (simp add: unat_word_ariths)
qed

lemma output_reaches:
  assumes "get_output_interface net daddr = Inr (nif, ext)" "get_destination_HW_addr net daddr ext = Some hw"
    and "at (nif_to_eidx net) nif = Inr eidx" "at (eths net) eidx = Inr out" "get_wptr eidx (34 + payloadlen)"
  shows "IP_output_standalone get_wptr a c csum tx_rc net ts proto ident saddr daddr payloadlen =
     (if unat payloadlen < 65502 then Inr (Some (\<lambda>rest.
       \<lparr>fr_eidx = eidx, h_dest = hw, h_source = haddr out, h_proto = htons ETH_P_IP,
        fr_body = Ip_packet (ip_header csum tx_rc proto ident saddr daddr payloadlen) rest\<rparr>), net)
      else Inl OutOfBounds)"
proof -
  have c: "payloadlen + 34 = (34 :: u16) + payloadlen" by simp
  show ?thesis
    using assms length_wraps [of payloadlen] length_fits [of payloadlen]
    by (auto simp: c IP_output_standalone_def ethernet_output_def at_def split: if_splits)
qed

text \<open>What is documented of the checksum of a header: it makes the header verify.\<close>

definition csum_ok :: "csum \<Rightarrow> bool" where
  "csum_ok csum \<longleftrightarrow>
     (\<forall>h. csum (hdr_bytes (h\<lparr>iph_check := csum (hdr_bytes (h\<lparr>iph_check := 0\<rparr>))\<rparr>)) = 0)"

lemma ip_header_fields:
  "ihl (ip_header csum tx_rc p i s d n) = 5" "version (ip_header csum tx_rc p i s d n) = 4"
  "ntohs (tot_len (ip_header csum tx_rc p i s d n)) = 20 + n" "protocol (ip_header csum tx_rc p i s d n) = p"
  "iph_saddr (ip_header csum tx_rc p i s d n) = s" "iph_daddr (ip_header csum tx_rc p i s d n) = d"
  by (simp_all add: ip_header_def Let_def)

lemma ip_header_verifies:
  assumes "csum_ok csum" "p = 6 \<or> p = 1 \<longrightarrow> tx_rc p = - 1"
  shows "csum (hdr_bytes (ip_header csum tx_rc p i s d n)) = 0"
proof -
  let ?h = "\<lparr>ihl = 5, version = 4, tos = 0, tot_len = htons (20 + n), ip_id = htons i,
    frag_off = htons 0x4000, ttl = 64, protocol = p, iph_check = 0, iph_saddr = s, iph_daddr = d\<rparr>"
  have "ip_header csum tx_rc p i s d n = ?h\<lparr>iph_check := csum (hdr_bytes (?h\<lparr>iph_check := 0\<rparr>))\<rparr>"
    using assms(2) by (simp add: ip_header_def Let_def)
  then show ?thesis using assms(1) unfolding csum_ok_def by metis
qed

lemma frame_length: "unat (20 + n :: u16) = 20 + unat n" if "20 + unat n < 65536"
  using that by (subst unat_add_no_wrap) simp_all

text \<open>The Internet checksum of \<open>src/icmp.c\<close> is one routine of this kind.\<close>

definition inet_csum :: csum where
  "inet_csum bs = fold_sum (sum_words 0 0 bs)"

lemma inet_csum_ok: "csum_ok inet_csum"
  unfolding csum_ok_def
proof
  fix h :: ipv4_hdr
  let ?pre = "[word_of_nat (ihl h mod 16 + 16 * (version h mod 16)), tos h] @ le16 (tot_len h) @ le16 (ip_id h) @
     le16 (frag_off h) @ [ttl h, protocol h]"
  let ?post = "le32 (iph_saddr h) @ le32 (iph_daddr h)"
  have b: "hdr_bytes (h\<lparr>iph_check := c\<rparr>) = ?pre @ le16 c @ ?post" for c by (simp add: hdr_bytes_def)
  have e: "ICMP_check_sum 0 (?pre @ le16 d @ ?post) (int 20) = Inr (inet_csum (?pre @ le16 d @ ?post))" for d
    by (simp add: ICMP_check_sum_def inet_csum_def)
  have "ICMP_check_sum 0 (?pre @ le16 (inet_csum (?pre @ le16 0 @ ?post)) @ ?post) (int 20) = Inr 0"
    by (rule ICMP_check_sum_self [OF _ _ _ e]) simp_all
  then show "inet_csum (hdr_bytes (h\<lparr>iph_check := inet_csum (hdr_bytes (h\<lparr>iph_check := 0\<rparr>))\<rparr>)) = 0"
    unfolding b e by simp
qed

subsection \<open>Properties\<close>

text \<open>
  \<open>get_output_interface\<close> uses the first route of the table whose masked address matches: its
  interface when its prefix is positive, and the gateway, if there is one, when it is the default
  route; without a matching route or gateway the assertion ends the process. A longer prefix
  further down is never looked at, whatever the comment on longest prefix matching says.
\<close>

theorem output_interface_first_match:
  assumes "\<forall>r\<in>set before. daddr AND rt_mask r \<noteq> rt_masked r" "daddr AND rt_mask r = rt_masked r"
  shows "(routes net = before @ r # rest \<longrightarrow> get_output_interface net daddr =
      (if rt_prefix r > 0 then (if rt_nif r < 0 then Inl AssertFailed else Inr (rt_nif r, 0))
       else case gateway net of
         Some (_, nif) \<Rightarrow> if nif < 0 then Inl AssertFailed else Inr (nif, 1)
       | None \<Rightarrow> Inl AssertFailed)) \<and>
    (routes net = before \<longrightarrow> get_output_interface net daddr = Inl AssertFailed)"
proof (intro conjI)
  have a: "route_loop gw daddr (before @ rs) = route_loop gw daddr rs" for gw rs
    using assms(1) by (induction before) auto
  show "routes net = before @ r # rest \<longrightarrow> get_output_interface net daddr =
      (if rt_prefix r > 0 then (if rt_nif r < 0 then Inl AssertFailed else Inr (rt_nif r, 0))
       else case gateway net of
         Some (_, nif) \<Rightarrow> if nif < 0 then Inl AssertFailed else Inr (nif, 1)
       | None \<Rightarrow> Inl AssertFailed)"
    using assms(2) by (auto simp: get_output_interface_def a c_assert_def split: option.splits)
  show "routes net = before \<longrightarrow> get_output_interface net daddr = Inl AssertFailed"
    using a [of _ "[]"] by (auto simp: get_output_interface_def c_assert_def)
qed

lemma output_interface_first_match_witness:
  "get_output_interface ((one_eth [] 0)\<lparr>routes := [\<lparr>rt_mask = 0xFF, rt_masked = 10, rt_prefix = 8, rt_nif = 3\<rparr>,
      \<lparr>rt_mask = 0xFFFF, rt_masked = 0x010A, rt_prefix = 16, rt_nif = 5\<rparr>]\<rparr>) 0x0101010A = Inr (3, 0)"
  using output_interface_first_match [of "[]" "0x0101010A" "\<lparr>rt_mask = 0xFF, rt_masked = 10, rt_prefix = 8, rt_nif = 3\<rparr>"]
  by simp

text \<open>
  C36: \<open>IP_output_standalone\<close> starts packets for payloads of less than 65502 bytes only: the frame
  of a longer one has no buffer of its length, which \<open>get_wptr\<close> takes as a \<open>uint16_t\<close>. A TCP or
  ICMP packet that it started with the software checksum is accepted by \<open>process_IPv4_packet\<close> on
  the interface with the destination address and handed to the handler of its protocol with its
  payload and its length of 20 bytes more, for every checksum routine that makes headers verify.
\<close>

theorem ip_output_delivered:
  assumes "csum_ok csum" "tx_rc proto = - 1" "proto = 6 \<or> proto = 1"
    and out: "IP_output_standalone get_wptr a c csum tx_rc net ts proto ident saddr daddr payloadlen = Inr (Some f, net')"
    and eth: "at (eths dst) ifidx = Inr eth" "ip_addr eth = daddr"
  shows "unat payloadlen < 65502 \<and>
    (\<exists>h. fr_body (f rest) = Ip_packet h rest \<and> iph_saddr h = saddr \<and> iph_daddr h = daddr \<and>
      process_IPv4_packet ERROR (- 1) csum dst ifidx h rest tcp icmp =
        (if proto = 6 then tcp else icmp) h rest (20 + int (unat payloadlen)))"
proof -
  let ?h = "ip_header csum tx_rc proto ident saddr daddr payloadlen"
  have "\<not> unat (payloadlen + 34) < 34" and b: "fr_body (f rest) = Ip_packet ?h rest"
    using out by (auto simp: IP_output_standalone_def andThen_Inr_iff ethernet_output_def split: option.splits if_splits prod.splits)
  moreover have "payloadlen + 34 = 34 + payloadlen" by simp
  ultimately have s: "unat payloadlen < 65502" using length_wraps [of payloadlen] by metis
  have l: "unat (ntohs (tot_len ?h)) = 20 + unat payloadlen"
    using frame_length [of payloadlen] s by (simp add: ip_header_fields)
  have v: "csum (take (4 * ihl ?h) (hdr_bytes ?h @ rest)) = 0"
    using ip_header_verifies [of csum proto tx_rc ident saddr daddr payloadlen] assms(1,2) by (simp add: ip_header_fields)
  have "process_IPv4_packet ERROR (- 1) csum dst ifidx ?h rest tcp icmp =
      (if proto = 6 then tcp else icmp) ?h rest (20 + int (unat payloadlen))"
    unfolding process_IPv4_packet_def Let_def l using v eth assms(3) by (auto simp: ip_header_fields)
  then show ?thesis using b s by (auto simp: ip_header_fields)
qed

text \<open>A host that knows the hardware address of one neighbour, for the examples.\<close>

definition lan_host :: net where
  "lan_host = one_eth [\<lparr>prefix = 32, ae_ip = 0x0900000A, ip_mask = - 1, ip_masked = 0x0900000A,
     ae_haddr = [2, 0, 0, 0, 0, 9], ae_flag = 1\<rparr>] 1"

lemma lan_host_output:
  "get_output_interface lan_host 0x0900000A = Inr (0, 0)"
  "get_destination_HW_addr lan_host 0x0900000A 0 = Some [2, 0, 0, 0, 0, 9]"
  "at (nif_to_eidx lan_host) 0 = Inr 0" "at (eths lan_host) 0 = Inr \<lparr>ip_addr = 0x0100000A, haddr = [2, 0, 0, 0, 0, 1], ifindex = 0\<rparr>"
  by (simp_all add: lan_host_def one_eth_def get_output_interface_def get_destination_HW_addr_def at_def)

lemma lan_host_sends:
  "unat n < 65502 \<Longrightarrow>
   \<exists>f. IP_output_standalone (\<lambda>i l. True) True True csum tx_rc lan_host ts proto ident saddr 0x0900000A n = Inr (Some f, lan_host)"
  using output_reaches [OF lan_host_output, of "\<lambda>i l. True"] by simp

lemma ip_output_delivered_witness:
  "\<exists>f h. IP_output_standalone (\<lambda>i l. True) True True inet_csum (\<lambda>p. - 1) lan_host 0 1 7 0x0100000A 0x0900000A 12 = Inr (Some f, lan_host) \<and>
     fr_body (f (replicate 12 0)) = Ip_packet h (replicate 12 0) \<and>
     process_IPv4_packet 1 (- 1) inet_csum (lan_host\<lparr>eths := [\<lparr>ip_addr = 0x0900000A, haddr = [2, 0, 0, 0, 0, 9], ifindex = 0\<rparr>]\<rparr>) 0 h
       (replicate 12 0) (\<lambda>h b n. Inr (0, lan_host)) (\<lambda>h b n. Inr (n, lan_host)) = Inr (32, lan_host)"
proof -
  let ?dst = "lan_host\<lparr>eths := [\<lparr>ip_addr = 0x0900000A, haddr = [2, 0, 0, 0, 0, 9], ifindex = 0\<rparr>]\<rparr>"
  obtain f where f: "IP_output_standalone (\<lambda>i l. True) True True inet_csum (\<lambda>p. - 1) lan_host 0 1 7 0x0100000A 0x0900000A 12 = Inr (Some f, lan_host)"
    using lan_host_sends [of 12] by fastforce
  have e: "at (eths ?dst) 0 = Inr \<lparr>ip_addr = 0x0900000A, haddr = [2, 0, 0, 0, 0, 9], ifindex = 0\<rparr>" by (simp add: at_def)
  show ?thesis
    using f ip_output_delivered [OF inet_csum_ok _ _ f e, of "replicate 12 0" 1 "\<lambda>h b n. Inr (0, lan_host)" "\<lambda>h b n. Inr (n, lan_host)"]
    by (auto simp del: replicate.simps)
qed

text \<open>Without an entry for the destination the packet waits for a request that is never sent.\<close>

lemma output_unresolved:
  assumes "get_output_interface net daddr = Inr (nif, ext)" "get_destination_HW_addr net daddr ext = None"
    and "working_list net = []"
  shows "IP_output_standalone get_wptr True True csum tx_rc net ts proto ident saddr daddr n = Inl NoReturn"
  using assms by (simp add: IP_output_standalone_def request_ARP_def)

subsection \<open>Echo requests\<close>

lemma echo_reply_sent:
  assumes ck: "ICMP_check_sum junk msg (int n) = Inr 0" and n: "8 \<le> n" "n < 65502" "n \<le> length msg" "ihl h = 5"
    and route: "get_output_interface net (iph_saddr h) = Inr (nif, ext)" "get_destination_HW_addr net (iph_saddr h) ext = Some hw"
      "at (nif_to_eidx net) nif = Inr eidx" "at (eths net) eidx = Inr out" "get_wptr eidx (34 + word_of_nat n)"
  shows "\<exists>ck. process_ICMP_echo_request get_wptr a c csum tx_rc junk junk' net ts h msg (20 + int n) =
      Inr (0, send net \<lparr>fr_eidx = eidx, h_dest = hw, h_source = haddr out, h_proto = htons ETH_P_IP,
        fr_body = Ip_packet (ip_header csum tx_rc 1 0 (iph_daddr h) (iph_saddr h) (word_of_nat n))
          ([0, 0] @ le16 ck @ drop 4 (take n msg))\<rparr>) \<and>
     ICMP_check_sum junk' ([0, 0] @ le16 ck @ drop 4 (take n msg)) (int n) = Inr 0"
proof -
  define len :: u16 where "len = word_of_int (int n - 8)"
  have i: "20 + int n - 4 * int (ihl h) = int n" using n(4) by simp
  have "len = word_of_nat (n - 8)" using n(1) by (simp add: len_def of_nat_diff)
  then have u: "unat len = n - 8" using n(2) by (simp only: unat_of_nat) simp
  have e8: "8 + len = word_of_nat n" by (simp add: len_def)
  have un: "unat (word_of_nat n :: u16) = n" using n(2) by (simp add: unat_of_nat)
  let ?tail = "le16 (rd16 msg 4) @ le16 (rd16 msg 6) @ take (n - 8) (drop 8 msg)"
  have d: "drop 4 (take n msg) = ?tail"
  proof -
    have "drop 4 (take n msg) = msg ! 4 # msg ! 5 # msg ! 6 # msg ! 7 # drop 8 (take n msg)"
      using n(1,3) Cons_nth_drop_Suc [of 4 "take n msg"] Cons_nth_drop_Suc [of 5 "take n msg"]
        Cons_nth_drop_Suc [of 6 "take n msg"] Cons_nth_drop_Suc [of 7 "take n msg"] by simp
    then show ?thesis using n(1,3) le16_rd16 [of 4 msg] le16_rd16 [of 6 msg] by (simp add: drop_take)
  qed
  have t: "length ?tail = n - 4" using n(1,3) by simp
  obtain ck' where c: "ICMP_check_sum junk' ([0, 0] @ le16 0 @ ?tail) (int n) = Inr ck'"
  proof -
    have l: "nat (int n) \<le> length ([0, 0] @ le16 0 @ ?tail)" using n(1) t by simp
    have "\<not> int n < 0" by simp
    then show thesis using that unfolding ICMP_check_sum_def if_P [OF l] by simp
  qed
  then have v: "ICMP_check_sum junk' ([0, 0] @ le16 ck' @ ?tail) (int n) = Inr 0"
    using t n(1,2) by (intro ICMP_check_sum_self) simp_all
  have "ICMP_output get_wptr a c csum tx_rc junk' net ts (iph_daddr h) (iph_saddr h) 0 0
      (ntohs (rd16 msg 4)) (ntohs (rd16 msg 6)) (drop 8 msg) len =
    Inr (0, send net \<lparr>fr_eidx = eidx, h_dest = hw, h_source = haddr out, h_proto = htons ETH_P_IP,
        fr_body = Ip_packet (ip_header csum tx_rc 1 0 (iph_daddr h) (iph_saddr h) (word_of_nat n)) ([0, 0] @ le16 ck' @ ?tail)\<rparr>)"
    using n(1,3) c
    by (simp add: ICMP_output_def e8 n(2) output_reaches [where get_wptr = get_wptr, OF route] u un Let_def)
  then show ?thesis
    using ck n v unfolding d process_ICMP_echo_request_def i len_def [symmetric] by (intro exI [of _ ck']) simp
qed

text \<open>A request of 65502 bytes or more gets a buffer that is shorter than the headers of the answer.\<close>

lemma echo_reply_overflow:
  assumes ck: "ICMP_check_sum junk msg (int n) = Inr 0" and n: "65502 \<le> n" "n < 65516" "n \<le> length msg" "ihl h = 5"
    and route: "get_output_interface net (iph_saddr h) = Inr (nif, ext)" "get_destination_HW_addr net (iph_saddr h) ext = Some hw"
      "at (nif_to_eidx net) nif = Inr eidx" "at (eths net) eidx = Inr out" "get_wptr eidx (34 + word_of_nat n)"
  shows "process_ICMP_echo_request get_wptr a c csum tx_rc junk junk' net ts h msg (20 + int n) = Inl OutOfBounds"
proof -
  have i: "20 + int n - 4 * int (ihl h) = int n" using n(4) by simp
  have e8: "8 + (word_of_int (int n - 8) :: u16) = word_of_nat n" by simp
  have un: "\<not> unat (word_of_nat n :: u16) < 65502" using n(1,2) by (simp add: unat_of_nat)
  have "\<not> length msg < 8" using n(1,3) by simp
  then show ?thesis
    using ck un unfolding process_ICMP_echo_request_def i
    by (simp add: ICMP_output_def e8 output_reaches [where get_wptr = get_wptr, OF route])
qed

text \<open>
  C11: Ping. A host that receives an IPv4 packet for one of its addresses carrying an echo request
  of \<open>n\<close> bytes with correct checksums, and that has a route, a hardware address and a buffer for
  the answer: for \<open>n\<close> below 65502 it sends exactly one frame, an IP packet to the sender's hardware
  and IP address with an echo reply of the same identifier, sequence number and data, whose
  checksum verifies (for odd \<open>n\<close> with the byte next to the last one as it was in the computation).
  From 65502 bytes on the length of the frame does not fit the argument of \<open>get_wptr\<close>, and the
  headers of the answer are written behind the buffer.
\<close>

theorem ping_answered:
  assumes hdr: "ihl h = 5" "version h = 4" "protocol h = 1" "ntohs (tot_len h) = 20 + word_of_nat n" "csum (hdr_bytes h) = 0"
    and me: "at (eths net) ifidx = Inr me" "iph_daddr h = ip_addr me"
    and n: "8 \<le> n" "n < 65516" "n \<le> length msg" "msg ! 0 = 8" "ICMP_check_sum junk msg (int n) = Inr 0"
    and route: "get_output_interface net (iph_saddr h) = Inr (nif, ext)" "get_destination_HW_addr net (iph_saddr h) ext = Some hw"
      "at (nif_to_eidx net) nif = Inr eidx" "at (eths net) eidx = Inr out" "get_wptr eidx (34 + word_of_nat n)"
  shows "if n < 65502 then \<exists>ck rh.
      process_packet get_wptr a c csum tx_rc junk junk' ERROR (- 1) tcp net ifidx ts (Ip_packet h msg) =
        Inr (1, send net \<lparr>fr_eidx = eidx, h_dest = hw, h_source = haddr out, h_proto = htons ETH_P_IP,
          fr_body = Ip_packet rh ([0, 0] @ le16 ck @ drop 4 (take n msg))\<rparr>) \<and>
      iph_saddr rh = iph_daddr h \<and> iph_daddr rh = iph_saddr h \<and> protocol rh = 1 \<and>
      (\<forall>byte. even n \<or> byte = junk' \<longrightarrow> ICMP_check_sum byte ([0, 0] @ le16 ck @ drop 4 (take n msg)) (int n) = Inr 0)
    else process_packet get_wptr a c csum tx_rc junk junk' ERROR (- 1) tcp net ifidx ts (Ip_packet h msg) =
        Inl OutOfBounds"
proof -
  let ?run = "process_packet get_wptr a c csum tx_rc junk junk' ERROR (- 1) tcp net ifidx ts (Ip_packet h msg)"
  have l: "unat (ntohs (tot_len h)) = 20 + n"
    using frame_length [of "word_of_nat n"] n(2) by (simp add: hdr(4) unat_of_nat)
  have "\<exists>e\<in>set (eths net). iph_daddr h = ip_addr e"
    using me by (auto simp: at_def split: if_splits)
  moreover have "msg \<noteq> []" using n(1,3) by auto
  ultimately have r: "process_ICMP_packet get_wptr a c csum tx_rc junk junk' net ts h msg (20 + int n) =
      andThen (process_ICMP_echo_request get_wptr a c csum tx_rc junk junk' net ts h msg (20 + int n)) (\<lambda>(_, net). Inr (1, net))"
    using n(4) by (simp add: process_ICMP_packet_def hdr(1))
  have "?run = process_IPv4_packet ERROR (- 1) csum net ifidx h msg tcp (process_ICMP_packet get_wptr a c csum tx_rc junk junk' net ts)"
    by (simp add: process_packet_def)
  also have "\<dots> = process_ICMP_packet get_wptr a c csum tx_rc junk junk' net ts h msg (20 + int n)"
    using me hdr(1-3,5) unfolding process_IPv4_packet_def Let_def l by simp
  finally have run: "?run = \<dots>" .
  show ?thesis
  proof (cases "n < 65502")
    case True
    obtain ck where e: "process_ICMP_echo_request get_wptr a c csum tx_rc junk junk' net ts h msg (20 + int n) =
        Inr (0, send net \<lparr>fr_eidx = eidx, h_dest = hw, h_source = haddr out, h_proto = htons ETH_P_IP,
          fr_body = Ip_packet (ip_header csum tx_rc 1 0 (iph_daddr h) (iph_saddr h) (word_of_nat n))
            ([0, 0] @ le16 ck @ drop 4 (take n msg))\<rparr>)"
      "ICMP_check_sum junk' ([0, 0] @ le16 ck @ drop 4 (take n msg)) (int n) = Inr 0"
      using echo_reply_sent [where get_wptr = get_wptr, OF n(5,1) True n(3) hdr(1) route] by blast
    have "ICMP_check_sum byte ([0, 0] @ le16 ck @ drop 4 (take n msg)) (int n) = Inr 0"
      if "even n \<or> byte = junk'" for byte
    proof (cases "even n")
      case True
      moreover have "n \<le> length ([0, 0] @ le16 ck @ drop 4 (take n msg))" using n(1,3) by simp
      ultimately show ?thesis using ICMP_check_sum_even e(2) by metis
    qed (use that e(2) in simp)
    then show ?thesis using True e(1) unfolding run r if_P [OF True]
      by (intro exI [of _ ck] exI [of _ "ip_header csum tx_rc 1 0 (iph_daddr h) (iph_saddr h) (word_of_nat n)"])
        (simp add: ip_header_fields)
  next
    case False
    then show ?thesis
      using echo_reply_overflow [where get_wptr = get_wptr, OF n(5) _ n(2,3) hdr(1) route] unfolding run r by simp
  qed
qed

definition ping_hdr :: ipv4_hdr where
  "ping_hdr =
     (let h = \<lparr>ihl = 5, version = 4, tos = 0, tot_len = htons 30, ip_id = 0, frag_off = 0, ttl = 64, protocol = 1,
               iph_check = 0, iph_saddr = 0x0900000A, iph_daddr = 0x0100000A\<rparr>
      in h\<lparr>iph_check := inet_csum (hdr_bytes h)\<rparr>)"

lemma ping_answered_witness:
  "\<exists>ck f. process_packet (\<lambda>i l. True) True True inet_csum (\<lambda>p. - 1) 0 0 1 (- 1) (\<lambda>h b n. Inr (0, lan_host)) lan_host 0 0
      (Ip_packet ping_hdr ([8, 0, 0xB2, 0xF5, 1, 0, 2, 0] @ [0x42, 0x0A])) = Inr (1, send lan_host f) \<and>
    h_dest f = [2, 0, 0, 0, 0, 9] \<and> (\<exists>rh. fr_body f = Ip_packet rh ([0, 0] @ le16 ck @ [1, 0, 2, 0, 0x42, 0x0A]))"
proof -
  let ?h = "\<lparr>ihl = 5, version = 4, tos = 0, tot_len = htons 30, ip_id = 0, frag_off = 0, ttl = 64, protocol = 1,
    iph_check = 0, iph_saddr = 0x0900000A, iph_daddr = 0x0100000A\<rparr>"
  have "ping_hdr = ?h\<lparr>iph_check := inet_csum (hdr_bytes (?h\<lparr>iph_check := 0\<rparr>))\<rparr>"
    by (simp add: ping_hdr_def Let_def)
  then have v: "inet_csum (hdr_bytes ping_hdr) = 0"
    using inet_csum_ok [unfolded csum_ok_def, rule_format, of ?h] by (simp only:)
  have ck: "ICMP_check_sum 0 [8, 0, 0xB2, 0xF5, 1, 0, 2, 0, 0x42, 0x0A] (int 10) = Inr 0"
    by code_simp
  have hdr: "ihl ping_hdr = 5" "version ping_hdr = 4" "protocol ping_hdr = 1" "iph_saddr ping_hdr = 0x0900000A"
    "ntohs (tot_len ping_hdr) = 20 + word_of_nat 10" "iph_daddr ping_hdr = 0x0100000A"
    by (simp_all add: ping_hdr_def Let_def)
  note out = lan_host_output [folded hdr(4)]
  obtain ck rh where "process_packet (\<lambda>i l. True) True True inet_csum (\<lambda>p. - 1) 0 0 1 (- 1) (\<lambda>h b n. Inr (0, lan_host)) lan_host 0 0
      (Ip_packet ping_hdr [8, 0, 0xB2, 0xF5, 1, 0, 2, 0, 0x42, 0x0A]) = Inr (1, send lan_host
      \<lparr>fr_eidx = 0, h_dest = [2, 0, 0, 0, 0, 9], h_source = haddr \<lparr>ip_addr = 0x0100000A, haddr = [2, 0, 0, 0, 0, 1], ifindex = 0\<rparr>,
        h_proto = htons ETH_P_IP, fr_body = Ip_packet rh ([0, 0] @ le16 ck @ drop 4 (take 10 [8, 0, 0xB2, 0xF5, 1, 0, 2, 0, 0x42, 0x0A]))\<rparr>)"
    using ping_answered [where get_wptr = "\<lambda>i l. True" and csum = inet_csum, OF hdr(1-3,5) v lan_host_output(4) _ _ _ _ _ ck out(1,2) lan_host_output(3,4),
        of True True "\<lambda>p. - 1" 0 1 "\<lambda>h b n. Inr (0, lan_host)" 0]
    by (auto simp: hdr(6))
  then show ?thesis by (intro exI conjI) auto
qed

text \<open>
  An echo request whose IP length leaves less than the eight bytes of its header behind the IP
  header, but whose checksum verifies, makes the host copy up to 65535 bytes from behind the
  packet: the length of the data is computed in 16 bits and wraps around. The access is out of
  bounds whenever the packet buffer is shorter than that.
\<close>

theorem short_echo_overreads:
  assumes "ihl h = 5" "n < 8" "length msg < 65536 - 8 + n" "8 \<le> length msg" "ICMP_check_sum junk msg (int n) = Inr 0"
    and route: "get_output_interface net (iph_saddr h) = Inr (nif, ext)" "get_destination_HW_addr net (iph_saddr h) ext = Some hw"
      "at (nif_to_eidx net) nif = Inr eidx" "at (eths net) eidx = Inr out" "get_wptr eidx (34 + word_of_nat n)"
  shows "process_ICMP_echo_request get_wptr a c csum tx_rc junk junk' net ts h msg (20 + int n) = Inl OutOfBounds"
proof -
  define len :: u16 where "len = word_of_int (int n - 8)"
  have i: "20 + int n - 4 * int (ihl h) = int n" using assms(1) by simp
  have e: "len = word_of_nat n - 8" by (simp add: len_def)
  have un: "unat (word_of_nat n :: u16) = n" using assms(2) by (simp add: unat_of_nat)
  have u: "unat len = 65536 + n - 8"
    unfolding e using assms(2) by (simp add: unat_sub_eq un)
  have p: "8 + len = word_of_nat n" by (simp add: e)
  have "ICMP_output get_wptr a c csum tx_rc junk' net ts (iph_daddr h) (iph_saddr h) 0 0
      (ntohs (rd16 msg 4)) (ntohs (rd16 msg 6)) (drop 8 msg) len = Inl OutOfBounds"
    using assms(2,3) by (simp add: ICMP_output_def p output_reaches [where get_wptr = get_wptr, OF route] u un)
  then show ?thesis
    using assms(4,5) unfolding process_ICMP_echo_request_def i len_def [symmetric] by simp
qed

lemma short_echo_overreads_witness:
  "process_ICMP_echo_request (\<lambda>i l. True) True True inet_csum (\<lambda>p. - 1) 0 0 lan_host 0 ping_hdr
     [8, 0, 0xF7, 0xFF, 0, 0, 0, 0, 0, 0] (20 + int 4) = Inl OutOfBounds"
proof -
  have ck: "ICMP_check_sum 0 [8, 0, 0xF7, 0xFF, 0, 0, 0, 0, 0, 0] (int 4) = Inr 0"
    by code_simp
  show ?thesis
    using short_echo_overreads [OF _ _ _ _ ck, of ping_hdr lan_host 0 0 "[2, 0, 0, 0, 0, 9]" 0 _ "\<lambda>i l. True"] lan_host_output
    by (simp add: ping_hdr_def)
qed

end
