(* ===== verification/Queue_Lists.thy ===== *)
theory Queue_Lists
  imports Prelude
begin

text \<open>
  The intrusive lists of \<open>include/queue.h\<close> at the level of pointers. One store holds the fields of
  all heads and nodes; a pointer to a pointer (\<open>stqh_last\<close>, \<open>le_prev\<close>, \<open>tqh_last\<close>) is a location:
  the first field of a head or the next field of a node. The locales \<open>linked_list\<close> and
  \<open>linked_queue\<close> say what a kind of list promises of many lists that live in the same store; the
  four kinds of the header interpret them. The components of TCP use lists of numbers for these
  structures, which the refinement proved here justifies.

  The header does not compile as it stands: \<open>tqe_prev\<close> is the field \<open>le_prev\<close> of \<open>list_node\<close>,
  \<open>stqh_first\<close> of a node and \<open>slist_next\<close> of a head are the first word of the structure, that is the
  next and the first field, \<open>list_elm\<close> of \<open>list_insert_after\<close> is the next field, \<open>elm\<close> and \<open>head\<close>
  where they are not declared are the parameters \<open>node\<close> and \<open>list\<close>, and the two conditions whose
  parentheses do not match compare the value assigned.
\<close>

subsection \<open>The store\<close>

datatype ('h, 'n) loc = FirstOf 'h | NextOf 'n

record ('h, 'n) lstore =
  firsts :: "'h \<Rightarrow> 'n option"
  lasts :: "'h \<Rightarrow> ('h, 'n) loc"
  nexts :: "'n \<Rightarrow> 'n option"
  prevs :: "'n \<Rightarrow> ('h, 'n) loc"

fun rd_loc :: "('h, 'n) lstore \<Rightarrow> ('h, 'n) loc \<Rightarrow> 'n option" where
  "rd_loc s (FirstOf h) = firsts s h"
| "rd_loc s (NextOf n) = nexts s n"

fun wr_loc :: "('h, 'n) loc \<Rightarrow> 'n option \<Rightarrow> ('h, 'n) lstore \<Rightarrow> ('h, 'n) lstore" where
  "wr_loc (FirstOf h) v s = s\<lparr>firsts := (firsts s)(h := v)\<rparr>"
| "wr_loc (NextOf n) v s = s\<lparr>nexts := (nexts s)(n := v)\<rparr>"

abbreviation set_prev :: "'n \<Rightarrow> ('h, 'n) loc \<Rightarrow> ('h, 'n) lstore \<Rightarrow> ('h, 'n) lstore" where
  "set_prev n l s \<equiv> s\<lparr>prevs := (prevs s)(n := l)\<rparr>"

abbreviation set_last :: "'h \<Rightarrow> ('h, 'n) loc \<Rightarrow> ('h, 'n) lstore \<Rightarrow> ('h, 'n) lstore" where
  "set_last h l s \<equiv> s\<lparr>lasts := (lasts s)(h := l)\<rparr>"

text \<open>Reading a field of the node behind a pointer.\<close>

definition next_at :: "('h, 'n) lstore \<Rightarrow> 'n option \<Rightarrow> 'n option res" where
  "next_at s p = (case p of None \<Rightarrow> Inl NullDeref | Some n \<Rightarrow> Inr (nexts s n))"

lemma next_at_simps [simp]: "next_at s None = Inl NullDeref" "next_at s (Some n) = Inr (nexts s n)"
  by (simp_all add: next_at_def)

subsection \<open>Singly linked lists\<close>

definition slist_empty :: "'h \<Rightarrow> ('h, 'n) lstore \<Rightarrow> bool" where
  "slist_empty head s \<longleftrightarrow> firsts s head = None"

definition slist_init :: "'h \<Rightarrow> ('h, 'n) lstore \<Rightarrow> ('h, 'n) lstore" where
  "slist_init head s = wr_loc (FirstOf head) None s"

definition slist_insert_after :: "'n \<Rightarrow> 'n \<Rightarrow> ('h, 'n) lstore \<Rightarrow> ('h, 'n) lstore" where
  "slist_insert_after slistelm elm s =
     wr_loc (NextOf slistelm) (Some elm) (wr_loc (NextOf elm) (nexts s slistelm) s)"

definition slist_insert_head :: "'h \<Rightarrow> 'n \<Rightarrow> ('h, 'n) lstore \<Rightarrow> ('h, 'n) lstore" where
  "slist_insert_head head elm s =
     wr_loc (FirstOf head) (Some elm) (wr_loc (NextOf elm) (firsts s head) s)"

definition slist_remove_head :: "'h \<Rightarrow> ('h, 'n) lstore \<Rightarrow> ('h, 'n) lstore res" where
  "slist_remove_head head s =
     andThen (next_at s (firsts s head)) (\<lambda>p. Inr (wr_loc (FirstOf head) p s))"

definition slist_remove_after :: "'n \<Rightarrow> ('h, 'n) lstore \<Rightarrow> ('h, 'n) lstore res" where
  "slist_remove_after node s =
     andThen (next_at s (nexts s node)) (\<lambda>p. Inr (wr_loc (NextOf node) p s))"

text \<open>
  The search for the node before \<open>node\<close>: it dereferences null at the end of the list and does not
  return on a cycle without \<open>node\<close>.
\<close>

partial_function (option) find_before :: "('h, 'n) lstore \<Rightarrow> 'n \<Rightarrow> 'n option \<Rightarrow> 'n res option" where
  "find_before s node cur =
     (case cur of None \<Rightarrow> Some (Inl NullDeref)
      | Some c \<Rightarrow> if nexts s c = Some node then Some (Inr c) else find_before s node (nexts s c))"

definition slist_remove :: "'h \<Rightarrow> 'n \<Rightarrow> ('h, 'n) lstore \<Rightarrow> ('h, 'n) lstore res" where
  "slist_remove head node s =
     (if firsts s head = Some node then slist_remove_head head s
      else andThen (with_fuel (find_before s node (firsts s head))) (\<lambda>cur. slist_remove_after cur s))"

subsection \<open>Singly linked tail queues\<close>

definition stailq_empty :: "'h \<Rightarrow> ('h, 'n) lstore \<Rightarrow> bool" where
  "stailq_empty head s \<longleftrightarrow> firsts s head = None"

definition stailq_last :: "'h \<Rightarrow> ('h, 'n) lstore \<Rightarrow> 'n option" where
  "stailq_last head s = (if stailq_empty head s then None else rd_loc s (lasts s head))"

definition stailq_init :: "'h \<Rightarrow> ('h, 'n) lstore \<Rightarrow> ('h, 'n) lstore" where
  "stailq_init head s = set_last head (FirstOf head) (wr_loc (FirstOf head) None s)"

definition stailq_concat :: "'h \<Rightarrow> 'h \<Rightarrow> ('h, 'n) lstore \<Rightarrow> ('h, 'n) lstore" where
  "stailq_concat head1 head2 s =
     (if \<not> stailq_empty head2 s
      then stailq_init head2 (set_last head1 (lasts s head2) (wr_loc (lasts s head1) (firsts s head2) s))
      else s)"

definition stailq_insert_after :: "'h \<Rightarrow> 'n \<Rightarrow> 'n \<Rightarrow> ('h, 'n) lstore \<Rightarrow> ('h, 'n) lstore" where
  "stailq_insert_after head tqelm elm s =
     (let nxt = nexts s tqelm;
          s = wr_loc (NextOf elm) nxt s;
          s = (if nxt = None then set_last head (NextOf elm) s else s)
      in wr_loc (NextOf tqelm) (Some elm) s)"

definition stailq_insert_head :: "'h \<Rightarrow> 'n \<Rightarrow> ('h, 'n) lstore \<Rightarrow> ('h, 'n) lstore" where
  "stailq_insert_head head elm s =
     (let nxt = firsts s head;
          s = wr_loc (NextOf elm) nxt s;
          s = (if nxt = None then set_last head (NextOf elm) s else s)
      in wr_loc (FirstOf head) (Some elm) s)"

definition stailq_insert_tail :: "'h \<Rightarrow> 'n \<Rightarrow> ('h, 'n) lstore \<Rightarrow> ('h, 'n) lstore" where
  "stailq_insert_tail head elm s =
     (let s = wr_loc (NextOf elm) None s;
          s = wr_loc (lasts s head) (Some elm) s
      in set_last head (NextOf elm) s)"

definition stailq_remove_head :: "'h \<Rightarrow> ('h, 'n) lstore \<Rightarrow> ('h, 'n) lstore res" where
  "stailq_remove_head head s =
     andThen (next_at s (firsts s head)) (\<lambda>nxt.
     let s = wr_loc (FirstOf head) nxt s
     in Inr (if nxt = None then set_last head (FirstOf head) s else s))"

definition stailq_remove_after :: "'h \<Rightarrow> 'n \<Rightarrow> ('h, 'n) lstore \<Rightarrow> ('h, 'n) lstore res" where
  "stailq_remove_after head node s =
     andThen (next_at s (nexts s node)) (\<lambda>nxt.
     let s = wr_loc (NextOf node) nxt s
     in Inr (if nxt = None then set_last head (NextOf node) s else s))"

definition stailq_remove :: "'h \<Rightarrow> 'n \<Rightarrow> ('h, 'n) lstore \<Rightarrow> ('h, 'n) lstore res" where
  "stailq_remove head node s =
     (if firsts s head = Some node then stailq_remove_head head s
      else andThen (with_fuel (find_before s node (firsts s head))) (\<lambda>cur. stailq_remove_after head cur s))"

subsection \<open>Doubly linked lists\<close>

definition list_empty :: "'h \<Rightarrow> ('h, 'n) lstore \<Rightarrow> bool" where
  "list_empty head s \<longleftrightarrow> firsts s head = None"

definition list_init :: "'h \<Rightarrow> ('h, 'n) lstore \<Rightarrow> ('h, 'n) lstore" where
  "list_init head s = wr_loc (FirstOf head) None s"

text \<open>\<open>p->le_prev = l\<close> when \<open>p\<close> is not null.\<close>

definition link_back :: "'n option \<Rightarrow> ('h, 'n) loc \<Rightarrow> ('h, 'n) lstore \<Rightarrow> ('h, 'n) lstore" where
  "link_back p l s = (case p of None \<Rightarrow> s | Some n \<Rightarrow> set_prev n l s)"

definition list_insert_after :: "'n \<Rightarrow> 'n \<Rightarrow> ('h, 'n) lstore \<Rightarrow> ('h, 'n) lstore" where
  "list_insert_after listelm elm s =
     (let nxt = nexts s listelm;
          s = link_back nxt (NextOf elm) (wr_loc (NextOf elm) nxt s)
      in set_prev elm (NextOf listelm) (wr_loc (NextOf listelm) (Some elm) s))"

definition list_insert_before :: "'n \<Rightarrow> 'n \<Rightarrow> ('h, 'n) lstore \<Rightarrow> ('h, 'n) lstore" where
  "list_insert_before listelm elm s =
     (let s = set_prev elm (prevs s listelm) s;
          s = wr_loc (NextOf elm) (Some listelm) s;
          s = wr_loc (prevs s listelm) (Some elm) s
      in set_prev listelm (NextOf elm) s)"

definition list_insert_head :: "'h \<Rightarrow> 'n \<Rightarrow> ('h, 'n) lstore \<Rightarrow> ('h, 'n) lstore" where
  "list_insert_head head elm s =
     (let nxt = firsts s head;
          s = link_back nxt (NextOf elm) (wr_loc (NextOf elm) nxt s)
      in set_prev elm (FirstOf head) (wr_loc (FirstOf head) (Some elm) s))"

definition list_remove :: "'n \<Rightarrow> ('h, 'n) lstore \<Rightarrow> ('h, 'n) lstore" where
  "list_remove elm s =
     (let s = link_back (nexts s elm) (prevs s elm) s
      in wr_loc (prevs s elm) (nexts s elm) s)"

subsection \<open>Tail queues\<close>

definition tailq_empty :: "'h \<Rightarrow> ('h, 'n) lstore \<Rightarrow> bool" where
  "tailq_empty head s \<longleftrightarrow> firsts s head = None"

text \<open>
  The macros \<open>tailq_last\<close> and \<open>tailq_prev\<close> read the second word of the structure a location lies
  in: the last field of a head, the previous field of a node.
\<close>

fun second_word :: "('h, 'n) lstore \<Rightarrow> ('h, 'n) loc \<Rightarrow> ('h, 'n) loc" where
  "second_word s (FirstOf h) = lasts s h"
| "second_word s (NextOf n) = prevs s n"

definition tailq_last :: "'h \<Rightarrow> ('h, 'n) lstore \<Rightarrow> 'n option" where
  "tailq_last head s = rd_loc s (second_word s (lasts s head))"

definition tailq_prev :: "'n \<Rightarrow> ('h, 'n) lstore \<Rightarrow> 'n option" where
  "tailq_prev elm s = rd_loc s (second_word s (prevs s elm))"

definition tailq_init :: "'h \<Rightarrow> ('h, 'n) lstore \<Rightarrow> ('h, 'n) lstore" where
  "tailq_init head s = set_last head (FirstOf head) (wr_loc (FirstOf head) None s)"

definition tailq_insert_after :: "'h \<Rightarrow> 'n \<Rightarrow> 'n \<Rightarrow> ('h, 'n) lstore \<Rightarrow> ('h, 'n) lstore" where
  "tailq_insert_after head listelm elm s =
     (let nxt = nexts s listelm;
          s = wr_loc (NextOf elm) nxt s;
          s = (case nxt of Some n \<Rightarrow> set_prev n (NextOf elm) s | None \<Rightarrow> set_last head (NextOf elm) s)
      in set_prev elm (NextOf listelm) (wr_loc (NextOf listelm) (Some elm) s))"

definition tailq_insert_before :: "'n \<Rightarrow> 'n \<Rightarrow> ('h, 'n) lstore \<Rightarrow> ('h, 'n) lstore" where
  "tailq_insert_before listelm elm s =
     (let s = set_prev elm (prevs s listelm) s;
          s = wr_loc (NextOf elm) (Some listelm) s;
          s = wr_loc (prevs s listelm) (Some elm) s
      in set_prev listelm (NextOf elm) s)"

definition tailq_insert_head :: "'h \<Rightarrow> 'n \<Rightarrow> ('h, 'n) lstore \<Rightarrow> ('h, 'n) lstore" where
  "tailq_insert_head head elm s =
     (let nxt = firsts s head;
          s = wr_loc (NextOf elm) nxt s;
          s = (case nxt of Some n \<Rightarrow> set_prev n (NextOf elm) s | None \<Rightarrow> set_last head (NextOf elm) s)
      in set_prev elm (FirstOf head) (wr_loc (FirstOf head) (Some elm) s))"

definition tailq_insert_tail :: "'h \<Rightarrow> 'n \<Rightarrow> ('h, 'n) lstore \<Rightarrow> ('h, 'n) lstore" where
  "tailq_insert_tail head elm s =
     (let s = wr_loc (NextOf elm) None s;
          s = set_prev elm (lasts s head) s;
          s = wr_loc (lasts s head) (Some elm) s
      in set_last head (NextOf elm) s)"

definition tailq_remove :: "'h \<Rightarrow> 'n \<Rightarrow> ('h, 'n) lstore \<Rightarrow> ('h, 'n) lstore" where
  "tailq_remove head elm s =
     (let s = (case nexts s elm of Some n \<Rightarrow> set_prev n (prevs s elm) s
               | None \<Rightarrow> set_last head (prevs s elm) s)
      in wr_loc (prevs s elm) (nexts s elm) s)"

subsection \<open>Paths of locations\<close>

text \<open>
  \<open>seg s l xs\<close>: the location \<open>l\<close> holds the first of \<open>xs\<close>, whose next field holds the second, and so
  on; \<open>end_loc l xs\<close> is the location after the last of them and \<open>locs l xs\<close> are the locations before.
  \<open>prev_seg s l xs\<close>: the previous field of each of \<open>xs\<close> is the location that holds it.
\<close>

fun seg :: "('h, 'n) lstore \<Rightarrow> ('h, 'n) loc \<Rightarrow> 'n list \<Rightarrow> bool" where
  "seg s l [] \<longleftrightarrow> True"
| "seg s l (x # xs) \<longleftrightarrow> rd_loc s l = Some x \<and> seg s (NextOf x) xs"

fun prev_seg :: "('h, 'n) lstore \<Rightarrow> ('h, 'n) loc \<Rightarrow> 'n list \<Rightarrow> bool" where
  "prev_seg s l [] \<longleftrightarrow> True"
| "prev_seg s l (x # xs) \<longleftrightarrow> prevs s x = l \<and> prev_seg s (NextOf x) xs"

fun end_loc :: "('h, 'n) loc \<Rightarrow> 'n list \<Rightarrow> ('h, 'n) loc" where
  "end_loc l [] = l"
| "end_loc l (x # xs) = end_loc (NextOf x) xs"

fun locs :: "('h, 'n) loc \<Rightarrow> 'n list \<Rightarrow> ('h, 'n) loc set" where
  "locs l [] = {}"
| "locs l (x # xs) = insert l (locs (NextOf x) xs)"

lemma seg_append [simp]: "seg s l (xs @ ys) \<longleftrightarrow> seg s l xs \<and> seg s (end_loc l xs) ys"
  by (induction xs arbitrary: l) auto

lemma back_append [simp]: "prev_seg s l (xs @ ys) \<longleftrightarrow> prev_seg s l xs \<and> prev_seg s (end_loc l xs) ys"
  by (induction xs arbitrary: l) auto

lemma end_loc_append [simp]: "end_loc l (xs @ ys) = end_loc (end_loc l xs) ys"
  by (induction xs arbitrary: l) auto

lemma locs_subset: "locs l xs \<subseteq> insert l (NextOf ` set xs)"
  by (induction xs arbitrary: l) fastforce+

lemma end_loc_in: "end_loc l xs \<in> insert l (NextOf ` set xs)"
  by (induction xs arbitrary: l) fastforce+

lemma end_loc_fresh: "distinct xs \<Longrightarrow> l \<notin> NextOf ` set xs \<Longrightarrow> end_loc l xs \<notin> locs l xs"
proof (induction xs arbitrary: l)
  case (Cons x xs)
  have "end_loc (NextOf x) xs \<noteq> l" using end_loc_in [of "NextOf x" xs] Cons.prems by auto
  then show ?case using Cons.IH [of "NextOf x"] Cons.prems by auto
qed simp

lemma rd_wr_loc [simp]: "rd_loc (wr_loc k v s) l = (if l = k then v else rd_loc s l)"
  by (cases k; cases l) simp_all

lemma wr_loc_fields [simp]:
  "lasts (wr_loc k v s) = lasts s" "prevs (wr_loc k v s) = prevs s"
  by (cases k; simp)+

lemma rd_loc_other [simp]:
  "rd_loc (s\<lparr>prevs := pr\<rparr>) l = rd_loc s l" "rd_loc (s\<lparr>lasts := la\<rparr>) l = rd_loc s l"
  by (cases l; simp)+

lemma nexts_wr_loc [simp]: "nexts (wr_loc k v s) n = (if k = NextOf n then v else nexts s n)"
  by (cases k) auto

lemma firsts_wr_loc [simp]: "firsts (wr_loc k v s) h = (if k = FirstOf h then v else firsts s h)"
  by (cases k) auto

declare wr_loc.simps [simp del]

lemma seg_wr [simp]: "k \<notin> locs l xs \<Longrightarrow> seg (wr_loc k v s) l xs \<longleftrightarrow> seg s l xs"
  by (induction xs arbitrary: l) auto

lemma seg_other [simp]:
  "seg (s\<lparr>prevs := pr\<rparr>) l xs \<longleftrightarrow> seg s l xs" "seg (s\<lparr>lasts := la\<rparr>) l xs \<longleftrightarrow> seg s l xs"
  by (induction xs arbitrary: l) auto

lemma back_wr [simp]: "prev_seg (wr_loc k v s) l xs \<longleftrightarrow> prev_seg s l xs"
  by (induction xs arbitrary: l) auto

lemma back_other [simp]:
  "prev_seg (s\<lparr>lasts := la\<rparr>) l xs \<longleftrightarrow> prev_seg s l xs"
  "n \<notin> set xs \<Longrightarrow> prev_seg (s\<lparr>prevs := (prevs s)(n := k)\<rparr>) l xs \<longleftrightarrow> prev_seg s l xs"
  by (induction xs arbitrary: l) auto

lemma link_back_frame [simp]:
  "rd_loc (link_back p k s) l = rd_loc s l" "seg (link_back p k s) l xs \<longleftrightarrow> seg s l xs"
  "lasts (link_back p k s) = lasts s" "nexts (link_back p k s) = nexts s" "firsts (link_back p k s) = firsts s"
  by (cases p; simp add: link_back_def)+

subsection \<open>What a store represents\<close>

definition slist_rep :: "('h, 'n) lstore \<Rightarrow> 'h \<Rightarrow> 'n list \<Rightarrow> bool" where
  "slist_rep s h xs \<longleftrightarrow>
     distinct xs \<and> seg s (FirstOf h) xs \<and> rd_loc s (end_loc (FirstOf h) xs) = None"

definition stailq_rep :: "('h, 'n) lstore \<Rightarrow> 'h \<Rightarrow> 'n list \<Rightarrow> bool" where
  "stailq_rep s h xs \<longleftrightarrow> slist_rep s h xs \<and> lasts s h = end_loc (FirstOf h) xs"

definition list_rep :: "('h, 'n) lstore \<Rightarrow> 'h \<Rightarrow> 'n list \<Rightarrow> bool" where
  "list_rep s h xs \<longleftrightarrow> slist_rep s h xs \<and> prev_seg s (FirstOf h) xs"

definition tailq_rep :: "('h, 'n) lstore \<Rightarrow> 'h \<Rightarrow> 'n list \<Rightarrow> bool" where
  "tailq_rep s h xs \<longleftrightarrow> list_rep s h xs \<and> lasts s h = end_loc (FirstOf h) xs"

text \<open>Only the head \<open>h\<close> and the nodes \<open>N\<close> differ.\<close>

definition only_at :: "'h \<Rightarrow> 'n set \<Rightarrow> ('h, 'n) lstore \<Rightarrow> ('h, 'n) lstore \<Rightarrow> bool" where
  "only_at h N s s' \<longleftrightarrow>
     (\<forall>g. g \<noteq> h \<longrightarrow> firsts s' g = firsts s g \<and> lasts s' g = lasts s g) \<and>
     (\<forall>n. n \<notin> N \<longrightarrow> nexts s' n = nexts s n \<and> prevs s' n = prevs s n)"

lemma seg_cong:
  "rd_loc s' l = rd_loc s l \<Longrightarrow> \<forall>x\<in>set xs. nexts s' x = nexts s x \<Longrightarrow> seg s' l xs \<longleftrightarrow> seg s l xs"
  by (induction xs arbitrary: l) auto

lemma back_cong: "\<forall>x\<in>set xs. prevs s' x = prevs s x \<Longrightarrow> prev_seg s' l xs \<longleftrightarrow> prev_seg s l xs"
  by (induction xs arbitrary: l) auto

lemma end_cong:
  "rd_loc s' l = rd_loc s l \<Longrightarrow> \<forall>x\<in>set xs. nexts s' x = nexts s x \<Longrightarrow>
   rd_loc s' (end_loc l xs) = rd_loc s (end_loc l xs)"
  by (induction xs arbitrary: l) auto

lemma only_at_frame:
  assumes "only_at h N s s'" "g \<noteq> h" "set ys \<inter> N = {}"
  shows "slist_rep s' g ys \<longleftrightarrow> slist_rep s g ys" "stailq_rep s' g ys \<longleftrightarrow> stailq_rep s g ys"
    "list_rep s' g ys \<longleftrightarrow> list_rep s g ys" "tailq_rep s' g ys \<longleftrightarrow> tailq_rep s g ys"
proof -
  have n: "\<forall>x\<in>set ys. nexts s' x = nexts s x" "\<forall>x\<in>set ys. prevs s' x = prevs s x"
    and f: "rd_loc s' (FirstOf g) = rd_loc s (FirstOf g)" "lasts s' g = lasts s g"
    using assms by (auto simp: only_at_def)
  show a: "slist_rep s' g ys \<longleftrightarrow> slist_rep s g ys"
    unfolding slist_rep_def seg_cong [OF f(1) n(1)] end_cong [OF f(1) n(1)] ..
  show "stailq_rep s' g ys \<longleftrightarrow> stailq_rep s g ys" unfolding stailq_rep_def a f(2) ..
  show b: "list_rep s' g ys \<longleftrightarrow> list_rep s g ys" unfolding list_rep_def a back_cong [OF n(2)] ..
  show "tailq_rep s' g ys \<longleftrightarrow> tailq_rep s g ys" unfolding tailq_rep_def b f(2) ..
qed

subsection \<open>The contracts\<close>

text \<open>
  Lists of one kind in one store. \<open>push\<close> puts a node that is in no list in front, \<open>del\<close> takes a
  node out; both leave every list of other nodes at other heads alone.
\<close>

locale linked_list =
  fixes rep :: "'s \<Rightarrow> 'h \<Rightarrow> 'n list \<Rightarrow> bool"
    and push :: "'h \<Rightarrow> 'n \<Rightarrow> 's \<Rightarrow> 's res"
    and del :: "'h \<Rightarrow> 'n \<Rightarrow> 's \<Rightarrow> 's res"
  assumes push_law: "rep s h xs \<Longrightarrow> n \<notin> set xs \<Longrightarrow>
      \<exists>s'. push h n s = Inr s' \<and> rep s' h (n # xs) \<and>
        (\<forall>g ys. g \<noteq> h \<longrightarrow> set ys \<inter> insert n (set xs) = {} \<longrightarrow> rep s g ys \<longrightarrow> rep s' g ys)"
    and del_law: "rep s h xs \<Longrightarrow> n \<in> set xs \<Longrightarrow>
      \<exists>s'. del h n s = Inr s' \<and> rep s' h (remove1 n xs) \<and>
        (\<forall>g ys. g \<noteq> h \<longrightarrow> set ys \<inter> set xs = {} \<longrightarrow> rep s g ys \<longrightarrow> rep s' g ys)"
    and distinct_law: "rep s h xs \<Longrightarrow> distinct xs"

text \<open>The lists of all heads: no node is in two of them.\<close>

definition family :: "('s \<Rightarrow> 'h \<Rightarrow> 'n list \<Rightarrow> bool) \<Rightarrow> 's \<Rightarrow> ('h \<Rightarrow> 'n list) \<Rightarrow> bool" where
  "family rep s Q \<longleftrightarrow> (\<forall>h. rep s h (Q h)) \<and> (\<forall>g h. g \<noteq> h \<longrightarrow> set (Q g) \<inter> set (Q h) = {})"

lemma familyI:
  assumes "family rep s Q" "rep s' h xs"
    and "\<forall>g ys. g \<noteq> h \<longrightarrow> set ys \<inter> N = {} \<longrightarrow> rep s g ys \<longrightarrow> rep s' g ys"
    and "\<And>g. g \<noteq> h \<Longrightarrow> set (Q g) \<inter> (N \<union> set xs) = {}"
  shows "family rep s' (Q(h := xs))"
proof -
  have r: "rep s' g (Q g)" if "g \<noteq> h" for g
    using assms(3) assms(4) [OF that] assms(1) that by (simp add: family_def Int_Un_distrib)
  have d: "set (Q g) \<inter> set xs = {}" if "g \<noteq> h" for g
    using assms(4) [OF that] by blast
  have "set ((Q(h := xs)) f) \<inter> set ((Q(h := xs)) g) = {}" if "f \<noteq> g" for f g
    using d [of f] d [of g] that assms(1) by (auto simp: family_def)
  then show ?thesis using assms(2) r by (simp add: family_def)
qed

context linked_list
begin

lemma family_push:
  assumes "family rep s Q" "\<And>g. n \<notin> set (Q g)"
  shows "\<exists>s'. push h n s = Inr s' \<and> family rep s' (Q(h := n # Q h))"
proof -
  have r: "rep s h (Q h)" using assms(1) by (simp add: family_def)
  obtain s' where s': "push h n s = Inr s'" "rep s' h (n # Q h)"
    "\<forall>g ys. g \<noteq> h \<longrightarrow> set ys \<inter> insert n (set (Q h)) = {} \<longrightarrow> rep s g ys \<longrightarrow> rep s' g ys"
    using push_law [OF r, of n] assms(2) by auto
  have "family rep s' (Q(h := n # Q h))"
    by (rule familyI [OF assms(1) s'(2,3)]) (use assms in \<open>auto simp: family_def\<close>)
  then show ?thesis using s'(1) by blast
qed

lemma family_del:
  assumes "family rep s Q" "n \<in> set (Q h)"
  shows "\<exists>s'. del h n s = Inr s' \<and> family rep s' (Q(h := remove1 n (Q h)))"
proof -
  have r: "rep s h (Q h)" using assms(1) by (simp add: family_def)
  obtain s' where s': "del h n s = Inr s'" "rep s' h (remove1 n (Q h))"
    "\<forall>g ys. g \<noteq> h \<longrightarrow> set ys \<inter> set (Q h) = {} \<longrightarrow> rep s g ys \<longrightarrow> rep s' g ys"
    using del_law [OF r assms(2)] by auto
  have "family rep s' (Q(h := remove1 n (Q h)))"
    by (rule familyI [OF assms(1) s'(2,3)])
      (use assms(1) set_remove1_subset [of n "Q h"] in \<open>fastforce simp: family_def\<close>)
  then show ?thesis using s'(1) by blast
qed

end

text \<open>With an operation that puts a node at the tail.\<close>

locale linked_queue = linked_list rep push del
  for rep :: "'s \<Rightarrow> 'h \<Rightarrow> 'n list \<Rightarrow> bool" and push del +
  fixes app :: "'h \<Rightarrow> 'n \<Rightarrow> 's \<Rightarrow> 's res"
  assumes app_law: "rep s h xs \<Longrightarrow> n \<notin> set xs \<Longrightarrow>
      \<exists>s'. app h n s = Inr s' \<and> rep s' h (xs @ [n]) \<and>
        (\<forall>g ys. g \<noteq> h \<longrightarrow> set ys \<inter> insert n (set xs) = {} \<longrightarrow> rep s g ys \<longrightarrow> rep s' g ys)"

text \<open>A run of operations on the lists of a store, and what it does to a family of lists.\<close>

datatype ('h, 'n) queue_op = QPush 'h 'n | QDel 'h 'n | QApp 'h 'n

fun queues_run ::
  "('h \<Rightarrow> 'n \<Rightarrow> 's \<Rightarrow> 's res) \<Rightarrow> ('h \<Rightarrow> 'n \<Rightarrow> 's \<Rightarrow> 's res) \<Rightarrow> ('h \<Rightarrow> 'n \<Rightarrow> 's \<Rightarrow> 's res) \<Rightarrow>
    ('h, 'n) queue_op list \<Rightarrow> 's \<Rightarrow> 's res" where
  "queues_run push del app [] s = Inr s"
| "queues_run push del app (QPush h n # ops) s = andThen (push h n s) (queues_run push del app ops)"
| "queues_run push del app (QDel h n # ops) s = andThen (del h n s) (queues_run push del app ops)"
| "queues_run push del app (QApp h n # ops) s = andThen (app h n s) (queues_run push del app ops)"

fun queues_spec :: "('h, 'n) queue_op list \<Rightarrow> ('h \<Rightarrow> 'n list) \<Rightarrow> 'h \<Rightarrow> 'n list" where
  "queues_spec [] Q = Q"
| "queues_spec (QPush h n # ops) Q = queues_spec ops (Q(h := n # Q h))"
| "queues_spec (QDel h n # ops) Q = queues_spec ops (Q(h := remove1 n (Q h)))"
| "queues_spec (QApp h n # ops) Q = queues_spec ops (Q(h := Q h @ [n]))"

text \<open>The callers insert a node only while it is in no list and remove it only from its own.\<close>

fun legal_ops :: "('h, 'n) queue_op list \<Rightarrow> ('h \<Rightarrow> 'n list) \<Rightarrow> bool" where
  "legal_ops [] Q \<longleftrightarrow> True"
| "legal_ops (QPush h n # ops) Q \<longleftrightarrow> (\<forall>g. n \<notin> set (Q g)) \<and> legal_ops ops (Q(h := n # Q h))"
| "legal_ops (QDel h n # ops) Q \<longleftrightarrow> n \<in> set (Q h) \<and> legal_ops ops (Q(h := remove1 n (Q h)))"
| "legal_ops (QApp h n # ops) Q \<longleftrightarrow> (\<forall>g. n \<notin> set (Q g)) \<and> legal_ops ops (Q(h := Q h @ [n]))"

context linked_queue
begin

lemma family_app:
  assumes "family rep s Q" "\<And>g. n \<notin> set (Q g)"
  shows "\<exists>s'. app h n s = Inr s' \<and> family rep s' (Q(h := Q h @ [n]))"
proof -
  have r: "rep s h (Q h)" using assms(1) by (simp add: family_def)
  obtain s' where s': "app h n s = Inr s'" "rep s' h (Q h @ [n])"
    "\<forall>g ys. g \<noteq> h \<longrightarrow> set ys \<inter> insert n (set (Q h)) = {} \<longrightarrow> rep s g ys \<longrightarrow> rep s' g ys"
    using app_law [OF r, of n] assms(2) by auto
  have "family rep s' (Q(h := Q h @ [n]))"
    by (rule familyI [OF assms(1) s'(2,3)]) (use assms in \<open>auto simp: family_def\<close>)
  then show ?thesis using s'(1) by blast
qed

lemma run_refines:
  "family rep s Q \<Longrightarrow> legal_ops ops Q \<Longrightarrow>
   \<exists>s'. queues_run push del app ops s = Inr s' \<and> family rep s' (queues_spec ops Q)"
proof (induction ops arbitrary: s Q)
  case (Cons p ops)
  show ?case
  proof (cases p)
    case (QPush h n)
    then show ?thesis using Cons.prems family_push [of s Q n h] Cons.IH by fastforce
  next
    case (QDel h n)
    then show ?thesis using Cons.prems family_del [of s Q n h] Cons.IH by fastforce
  next
    case (QApp h n)
    then show ?thesis using Cons.prems family_app [of s Q n h] Cons.IH by fastforce
  qed
qed simp

end

subsection \<open>Singly linked lists and their contract\<close>

lemma only_at_refl [simp]: "only_at h N s s"
  by (simp add: only_at_def)

lemma only_at_wr:
  "only_at h N s s' \<Longrightarrow> k \<in> insert (FirstOf h) (NextOf ` N) \<Longrightarrow> only_at h N s (wr_loc k v s')"
  by (auto simp: only_at_def)

lemma only_at_prev: "only_at h N s s' \<Longrightarrow> n \<in> N \<Longrightarrow> only_at h N s (s'\<lparr>prevs := (prevs s')(n := l)\<rparr>)"
  by (auto simp: only_at_def)

lemma only_at_last: "only_at h N s s' \<Longrightarrow> only_at h N s (s'\<lparr>lasts := (lasts s)(h := l)\<rparr>)"
  by (auto simp: only_at_def)

lemma only_at_link: "only_at h N s s' \<Longrightarrow> p \<in> insert None (Some ` N) \<Longrightarrow> only_at h N s (link_back p l s')"
  by (auto simp: link_back_def only_at_prev)

lemma slist_rep_Nil: "slist_rep s h [] \<longleftrightarrow> firsts s h = None"
  by (simp add: slist_rep_def)

lemma slist_rep_other [simp]:
  "slist_rep (s\<lparr>prevs := pr\<rparr>) h xs \<longleftrightarrow> slist_rep s h xs" "slist_rep (s\<lparr>lasts := la\<rparr>) h xs \<longleftrightarrow> slist_rep s h xs"
  "slist_rep (link_back p k s) h xs \<longleftrightarrow> slist_rep s h xs"
  by (simp_all add: slist_rep_def)

text \<open>Insertion at a location and removal from one, for all four kinds.\<close>

lemma fresh_NextOf: "n \<notin> set xs \<Longrightarrow> NextOf n \<notin> locs (FirstOf h) xs"
  using locs_subset [of "FirstOf h" xs] by auto

lemma slist_insert_at:
  fixes s :: "('h, 'n) lstore"
  assumes "slist_rep s h (as @ bs)" "n \<notin> set (as @ bs)"
  shows "slist_rep (wr_loc (end_loc (FirstOf h) as) (Some n)
           (wr_loc (NextOf n) (rd_loc s (end_loc (FirstOf h) as)) s)) h (as @ n # bs)"
proof -
  let ?k = "end_loc (FirstOf h) as"
  let ?N = "NextOf n :: ('h, 'n) loc"
  let ?s1 = "wr_loc (NextOf n) (rd_loc s ?k) s"
  have d: "distinct (as @ n # bs)" and sa: "seg s (FirstOf h) as" and sb: "seg s ?k bs"
    and e: "rd_loc s (end_loc ?k bs) = None"
    using assms by (auto simp: slist_rep_def)
  have k: "?k \<notin> locs (FirstOf h) as" "?k \<noteq> NextOf n"
    using end_loc_fresh [of as "FirstOf h"] end_loc_in [of "FirstOf h" as] d by auto
  have na: "NextOf n \<notin> locs (FirstOf h) as" using d by (intro fresh_NextOf) simp
  have kb: "?k \<notin> NextOf ` set bs" using end_loc_in [of "FirstOf h" as] d by auto
  have sb': "seg (wr_loc ?k (Some n) ?s1) (NextOf n) bs \<and>
      rd_loc (wr_loc ?k (Some n) ?s1) (end_loc (NextOf n) bs) = None"
  proof (cases bs)
    case Nil
    then show ?thesis using k e by simp
  next
    case (Cons b bs')
    let ?B = "NextOf b :: ('h, 'n) loc"
    have l: "?N \<notin> locs ?B bs'" "?k \<notin> locs ?B bs'"
      using locs_subset [of ?B bs'] d kb Cons by auto
    have "end_loc ?B bs' \<in> NextOf ` set bs" using end_loc_in [of ?B bs'] Cons by simp
    moreover have "?N \<notin> NextOf ` set bs" using d by auto
    ultimately have en: "end_loc ?B bs' \<noteq> ?N" "end_loc ?B bs' \<noteq> ?k" using kb by metis+
    show ?thesis using Cons sb e k l en by simp
  qed
  show ?thesis using d sa na k sb' by (simp add: slist_rep_def)
qed

lemma slist_remove_at:
  assumes "slist_rep s h (as @ n # bs)"
  shows "slist_rep (wr_loc (end_loc (FirstOf h) as) (nexts s n) s) h (as @ bs)"
    and "rd_loc s (end_loc (FirstOf h) as) = Some n"
    and "nexts s n = (case bs of [] \<Rightarrow> None | b # _ \<Rightarrow> Some b)"
proof -
  let ?k = "end_loc (FirstOf h) as"
  have d: "distinct (as @ n # bs)" and sa: "seg s (FirstOf h) as" and sb: "seg s (NextOf n) bs"
    and e: "rd_loc s (end_loc (NextOf n) bs) = None" and kn: "rd_loc s ?k = Some n"
    using assms by (auto simp: slist_rep_def)
  have k: "?k \<notin> locs (FirstOf h) as" using end_loc_fresh [of as "FirstOf h"] d by auto
  have kb: "?k \<notin> NextOf ` set bs" using end_loc_in [of "FirstOf h" as] d by auto
  show "rd_loc s ?k = Some n" by (fact kn)
  show "nexts s n = (case bs of [] \<Rightarrow> None | b # _ \<Rightarrow> Some b)" using sb e by (cases bs) auto
  have "seg (wr_loc ?k (nexts s n) s) ?k bs \<and> rd_loc (wr_loc ?k (nexts s n) s) (end_loc ?k bs) = None"
  proof (cases bs)
    case Nil
    then show ?thesis using e by simp
  next
    case (Cons b bs')
    have "end_loc (NextOf b) bs' \<in> NextOf ` set bs" using end_loc_in [of "NextOf b" bs'] Cons by simp
    moreover have "?k \<notin> locs (NextOf b) bs'" using locs_subset [of "NextOf b" bs'] kb Cons by auto
    ultimately have "?k \<notin> locs (NextOf b) bs'" "end_loc (NextOf b) bs' \<noteq> ?k" using kb by metis+
    then show ?thesis using Cons sb e by simp
  qed
  then show "slist_rep (wr_loc ?k (nexts s n) s) h (as @ bs)" using d sa k by (simp add: slist_rep_def)
qed

lemma find_before_pos:
  assumes "slist_rep s h (as @ c # n # bs)"
  shows "find_before s n (firsts s h) = Some (Inr c)"
proof -
  have "find_before s n (rd_loc s l) = Some (Inr c)"
    if "seg s l (as @ c # n # bs)" "distinct (as @ c # n # bs)" for l
    using that
  proof (induction as arbitrary: l)
    case Nil
    then show ?case by (subst find_before.simps) simp
  next
    case (Cons a as)
    have "nexts s a \<noteq> Some n" using Cons.prems by (cases as) auto
    then show ?case using Cons.IH [of "NextOf a"] Cons.prems by (subst find_before.simps) simp
  qed
  from this [of "FirstOf h"] show ?thesis using assms by (simp add: slist_rep_def)
qed

lemma slist_insert_head_rep:
  "slist_rep s h xs \<Longrightarrow> n \<notin> set xs \<Longrightarrow> slist_rep (slist_insert_head h n s) h (n # xs)"
  using slist_insert_at [of s h "[]" xs n] by (simp add: slist_insert_head_def)

lemma slist_insert_after_rep:
  "slist_rep s h (as @ x # bs) \<Longrightarrow> n \<notin> set (as @ x # bs) \<Longrightarrow>
   slist_rep (slist_insert_after x n s) h (as @ x # n # bs)"
  using slist_insert_at [of s h "as @ [x]" bs n] by (simp add: slist_insert_after_def)

lemma slist_remove_rep:
  assumes "slist_rep s h xs" "n \<in> set xs"
  shows "\<exists>k. k \<in> insert (FirstOf h) (NextOf ` set xs) \<and> slist_remove h n s = Inr (wr_loc k (nexts s n) s) \<and>
    slist_rep (wr_loc k (nexts s n) s) h (remove1 n xs)"
proof -
  obtain as bs where xs: "xs = as @ n # bs" "n \<notin> set as" using split_list_first [OF assms(2)] by blast
  note r = slist_remove_at [OF assms(1) [unfolded xs]]
  have "remove1 n xs = as @ bs" using xs by (simp add: remove1_append)
  moreover have "slist_remove h n s = Inr (wr_loc (end_loc (FirstOf h) as) (nexts s n) s)"
  proof (cases as rule: rev_cases)
    case Nil
    then show ?thesis using r(2) by (simp add: slist_remove_def slist_remove_head_def)
  next
    case (snoc as' c)
    have "find_before s n (firsts s h) = Some (Inr c)"
      using assms(1) xs snoc by (intro find_before_pos [of s h as' c n bs]) simp
    moreover have "firsts s h \<noteq> Some n" using assms(1) xs snoc by (cases as') (auto simp: slist_rep_def)
    ultimately show ?thesis using r(2) snoc by (simp add: slist_remove_def slist_remove_after_def)
  qed
  moreover have "end_loc (FirstOf h) as \<in> insert (FirstOf h) (NextOf ` set xs)"
    using end_loc_in [of "FirstOf h" as] xs(1) by auto
  ultimately show ?thesis using r(1) by (intro exI [of _ "end_loc (FirstOf h) as"]) simp
qed

interpretation sl: linked_list slist_rep "\<lambda>h n s. Inr (slist_insert_head h n s)" slist_remove
proof unfold_locales
  fix s :: "('h, 'n) lstore" and h xs n
  show "\<exists>s'. Inr (slist_insert_head h n s) = Inr s' \<and> slist_rep s' h (n # xs) \<and>
      (\<forall>g ys. g \<noteq> h \<longrightarrow> set ys \<inter> insert n (set xs) = {} \<longrightarrow> slist_rep s g ys \<longrightarrow> slist_rep s' g ys)"
    if "slist_rep s h xs" "n \<notin> set xs"
  proof -
    have "only_at h (insert n (set xs)) s (slist_insert_head h n s)"
      by (auto simp: slist_insert_head_def only_at_def)
    then show ?thesis using slist_insert_head_rep [OF that] by (auto simp: only_at_frame(1))
  qed
  show "\<exists>s'. slist_remove h n s = Inr s' \<and> slist_rep s' h (remove1 n xs) \<and>
      (\<forall>g ys. g \<noteq> h \<longrightarrow> set ys \<inter> set xs = {} \<longrightarrow> slist_rep s g ys \<longrightarrow> slist_rep s' g ys)"
    if rn: "slist_rep s h xs" "n \<in> set xs"
  proof -
    obtain k where k: "k \<in> insert (FirstOf h) (NextOf ` set xs)" "slist_remove h n s = Inr (wr_loc k (nexts s n) s)"
      "slist_rep (wr_loc k (nexts s n) s) h (remove1 n xs)" using slist_remove_rep [OF rn] by blast
    have "only_at h (set xs) s (wr_loc k (nexts s n) s)" using k(1) by (intro only_at_wr) simp_all
    then show ?thesis using k by (auto simp: only_at_frame(1))
  qed
qed (simp add: slist_rep_def)

subsection \<open>The other kinds\<close>

lemma end_loc_alt: "end_loc l xs = (if xs = [] then l else NextOf (last xs))"
  by (induction xs arbitrary: l) auto

lemma wr_loc_commute:
  "wr_loc k v (link_back p l s) = link_back p l (wr_loc k v s)"
  "wr_loc k v (s\<lparr>prevs := f\<rparr>) = (wr_loc k v s)\<lparr>prevs := f\<rparr>"
  "wr_loc k v (s\<lparr>lasts := la\<rparr>) = (wr_loc k v s)\<lparr>lasts := la\<rparr>"
  by (cases k; cases p; simp add: link_back_def wr_loc.simps)+

lemma prevs_link_wr: "prevs (link_back p l (wr_loc k v s)) = prevs (link_back p l s)"
  by (cases p) (simp_all add: link_back_def)

lemma prev_seg_link:
  assumes "prev_seg s l bs" "distinct bs" "rd_loc t l = (case bs of [] \<Rightarrow> None | b # _ \<Rightarrow> Some b)"
  shows "prev_seg (link_back (rd_loc t l) k s) k bs"
  using assms by (cases bs) (auto simp: link_back_def)

lemma prev_seg_fresh: "p \<notin> Some ` set xs \<Longrightarrow> prev_seg (link_back p k s) l xs \<longleftrightarrow> prev_seg s l xs"
proof (cases p)
  case (Some a)
  moreover assume "p \<notin> Some ` set xs"
  ultimately have "a \<notin> set xs" by auto
  then show ?thesis using Some by (simp add: link_back_def)
qed (simp add: link_back_def)

lemma slist_rep_next:
  "slist_rep s h (as @ bs) \<Longrightarrow> rd_loc s (end_loc (FirstOf h) as) = (case bs of [] \<Rightarrow> None | b # _ \<Rightarrow> Some b)"
  by (cases bs) (auto simp: slist_rep_def)

text \<open>Insertion and removal in doubly linked lists.\<close>

definition insert_at :: "('h, 'n) loc \<Rightarrow> 'n \<Rightarrow> ('h, 'n) lstore \<Rightarrow> ('h, 'n) lstore" where
  "insert_at k n s =
     set_prev n k (link_back (rd_loc s k) (NextOf n) (wr_loc k (Some n) (wr_loc (NextOf n) (rd_loc s k) s)))"

lemma list_insert_at:
  assumes "list_rep s h (as @ bs)" "n \<notin> set (as @ bs)"
  shows "list_rep (insert_at (end_loc (FirstOf h) as) n s) h (as @ n # bs)"
proof -
  let ?k = "end_loc (FirstOf h) as"
  have r: "slist_rep s h (as @ bs)" and pa: "prev_seg s (FirstOf h) as" and pb: "prev_seg s ?k bs"
    using assms(1) by (simp_all add: list_rep_def)
  have d: "distinct (as @ bs)" using r by (simp add: slist_rep_def)
  have rd: "rd_loc s ?k = (case bs of [] \<Rightarrow> None | b # _ \<Rightarrow> Some b)" by (rule slist_rep_next [OF r])
  have nb: "rd_loc s ?k \<notin> Some ` set as" using rd d by (cases bs) auto
  have "prev_seg (link_back (rd_loc s ?k) (NextOf n) s') (NextOf n) bs" if "prev_seg s' ?k bs" for s'
    by (rule prev_seg_link [OF that _ rd]) (use d in simp)
  then show ?thesis
    unfolding list_rep_def insert_at_def
    using slist_insert_at [OF r assms(2)] pa pb assms(2) by (simp add: prev_seg_fresh [OF nb])
qed

lemma list_remove_at:
  assumes "list_rep s h (as @ n # bs)"
  shows "list_rep (wr_loc (end_loc (FirstOf h) as) (nexts s n) (link_back (nexts s n) (end_loc (FirstOf h) as) s))
      h (as @ bs)"
    and "prevs s n = end_loc (FirstOf h) as"
proof -
  let ?k = "end_loc (FirstOf h) as"
  have r: "slist_rep s h (as @ n # bs)" and pa: "prev_seg s (FirstOf h) as" and pb: "prev_seg s (NextOf n) bs"
    and "prevs s n = ?k" using assms by (simp_all add: list_rep_def)
  then show "prevs s n = ?k" by simp
  have d: "distinct (as @ n # bs)" using r by (simp add: slist_rep_def)
  note q = slist_remove_at [OF r]
  have nb: "nexts s n \<notin> Some ` set as" using q(3) d by (cases bs) auto
  have "prev_seg (link_back (nexts s n) ?k s) ?k bs"
    using prev_seg_link [OF pb, of s ?k] q(3) d by simp
  then show "list_rep (wr_loc ?k (nexts s n) (link_back (nexts s n) ?k s)) h (as @ bs)"
    unfolding list_rep_def using q(1) pa
    by (intro conjI) (simp add: wr_loc_commute(1), simp add: prev_seg_fresh [OF nb])
qed

lemma insert_at_eqs:
  "list_insert_head h n s = insert_at (FirstOf h) n s"
  "list_insert_after x n s = insert_at (NextOf x) n s"
  by (simp_all add: list_insert_head_def list_insert_after_def insert_at_def Let_def wr_loc_commute prevs_link_wr)

lemma insert_before_eq:
  "n \<noteq> x \<Longrightarrow> rd_loc s (prevs s x) = Some x \<Longrightarrow> list_insert_before x n s = insert_at (prevs s x) n s"
  by (simp add: list_insert_before_def insert_at_def Let_def wr_loc_commute link_back_def fun_upd_twist)

lemma list_remove_eq:
  "nexts s n \<noteq> Some n \<Longrightarrow> list_remove n s = wr_loc (prevs s n) (nexts s n) (link_back (nexts s n) (prevs s n) s)"
  by (cases "nexts s n") (auto simp: list_remove_def link_back_def Let_def)

text \<open>The last field of the head follows the list.\<close>

lemma list_rep_other [simp]:
  "list_rep (s\<lparr>lasts := la\<rparr>) h xs \<longleftrightarrow> list_rep s h xs"
  by (simp add: list_rep_def)

lemma insert_at_lasts [simp]: "lasts (insert_at k n s) = lasts s"
  by (simp add: insert_at_def)

lemma end_loc_insert:
  assumes "l = end_loc k (as @ bs)" "rd_loc s (end_loc k as) = (case bs of [] \<Rightarrow> None | b # _ \<Rightarrow> Some b)"
  shows "(if rd_loc s (end_loc k as) = None then NextOf n else l) = end_loc k (as @ n # bs)"
  using assms by (cases bs) auto

lemma tailq_insert_at:
  assumes "tailq_rep s h (as @ bs)" "n \<notin> set (as @ bs)" "k = end_loc (FirstOf h) as"
  shows "tailq_rep (if rd_loc s k = None then set_last h (NextOf n) (insert_at k n s) else insert_at k n s)
      h (as @ n # bs)"
proof -
  have r: "list_rep s h (as @ bs)" and l: "lasts s h = end_loc (FirstOf h) (as @ bs)"
    using assms(1) by (simp_all add: tailq_rep_def)
  have rd: "rd_loc s k = (case bs of [] \<Rightarrow> None | b # _ \<Rightarrow> Some b)"
    unfolding assms(3) by (rule slist_rep_next) (use r in \<open>simp add: list_rep_def\<close>)
  show ?thesis
    using list_insert_at [OF r assms(2)] end_loc_insert [OF l, of s n] rd l
    unfolding assms(3) [symmetric] by (auto simp: tailq_rep_def assms(3))
qed

lemma stailq_insert_at:
  assumes "stailq_rep s h (as @ bs)" "n \<notin> set (as @ bs)" "k = end_loc (FirstOf h) as"
  shows "stailq_rep (let s' = wr_loc k (Some n) (wr_loc (NextOf n) (rd_loc s k) s)
      in if rd_loc s k = None then set_last h (NextOf n) s' else s') h (as @ n # bs)"
proof -
  have r: "slist_rep s h (as @ bs)" and l: "lasts s h = end_loc (FirstOf h) (as @ bs)"
    using assms(1) by (simp_all add: stailq_rep_def)
  have rd: "rd_loc s k = (case bs of [] \<Rightarrow> None | b # _ \<Rightarrow> Some b)"
    unfolding assms(3) by (rule slist_rep_next [OF r])
  show ?thesis
    using slist_insert_at [OF r assms(2)] end_loc_insert [OF l, of s n] rd l
    unfolding assms(3) [symmetric] by (auto simp: stailq_rep_def assms(3) Let_def)
qed

lemma end_loc_remove:
  assumes "l = end_loc k (as @ n # bs)" "p = (case bs of [] \<Rightarrow> None | b # _ \<Rightarrow> Some b)"
  shows "(if p = None then end_loc k as else l) = end_loc k (as @ bs)"
  using assms by (cases bs) auto

lemma tailq_remove_at:
  assumes "tailq_rep s h (as @ n # bs)"
  shows "tailq_rep (tailq_remove h n s) h (as @ bs)"
    and "only_at h (set (as @ n # bs)) s (tailq_remove h n s)"
proof -
  let ?k = "end_loc (FirstOf h) as"
  have r: "list_rep s h (as @ n # bs)" and l: "lasts s h = end_loc (FirstOf h) (as @ n # bs)"
    using assms(1) by (simp_all add: tailq_rep_def)
  have nx: "nexts s n = (case bs of [] \<Rightarrow> None | b # _ \<Rightarrow> Some b)" and d: "distinct (as @ n # bs)"
    using r slist_remove_at(3) [of s h as n bs] by (auto simp: list_rep_def slist_rep_def)
  note q = list_remove_at [OF r]
  have eq: "tailq_remove h n s = (if nexts s n = None
      then set_last h ?k (wr_loc ?k (nexts s n) (link_back (nexts s n) ?k s))
      else wr_loc ?k (nexts s n) (link_back (nexts s n) ?k s))"
    using nx d q(2) by (cases bs) (auto simp: tailq_remove_def link_back_def Let_def wr_loc_commute)
  show "tailq_rep (tailq_remove h n s) h (as @ bs)"
    unfolding eq tailq_rep_def using q(1) end_loc_remove [OF l nx] l by auto
  show "only_at h (set (as @ n # bs)) s (tailq_remove h n s)"
    unfolding eq using end_loc_in [of "FirstOf h" as] nx
    by (auto intro!: only_at_wr only_at_last only_at_link split: list.splits)
qed

text \<open>Doubly linked lists: the contract.\<close>

lemma list_remove_rep:
  assumes "list_rep s h (as @ n # bs)"
  shows "list_rep (list_remove n s) h (as @ bs)" "only_at h (set (as @ n # bs)) s (list_remove n s)"
proof -
  let ?k = "end_loc (FirstOf h) as"
  have nx: "nexts s n = (case bs of [] \<Rightarrow> None | b # _ \<Rightarrow> Some b)" and d: "distinct (as @ n # bs)"
    using assms slist_remove_at(3) [of s h as n bs] by (auto simp: list_rep_def slist_rep_def)
  note q = list_remove_at [OF assms]
  have eq: "list_remove n s = wr_loc ?k (nexts s n) (link_back (nexts s n) ?k s)"
    using nx d list_remove_eq [of s n] q(2) by (cases bs) auto
  show "list_rep (list_remove n s) h (as @ bs)" unfolding eq by (rule q(1))
  show "only_at h (set (as @ n # bs)) s (list_remove n s)"
    unfolding eq using end_loc_in [of "FirstOf h" as] nx
    by (auto intro!: only_at_wr only_at_link split: list.splits)
qed

lemma insert_at_only:
  "rd_loc s k \<in> insert None (Some ` N) \<Longrightarrow> k \<in> insert (FirstOf h) (NextOf ` N) \<Longrightarrow> n \<in> N \<Longrightarrow>
   only_at h N s (insert_at k n s)"
  unfolding insert_at_def by (intro only_at_prev only_at_link only_at_wr only_at_refl) auto

lemma split_remove1:
  assumes "n \<in> set xs"
  obtains as bs where "xs = as @ n # bs" "remove1 n xs = as @ bs"
proof -
  obtain as bs where "xs = as @ n # bs" "n \<notin> set as" using split_list_first [OF assms] by blast
  then show ?thesis by (intro that) (auto simp: remove1_append)
qed

lemma slist_rep_first:
  "slist_rep s h xs \<Longrightarrow> firsts s h \<in> insert None (Some ` set xs)"
  by (cases xs) (auto simp: slist_rep_def)

lemmas list_insert_head_rep = list_insert_at [where as = "[]", simplified, folded insert_at_eqs]

interpretation dl: linked_list list_rep "\<lambda>h n s. Inr (list_insert_head h n s)" "\<lambda>h n s. Inr (list_remove n s)"
proof unfold_locales
  fix s :: "('h, 'n) lstore" and h xs n
  show "\<exists>s'. Inr (list_insert_head h n s) = Inr s' \<and> list_rep s' h (n # xs) \<and>
      (\<forall>g ys. g \<noteq> h \<longrightarrow> set ys \<inter> insert n (set xs) = {} \<longrightarrow> list_rep s g ys \<longrightarrow> list_rep s' g ys)"
    if r: "list_rep s h xs" "n \<notin> set xs"
  proof -
    have "firsts s h \<in> insert None (Some ` set xs)" using r by (intro slist_rep_first) (simp add: list_rep_def)
    then have "only_at h (insert n (set xs)) s (list_insert_head h n s)"
      unfolding insert_at_eqs by (intro insert_at_only) auto
    then show ?thesis using list_insert_head_rep [OF r] by (auto simp: only_at_frame(3))
  qed
  show "\<exists>s'. Inr (list_remove n s) = Inr s' \<and> list_rep s' h (remove1 n xs) \<and>
      (\<forall>g ys. g \<noteq> h \<longrightarrow> set ys \<inter> set xs = {} \<longrightarrow> list_rep s g ys \<longrightarrow> list_rep s' g ys)"
    if r: "list_rep s h xs" "n \<in> set xs"
  proof -
    obtain as bs where xs: "xs = as @ n # bs" "remove1 n xs = as @ bs" using split_remove1 [OF r(2)] .
    note r = list_remove_rep [OF r(1) [unfolded xs(1)]]
    show ?thesis unfolding xs(2) using r by (auto simp: xs(1) only_at_frame(3))
  qed
qed (simp add: list_rep_def slist_rep_def)

text \<open>Tail queues: the contract.\<close>

lemma tailq_insert_head_eq:
  "tailq_insert_head h n s =
     (if rd_loc s (FirstOf h) = None then set_last h (NextOf n) (insert_at (FirstOf h) n s)
      else insert_at (FirstOf h) n s)"
  by (auto simp: tailq_insert_head_def insert_at_def link_back_def Let_def wr_loc_commute split: option.splits)

lemma tailq_insert_after_eq:
  "tailq_insert_after h x n s =
     (if rd_loc s (NextOf x) = None then set_last h (NextOf n) (insert_at (NextOf x) n s)
      else insert_at (NextOf x) n s)"
  by (auto simp: tailq_insert_after_def insert_at_def link_back_def Let_def wr_loc_commute split: option.splits)

lemma tailq_insert_tail_eq:
  "rd_loc s (lasts s h) = None \<Longrightarrow>
   tailq_insert_tail h n s = set_last h (NextOf n) (insert_at (lasts s h) n s)"
  by (simp add: tailq_insert_tail_def insert_at_def link_back_def Let_def wr_loc_commute)

lemma tailq_end: "tailq_rep s h xs \<Longrightarrow> rd_loc s (lasts s h) = None"
  by (simp add: tailq_rep_def list_rep_def slist_rep_def)

lemma tailq_insert_tail_rep:
  "tailq_rep s h xs \<Longrightarrow> n \<notin> set xs \<Longrightarrow> tailq_rep (tailq_insert_tail h n s) h (xs @ [n])"
  using tailq_insert_at [of s h xs "[]" n "lasts s h"] tailq_end [of s h xs] tailq_insert_tail_eq [of s h n]
  by (simp add: tailq_rep_def)

lemma tailq_insert_head_rep:
  "tailq_rep s h xs \<Longrightarrow> n \<notin> set xs \<Longrightarrow> tailq_rep (tailq_insert_head h n s) h (n # xs)"
  using tailq_insert_at [of s h "[]" xs n "FirstOf h"] unfolding tailq_insert_head_eq by simp

lemma tailq_insert_after_rep:
  "tailq_rep s h (as @ x # bs) \<Longrightarrow> n \<notin> set (as @ x # bs) \<Longrightarrow>
   tailq_rep (tailq_insert_after h x n s) h (as @ x # n # bs)"
  using tailq_insert_at [of s h "as @ [x]" bs n "NextOf x"] unfolding tailq_insert_after_eq by simp

lemma tailq_insert_before_rep:
  assumes "tailq_rep s h (as @ x # bs)" "n \<notin> set (as @ x # bs)"
  shows "tailq_rep (tailq_insert_before x n s) h (as @ n # x # bs)"
proof -
  have p: "prevs s x = end_loc (FirstOf h) as" "rd_loc s (end_loc (FirstOf h) as) = Some x"
    using assms(1) by (simp_all add: tailq_rep_def list_rep_def slist_rep_def)
  have "list_insert_before x n s = insert_at (prevs s x) n s"
    using p assms(2) by (intro insert_before_eq) auto
  then have "tailq_insert_before x n s = insert_at (end_loc (FirstOf h) as) n s"
    unfolding tailq_insert_before_def list_insert_before_def p(1) .
  then show ?thesis using tailq_insert_at [OF assms refl] p by simp
qed

lemma tailq_frame_head:
  assumes "tailq_rep s h xs"
  shows "only_at h (insert n (set xs)) s (tailq_insert_head h n s)"
    "only_at h (insert n (set xs)) s (tailq_insert_tail h n s)"
proof -
  have "firsts s h \<in> insert None (Some ` set xs)"
    using assms by (intro slist_rep_first) (simp add: tailq_rep_def list_rep_def)
  then have "only_at h (insert n (set xs)) s (insert_at (FirstOf h) n s)"
    by (intro insert_at_only) auto
  then show "only_at h (insert n (set xs)) s (tailq_insert_head h n s)"
    unfolding tailq_insert_head_eq by (simp add: only_at_last)
  have "lasts s h \<in> insert (FirstOf h) (NextOf ` insert n (set xs))"
    using assms end_loc_in [of "FirstOf h" xs] by (auto simp: tailq_rep_def)
  then have "only_at h (insert n (set xs)) s (insert_at (lasts s h) n s)"
    using tailq_end [OF assms] by (intro insert_at_only) auto
  then show "only_at h (insert n (set xs)) s (tailq_insert_tail h n s)"
    unfolding tailq_insert_tail_eq [OF tailq_end [OF assms]] by (simp add: only_at_last)
qed

interpretation tq: linked_queue tailq_rep "\<lambda>h n s. Inr (tailq_insert_head h n s)"
  "\<lambda>h n s. Inr (tailq_remove h n s)" "\<lambda>h n s. Inr (tailq_insert_tail h n s)"
proof unfold_locales
  fix s :: "('h, 'n) lstore" and h xs n
  show "\<exists>s'. Inr (tailq_insert_head h n s) = Inr s' \<and> tailq_rep s' h (n # xs) \<and>
      (\<forall>g ys. g \<noteq> h \<longrightarrow> set ys \<inter> insert n (set xs) = {} \<longrightarrow> tailq_rep s g ys \<longrightarrow> tailq_rep s' g ys)"
    if r: "tailq_rep s h xs" "n \<notin> set xs"
    using tailq_insert_head_rep [OF r] by (auto simp: only_at_frame(4) [OF tailq_frame_head(1) [OF r(1)]])
  show "\<exists>s'. Inr (tailq_insert_tail h n s) = Inr s' \<and> tailq_rep s' h (xs @ [n]) \<and>
      (\<forall>g ys. g \<noteq> h \<longrightarrow> set ys \<inter> insert n (set xs) = {} \<longrightarrow> tailq_rep s g ys \<longrightarrow> tailq_rep s' g ys)"
    if r: "tailq_rep s h xs" "n \<notin> set xs"
    using tailq_insert_tail_rep [OF r] by (auto simp: only_at_frame(4) [OF tailq_frame_head(2) [OF r(1)]])
  show "\<exists>s'. Inr (tailq_remove h n s) = Inr s' \<and> tailq_rep s' h (remove1 n xs) \<and>
      (\<forall>g ys. g \<noteq> h \<longrightarrow> set ys \<inter> set xs = {} \<longrightarrow> tailq_rep s g ys \<longrightarrow> tailq_rep s' g ys)"
    if r: "tailq_rep s h xs" "n \<in> set xs"
  proof -
    obtain as bs where xs: "xs = as @ n # bs" "remove1 n xs = as @ bs" using split_remove1 [OF r(2)] .
    note r = tailq_remove_at [OF r(1) [unfolded xs(1)]]
    show ?thesis unfolding xs(2) using r by (auto simp: xs(1) only_at_frame(4))
  qed
qed (simp add: tailq_rep_def list_rep_def slist_rep_def)

text \<open>Singly linked tail queues: the contract.\<close>

lemma stailq_insert_head_rep:
  "stailq_rep s h xs \<Longrightarrow> n \<notin> set xs \<Longrightarrow> stailq_rep (stailq_insert_head h n s) h (n # xs)"
  using stailq_insert_at [of s h "[]" xs n "FirstOf h"]
  by (cases "firsts s h") (simp_all add: stailq_insert_head_def Let_def wr_loc_commute)

lemma stailq_insert_after_rep:
  "stailq_rep s h (as @ x # bs) \<Longrightarrow> n \<notin> set (as @ x # bs) \<Longrightarrow>
   stailq_rep (stailq_insert_after h x n s) h (as @ x # n # bs)"
  using stailq_insert_at [of s h "as @ [x]" bs n "NextOf x"]
  by (cases "nexts s x") (simp_all add: stailq_insert_after_def Let_def wr_loc_commute)

lemma stailq_end: "stailq_rep s h xs \<Longrightarrow> rd_loc s (lasts s h) = None"
  by (simp add: stailq_rep_def slist_rep_def)

lemma stailq_insert_tail_rep:
  "stailq_rep s h xs \<Longrightarrow> n \<notin> set xs \<Longrightarrow> stailq_rep (stailq_insert_tail h n s) h (xs @ [n])"
  using stailq_insert_at [of s h xs "[]" n "lasts s h"] stailq_end [of s h xs]
  by (simp add: stailq_insert_tail_def Let_def stailq_rep_def)

lemma stailq_remove_rep:
  assumes "stailq_rep s h xs" "n \<in> set xs"
  shows "\<exists>s'. stailq_remove h n s = Inr s' \<and> stailq_rep s' h (remove1 n xs) \<and> only_at h (set xs) s s'"
proof -
  obtain as bs where xs: "xs = as @ n # bs" "remove1 n xs = as @ bs" using split_remove1 [OF assms(2)] .
  let ?k = "end_loc (FirstOf h) as" and ?p = "nexts s n"
  define t where "t = (if ?p = None then set_last h ?k (wr_loc ?k ?p s) else wr_loc ?k ?p s)"
  have r: "slist_rep s h (as @ n # bs)" and l: "lasts s h = end_loc (FirstOf h) (as @ n # bs)"
    using assms(1) xs by (simp_all add: stailq_rep_def)
  note q = slist_remove_at [OF r]
  have "stailq_remove h n s = Inr t"
  proof (cases as rule: rev_cases)
    case Nil
    then show ?thesis using q(2) by (auto simp: stailq_remove_def stailq_remove_head_def t_def Let_def)
  next
    case (snoc as' c)
    have "find_before s n (firsts s h) = Some (Inr c)"
      using r snoc by (intro find_before_pos [of s h as' c n bs]) simp
    moreover have "firsts s h \<noteq> Some n" using r snoc by (cases as') (auto simp: slist_rep_def)
    ultimately show ?thesis using q(2) snoc
      by (auto simp: stailq_remove_def stailq_remove_after_def t_def Let_def)
  qed
  moreover have "stailq_rep t h (as @ bs)"
    using q(1) end_loc_remove [OF l q(3)] l by (auto simp: stailq_rep_def t_def)
  moreover have "?k \<in> insert (FirstOf h) (NextOf ` set xs)" using end_loc_in [of "FirstOf h" as] xs(1) by auto
  then have "only_at h (set xs) s t" by (auto simp: t_def intro!: only_at_last only_at_wr)
  ultimately show ?thesis using xs(2) by simp
qed

interpretation st: linked_queue stailq_rep "\<lambda>h n s. Inr (stailq_insert_head h n s)"
  stailq_remove "\<lambda>h n s. Inr (stailq_insert_tail h n s)"
proof unfold_locales
  fix s :: "('h, 'n) lstore" and h xs n
  show "\<exists>s'. Inr (stailq_insert_head h n s) = Inr s' \<and> stailq_rep s' h (n # xs) \<and>
      (\<forall>g ys. g \<noteq> h \<longrightarrow> set ys \<inter> insert n (set xs) = {} \<longrightarrow> stailq_rep s g ys \<longrightarrow> stailq_rep s' g ys)"
    if r: "stailq_rep s h xs" "n \<notin> set xs"
  proof -
    have "only_at h (insert n (set xs)) s (stailq_insert_head h n s)"
      by (auto simp: stailq_insert_head_def Let_def intro!: only_at_wr only_at_last)
    then show ?thesis using stailq_insert_head_rep [OF r] by (auto simp: only_at_frame(2))
  qed
  show "\<exists>s'. Inr (stailq_insert_tail h n s) = Inr s' \<and> stailq_rep s' h (xs @ [n]) \<and>
      (\<forall>g ys. g \<noteq> h \<longrightarrow> set ys \<inter> insert n (set xs) = {} \<longrightarrow> stailq_rep s g ys \<longrightarrow> stailq_rep s' g ys)"
    if r: "stailq_rep s h xs" "n \<notin> set xs"
  proof -
    have "lasts s h \<in> insert (FirstOf h) (NextOf ` insert n (set xs))"
      using r end_loc_in [of "FirstOf h" xs] by (auto simp: stailq_rep_def)
    then have "only_at h (insert n (set xs)) s (stailq_insert_tail h n s)"
      unfolding stailq_insert_tail_def Let_def
      by (simp) (intro only_at_last only_at_wr only_at_refl; simp)
    then show ?thesis using stailq_insert_tail_rep [OF r] by (auto simp: only_at_frame(2))
  qed
  show "\<exists>s'. stailq_remove h n s = Inr s' \<and> stailq_rep s' h (remove1 n xs) \<and>
      (\<forall>g ys. g \<noteq> h \<longrightarrow> set ys \<inter> set xs = {} \<longrightarrow> stailq_rep s g ys \<longrightarrow> stailq_rep s' g ys)"
    if r: "stailq_rep s h xs" "n \<in> set xs"
    using stailq_remove_rep [OF r] by (auto simp: only_at_frame(2))
qed (simp add: stailq_rep_def slist_rep_def)

subsection \<open>Traversal, initialisation, concatenation\<close>

lemma tailq_last_rep: "tailq_rep s h xs \<Longrightarrow> tailq_last h s = (if xs = [] then None else Some (last xs))"
  by (cases xs rule: rev_cases)
    (auto simp: tailq_last_def tailq_rep_def list_rep_def slist_rep_def)

lemma tailq_prev_rep:
  "tailq_rep s h (as @ x # bs) \<Longrightarrow> tailq_prev x s = (if as = [] then None else Some (last as))"
  by (cases as rule: rev_cases)
    (auto simp: tailq_prev_def tailq_rep_def list_rep_def slist_rep_def)

lemma stailq_last_rep: "stailq_rep s h xs \<Longrightarrow> stailq_last h s = None"
  by (simp add: stailq_last_def stailq_end)

lemma init_reps:
  "slist_rep (slist_init h s) h []" "stailq_rep (stailq_init h s) h []"
  "list_rep (list_init h s) h []" "tailq_rep (tailq_init h s) h []"
  by (simp_all add: slist_rep_def stailq_rep_def list_rep_def tailq_rep_def slist_init_def stailq_init_def
      list_init_def tailq_init_def)

lemma empty_reps:
  "slist_rep s h xs \<Longrightarrow> slist_empty h s \<longleftrightarrow> xs = []" "stailq_rep s h xs \<Longrightarrow> stailq_empty h s \<longleftrightarrow> xs = []"
  "list_rep s h xs \<Longrightarrow> list_empty h s \<longleftrightarrow> xs = []" "tailq_rep s h xs \<Longrightarrow> tailq_empty h s \<longleftrightarrow> xs = []"
  by (cases xs; simp add: slist_rep_def stailq_rep_def list_rep_def tailq_rep_def slist_empty_def
      stailq_empty_def list_empty_def tailq_empty_def)+

lemma stailq_concat_rep:
  fixes s :: "('h, 'n) lstore"
  assumes "stailq_rep s h xs" "stailq_rep s g ys" "g \<noteq> h" "set xs \<inter> set ys = {}"
  shows "stailq_rep (stailq_concat h g s) h (xs @ ys) \<and> stailq_rep (stailq_concat h g s) g []"
proof (cases ys)
  case Nil
  then show ?thesis using assms by (simp add: stailq_concat_def empty_reps(2) [OF assms(2)])
next
  case (Cons y ys')
  let ?k = "end_loc (FirstOf h) xs" and ?Y = "NextOf y :: ('h, 'n) loc"
  have x: "distinct xs" "seg s (FirstOf h) xs" "lasts s h = ?k"
    and y: "distinct ys" "seg s (FirstOf g) ys" "rd_loc s (end_loc (FirstOf g) ys) = None"
      "lasts s g = end_loc (FirstOf g) ys" "firsts s g = Some y"
    using assms(1,2) Cons by (auto simp: stailq_rep_def slist_rep_def)
  have k: "?k \<notin> locs (FirstOf h) xs" using end_loc_fresh [of xs "FirstOf h"] x(1) by auto
  have ky: "?k \<notin> NextOf ` set ys" "?k \<noteq> FirstOf g"
    using end_loc_in [of "FirstOf h" xs] assms(3,4) by auto
  have g: "FirstOf g \<notin> locs (FirstOf h) xs" using locs_subset [of "FirstOf h" xs] assms(3) by auto
  have l: "?k \<notin> locs ?Y ys'" "FirstOf g \<notin> locs ?Y ys'"
    using locs_subset [of ?Y ys'] ky Cons by auto
  have "end_loc ?Y ys' \<in> NextOf ` set ys" using end_loc_in [of ?Y ys'] Cons by simp
  then have e: "end_loc ?Y ys' \<noteq> ?k" "end_loc ?Y ys' \<noteq> FirstOf g" using ky(1) by (metis, auto)
  define t where "t = wr_loc (FirstOf g) None (wr_loc ?k (Some y) s)"
  have c: "stailq_concat h g s = t\<lparr>lasts := (lasts s)(h := end_loc (FirstOf g) ys, g := FirstOf g)\<rparr>"
    using y x(3) by (simp add: stailq_concat_def stailq_empty_def stailq_init_def wr_loc_commute t_def)
  have "slist_rep t h (xs @ ys)"
    using x y k ky g l e assms(4) Cons unfolding slist_rep_def t_def by auto
  moreover have "slist_rep t g []" by (simp add: slist_rep_def t_def)
  ultimately show ?thesis unfolding c using Cons assms(3) by (simp add: stailq_rep_def)
qed

subsection \<open>Properties\<close>

text \<open>
  C18: Tail queues implement lists. Start from a store in which every head represents a list and no
  node is in two of them. After any sequence of insertions in front and at the tail of nodes that
  are in no list, and removals of nodes from their own list, every head again represents exactly
  the list the same sequence gives on plain lists: first, next, previous and last pointers agree,
  and no list that an operation does not name is touched.
\<close>

theorem tailq_refines_lists:
  assumes "family tailq_rep s Q" "legal_ops ops Q"
  shows "\<exists>s'. queues_run (\<lambda>h n s. Inr (tailq_insert_head h n s)) (\<lambda>h n s. Inr (tailq_remove h n s))
      (\<lambda>h n s. Inr (tailq_insert_tail h n s)) ops s = Inr s' \<and> family tailq_rep s' (queues_spec ops Q)"
  using assms by (rule tq.run_refines)

definition bare_store :: "(nat, nat) lstore" where
  "bare_store = \<lparr>firsts = (\<lambda>_. None), lasts = FirstOf, nexts = (\<lambda>_. None), prevs = (\<lambda>_. FirstOf 0)\<rparr>"

lemma bare_store_family: "family tailq_rep bare_store (\<lambda>_. [])" "family stailq_rep bare_store (\<lambda>_. [])"
  by (simp_all add: family_def tailq_rep_def stailq_rep_def list_rep_def slist_rep_def bare_store_def)

definition queue_demo :: "(nat, nat) queue_op list" where
  "queue_demo = [QApp 0 5, QApp 0 6, QPush 0 4, QApp 1 9, QDel 0 6, QApp 1 6]"

lemma queue_demo_spec: "legal_ops queue_demo (\<lambda>_. [])" "queues_spec queue_demo (\<lambda>_. []) 0 = [4, 5]"
    "queues_spec queue_demo (\<lambda>_. []) 1 = [9, 6]"
  by (simp_all add: queue_demo_def)

theorem tailq_refines_lists_witness:
  "\<exists>s'. queues_run (\<lambda>h n s. Inr (tailq_insert_head h n s)) (\<lambda>h n s. Inr (tailq_remove h n s))
      (\<lambda>h n s. Inr (tailq_insert_tail h n s)) queue_demo bare_store = Inr s' \<and>
    tailq_rep s' 0 [4, 5] \<and> tailq_rep s' 1 [9, 6]"
proof -
  obtain s' where "queues_run (\<lambda>h n s. Inr (tailq_insert_head h n s)) (\<lambda>h n s. Inr (tailq_remove h n s))
      (\<lambda>h n s. Inr (tailq_insert_tail h n s)) queue_demo bare_store = Inr s'"
    "family tailq_rep s' (queues_spec queue_demo (\<lambda>_. []))"
    using tailq_refines_lists [OF bare_store_family(1) queue_demo_spec(1)] by blast
  then show ?thesis using queue_demo_spec(2,3) unfolding family_def by metis
qed

text \<open>
  Insertion beside a node and traversal backwards in a tail queue. The two insertions put the
  new node directly before and directly behind the given one; \<open>tailq_last\<close> is the last node and
  \<open>tailq_prev\<close> the node before, null for the first, although both macros read a head and a node
  through the same two words.
\<close>

theorem tailq_neighbours:
  assumes "tailq_rep s h (as @ x # bs)" "n \<notin> set (as @ x # bs)"
  shows "tailq_rep (tailq_insert_before x n s) h (as @ n # x # bs) \<and>
    tailq_rep (tailq_insert_after h x n s) h (as @ x # n # bs) \<and>
    tailq_last h s = Some (last (x # bs)) \<and> tailq_prev x s = (if as = [] then None else Some (last as))"
  using tailq_insert_before_rep [OF assms] tailq_insert_after_rep [OF assms] tailq_last_rep [OF assms(1)]
    tailq_prev_rep [OF assms(1)] by simp

theorem tailq_neighbours_witness:
  "tailq_rep (tailq_insert_before 5 7 (tailq_insert_tail 0 5 (tailq_insert_tail 0 4 bare_store))) 0 [4, 7, 5]"
proof -
  have "tailq_rep bare_store 0 []" using bare_store_family(1) by (simp add: family_def)
  then have "tailq_rep (tailq_insert_tail 0 5 (tailq_insert_tail 0 4 bare_store)) 0 [4, 5]"
    using tailq_insert_tail_rep [of bare_store 0 "[]" 4]
      tailq_insert_tail_rep [of "tailq_insert_tail 0 4 bare_store" 0 "[4]" 5] by simp
  then show ?thesis using tailq_neighbours [of "tailq_insert_tail 0 5 (tailq_insert_tail 0 4 bare_store)" 0 "[4]" 5 "[]" 7]
    by simp
qed

text \<open>
  Singly linked tail queues implement lists in the same way, and concatenation appends the
  second queue to the first and leaves the second empty; but \<open>stailq_last\<close> is null for every
  queue, because it reads the location behind the last node instead of the node.
\<close>

theorem stailq_refines_lists:
  assumes "family stailq_rep s Q" "legal_ops ops Q" "g \<noteq> h"
  shows "\<exists>s'. queues_run (\<lambda>h n s. Inr (stailq_insert_head h n s)) stailq_remove
      (\<lambda>h n s. Inr (stailq_insert_tail h n s)) ops s = Inr s' \<and> family stailq_rep s' (queues_spec ops Q) \<and>
    stailq_rep (stailq_concat h g s') h (queues_spec ops Q h @ queues_spec ops Q g) \<and>
    stailq_last h s' = None"
proof -
  obtain s' where s': "queues_run (\<lambda>h n s. Inr (stailq_insert_head h n s)) stailq_remove
      (\<lambda>h n s. Inr (stailq_insert_tail h n s)) ops s = Inr s'" "family stailq_rep s' (queues_spec ops Q)"
    using st.run_refines [OF assms(1,2)] by blast
  then have r: "stailq_rep s' h (queues_spec ops Q h)" "stailq_rep s' g (queues_spec ops Q g)"
    "set (queues_spec ops Q h) \<inter> set (queues_spec ops Q g) = {}"
    using assms(3) by (auto simp: family_def)
  then show ?thesis using s' stailq_concat_rep [OF r(1,2) assms(3) r(3)] stailq_last_rep [OF r(1)] by blast
qed

theorem stailq_refines_lists_witness:
  "\<exists>s'. queues_run (\<lambda>h n s. Inr (stailq_insert_head h n s)) stailq_remove
      (\<lambda>h n s. Inr (stailq_insert_tail h n s)) queue_demo bare_store = Inr s' \<and>
    stailq_rep (stailq_concat 0 1 s') 0 [4, 5, 9, 6] \<and> stailq_last 0 s' = None"
  using stailq_refines_lists [OF bare_store_family(2) queue_demo_spec(1), of 1 0] queue_demo_spec(2,3)
  by auto

end
