(* ===== verification/Resource_Pool.thy ===== *)
theory Resource_Pool
  imports Prelude
begin

text \<open>
  The contract of a pool that lends resources, such as the objects of an object pool.
  \<open>get\<close> moves one resource from the free ones to those that are held, or none; \<open>put\<close> takes one
  back. The locale proves once that a resource is never lent to a second holder before it came
  back, along any sequence of calls whose clients give back only what they hold.
\<close>

datatype ('q, 'r) pool_op = Get_req 'q | Put_back 'r
datatype 'r pool_event = Lent 'r | Returned 'r

text \<open>What a sequence of calls lends and takes back. A call that aborts aborts the run.\<close>

fun pool_run ::
  "('s \<Rightarrow> 'q \<Rightarrow> ('r option \<times> 's) res) \<Rightarrow> ('s \<Rightarrow> 'r \<Rightarrow> 's res) \<Rightarrow> 's \<Rightarrow> ('q, 'r) pool_op list \<Rightarrow>
    ('r pool_event list \<times> 's) res" where
  "pool_run get put s [] = Inr ([], s)"
| "pool_run get put s (Get_req q # ops) =
     andThen (get s q) (\<lambda>(r, s').
     andThen (pool_run get put s' ops) (\<lambda>(es, t).
     Inr (case r of None \<Rightarrow> es | Some x \<Rightarrow> Lent x # es, t)))"
| "pool_run get put s (Put_back x # ops) =
     andThen (put s x) (\<lambda>s'.
     andThen (pool_run get put s' ops) (\<lambda>(es, t). Inr (Returned x # es, t)))"

text \<open>A history in which nothing is lent twice and only what is held comes back.\<close>

fun exclusive :: "'r set \<Rightarrow> 'r pool_event list \<Rightarrow> bool" where
  "exclusive H [] \<longleftrightarrow> True"
| "exclusive H (Lent x # es) \<longleftrightarrow> x \<notin> H \<and> exclusive (insert x H) es"
| "exclusive H (Returned x # es) \<longleftrightarrow> x \<in> H \<and> exclusive (H - {x}) es"

fun held_after :: "'r set \<Rightarrow> 'r pool_event list \<Rightarrow> 'r set" where
  "held_after H [] = H"
| "held_after H (Lent x # es) = held_after (insert x H) es"
| "held_after H (Returned x # es) = held_after (H - {x}) es"

text \<open>The clients: every \<open>Put_back\<close> of a run names a resource that is held then.\<close>

fun puts_held :: "'r set \<Rightarrow> 'r pool_event list \<Rightarrow> bool" where
  "puts_held H [] \<longleftrightarrow> True"
| "puts_held H (Lent x # es) \<longleftrightarrow> puts_held (insert x H) es"
| "puts_held H (Returned x # es) \<longleftrightarrow> x \<in> H \<and> puts_held (H - {x}) es"

text \<open>
  The pool may also obtain new resources while it serves a request.
\<close>

locale growing_pool =
  fixes inv :: "'s \<Rightarrow> bool"
    and avail :: "'s \<Rightarrow> 'r set"
    and held :: "'s \<Rightarrow> 'r set"
    and get :: "'s \<Rightarrow> 'q \<Rightarrow> ('r option \<times> 's) res"
    and put :: "'s \<Rightarrow> 'r \<Rightarrow> 's res"
  assumes none_keeps: "inv s \<Longrightarrow> get s q = Inr (None, s') \<Longrightarrow> inv s' \<and> held s' = held s"
    and get_lends: "inv s \<Longrightarrow> get s q = Inr (Some x, s') \<Longrightarrow>
      inv s' \<and> x \<notin> held s \<and> held s' = insert x (held s) \<and> avail s \<subseteq> insert x (avail s')"
    and put_returns: "inv s \<Longrightarrow> x \<in> held s \<Longrightarrow>
      \<exists>s'. put s x = Inr s' \<and> inv s' \<and> avail s' = insert x (avail s) \<and> held s' = held s - {x}"
begin

lemma run_exclusive:
  "inv s \<Longrightarrow> pool_run get put s ops = Inr (es, t) \<Longrightarrow> puts_held (held s) es \<Longrightarrow>
   exclusive (held s) es \<and> inv t \<and> held t = held_after (held s) es"
proof (induction ops arbitrary: s es)
  case (Cons p ops)
  show ?case
  proof (cases p)
    case (Get_req q)
    with Cons.prems obtain r s1 es1 where r: "get s q = Inr (r, s1)"
      "pool_run get put s1 ops = Inr (es1, t)" "es = (case r of None \<Rightarrow> es1 | Some x \<Rightarrow> Lent x # es1)"
      by (auto simp: andThen_Inr_iff)
    show ?thesis
    proof (cases r)
      case None
      then have e: "inv s1" "held s1 = held s" "es1 = es"
        using Cons.prems r none_keeps [of s q s1] by simp_all
      show ?thesis using Cons.IH [OF e(1) r(2)] Cons.prems(3) e by simp
    next
      case (Some x)
      then have g: "inv s1" "x \<notin> held s" "held s1 = insert x (held s)"
        using get_lends [of s q x s1] Cons.prems r by simp_all
      then show ?thesis using Cons.IH [OF g(1) r(2)] Cons.prems(3) r(3) Some by auto
    qed
  next
    case (Put_back x)
    with Cons.prems obtain s1 es1 where r: "put s x = Inr s1"
      "pool_run get put s1 ops = Inr (es1, t)" "es = Returned x # es1"
      by (auto simp: andThen_Inr_iff)
    then have x: "x \<in> held s" using Cons.prems(3) by simp
    have g: "inv s1" "held s1 = held s - {x}" using put_returns [OF Cons.prems(1) x] r(1) by auto
    show ?thesis using Cons.IH [OF g(1) r(2)] Cons.prems(3) g r(3) x by auto
  qed
qed simp

end

end
