(* ===== verification/Object_Pool.thy ===== *)
theory Object_Pool
  imports Resource_Pool
begin

text \<open>
  The object pools of \<open>src/object_pool.c\<close> and the stream manager of \<open>src/tcp_buffer.c\<close>, which
  lends the stream structures of one.

  Objects are 64-bit addresses, 0 is \<open>NULL\<close>. A free object holds the address of the next free one in
  its first word (\<open>obj_next\<close>, the memory seen as such words). What \<open>cmt_pmemalign\<close> answers is a
  parameter \<open>pm\<close>: \<open>pm k\<close> is the answer to its \<open>k\<close>-th call, and \<open>pm_calls\<close> counts the calls. The
  contract in \<open>cmt_memory_pool.h\<close>, that blocks which are not given back are not handed out again, is the
  hypothesis \<open>fresh_blocks\<close>; the pool never gives an object back to it.
\<close>

subsection \<open>State\<close>

record obj_pool =
  element_size :: u64
  element_count :: u64
  free_count :: u64
  obj_align :: u64
  obj_queue :: u64
  obj_next :: "u64 \<Rightarrow> u64"
  pm_calls :: nat

definition DEFAULT_MIN_SIZE :: u64 where "DEFAULT_MIN_SIZE = 10"
definition PEEK :: u64 where "PEEK = 1024 * 512"

definition get_pool_nums :: "obj_pool \<Rightarrow> u64" where
  "get_pool_nums p = element_count p"

subsection \<open>Operations\<close>

text \<open>The call of \<open>cmt_pmemalign\<close>, and a store to \<open>node->next\<close>.\<close>

definition pm_call :: "(nat \<Rightarrow> u64) \<Rightarrow> obj_pool \<Rightarrow> u64 \<times> obj_pool" where
  "pm_call pm p = (pm (pm_calls p), p\<lparr>pm_calls := Suc (pm_calls p)\<rparr>)"

definition set_next :: "u64 \<Rightarrow> u64 \<Rightarrow> obj_pool \<Rightarrow> obj_pool res" where
  "set_next a b p = (if a = 0 then Inl NullDeref else Inr (p\<lparr>obj_next := (obj_next p)(a := b)\<rparr>))"

text \<open>
  The body of \<open>cmt_object_pool_create_s\<close> after its first check, and its loop, of which \<open>n\<close>
  iterations are left. The loop tests the head of the queue instead of the new object, so it does
  not see that \<open>cmt_pmemalign\<close> failed; \<open>free_count\<close> becomes the size of an object, not their number.
\<close>

fun create_nodes :: "(nat \<Rightarrow> u64) \<Rightarrow> nat \<Rightarrow> u64 \<Rightarrow> obj_pool \<Rightarrow> obj_pool res" where
  "create_nodes pm 0 tmp p = Inr p"
| "create_nodes pm (Suc n) tmp p =
     (let (a, p1) = pm_call pm p
      in andThen (set_next tmp a p1) (\<lambda>p2. andThen (set_next a 0 p2) (create_nodes pm n a)))"

definition pool_setup :: "(nat \<Rightarrow> u64) \<Rightarrow> u64 \<Rightarrow> u64 \<Rightarrow> u64 \<Rightarrow> u64 \<Rightarrow> obj_pool \<Rightarrow> (u64 \<times> obj_pool) res" where
  "pool_setup pm obj_p num elemen align p =
     (if obj_p = 0 then Inl NullDeref
      else let p1 = p\<lparr>obj_align := align, element_count := num, element_size := elemen, free_count := elemen\<rparr>;
               (a, p2) = pm_call pm p1; p3 = p2\<lparr>obj_queue := a\<rparr>
           in if a = 0 then Inr (0, p3)
              else andThen (set_next a 0 p3) (\<lambda>p4.
                   andThen (create_nodes pm (unat num - 1) a p4) (\<lambda>p5. Inr (obj_p, p5))))"

text \<open>\<open>obj_p\<close> is what \<open>cmt_palloc\<close> answers for the pool's own structure.\<close>

definition cmt_object_pool_create_s ::
  "(nat \<Rightarrow> u64) \<Rightarrow> u64 \<Rightarrow> u64 \<Rightarrow> u64 \<Rightarrow> u64 \<Rightarrow> obj_pool \<Rightarrow> (u64 \<times> obj_pool) res" where
  "cmt_object_pool_create_s pm obj_p num elemen align p =
     (if obj_p \<noteq> 0 then Inr (0, p) else pool_setup pm obj_p num elemen align p)"

definition cmt_object_pool_create :: "(nat \<Rightarrow> u64) \<Rightarrow> u64 \<Rightarrow> u64 \<Rightarrow> u64 \<Rightarrow> obj_pool \<Rightarrow> (u64 \<times> obj_pool) res" where
  "cmt_object_pool_create pm obj_p elm align p =
     cmt_object_pool_create_s pm obj_p DEFAULT_MIN_SIZE elm align p"

text \<open>
  \<open>resize\<close>: the new objects go in front of the queue, which the pool sees only when all of them were
  allocated. The floating point test \<open>element_count * 0.9 <= free_count\<close> is written over the
  integers; the two agree for counts below \<open>2 ^ 50\<close>.
\<close>

fun push_nodes :: "(nat \<Rightarrow> u64) \<Rightarrow> nat \<Rightarrow> u64 \<Rightarrow> obj_pool \<Rightarrow> u64 option \<times> obj_pool" where
  "push_nodes pm 0 head p = (Some head, p)"
| "push_nodes pm (Suc n) head p =
     (let (a, p1) = pm_call pm p
      in if a = 0 then (None, p1)
         else push_nodes pm n a (p1\<lparr>obj_next := (obj_next p1)(a := head)\<rparr>))"

definition resize :: "(nat \<Rightarrow> u64) \<Rightarrow> obj_pool \<Rightarrow> obj_pool" where
  "resize pm p =
     (if unat (element_count p) * 9 \<le> unat (free_count p) * 10 then p
      else let upd = (if PEEK \<le> element_count p then DEFAULT_MIN_SIZE else element_count p)
           in case push_nodes pm (unat upd) (obj_queue p) p of
                (None, p1) \<Rightarrow> p1
              | (Some new_node, p1) \<Rightarrow>
                  p1\<lparr>obj_queue := new_node, element_count := element_count p1 + upd,
                     free_count := free_count p1 + upd\<rparr>)"

definition cmt_object_get :: "(nat \<Rightarrow> u64) \<Rightarrow> obj_pool \<Rightarrow> (u64 \<times> obj_pool) res" where
  "cmt_object_get pm p0 =
     (let p = resize pm p0
      in if free_count p = 0 then Inr (0, p)
         else if obj_queue p = 0 then Inl NullDeref
         else Inr (obj_queue p, p\<lparr>obj_queue := obj_next p (obj_queue p), free_count := free_count p - 1\<rparr>))"

definition cmt_object_free :: "obj_pool \<Rightarrow> u64 \<Rightarrow> obj_pool res" where
  "cmt_object_free p x =
     andThen (set_next x (obj_queue p) p) (\<lambda>p1. Inr (p1\<lparr>obj_queue := x, free_count := free_count p1 + 1\<rparr>))"

text \<open>
  \<open>cmt_object_pool_destroy\<close>: the blocks that go back to the memory pool, in order. Its loop gives
  back the pool's own structure \<open>pa\<close> in every turn, where the object was meant.
\<close>

datatype given_back = Pmemfree u64 | Pfree u64

partial_function (option) destroy_nodes :: "u64 \<Rightarrow> obj_pool \<Rightarrow> u64 \<Rightarrow> given_back list option" where
  "destroy_nodes pa p node =
     (if node = 0 then Some []
      else Option.bind (destroy_nodes pa p (obj_next p node)) (\<lambda>es. Some (Pmemfree pa # es)))"

definition cmt_object_pool_destroy :: "u64 \<Rightarrow> obj_pool \<Rightarrow> given_back list option" where
  "cmt_object_pool_destroy pa p =
     Option.bind (destroy_nodes pa p (obj_queue p)) (\<lambda>es. Some (es @ [Pfree pa]))"

subsection \<open>Free objects\<close>

text \<open>The queue from \<open>a\<close> holds exactly the objects \<open>xs\<close>, in this order.\<close>

fun chain :: "(u64 \<Rightarrow> u64) \<Rightarrow> u64 \<Rightarrow> u64 list \<Rightarrow> bool" where
  "chain nx a [] \<longleftrightarrow> a = 0"
| "chain nx a (x # xs) \<longleftrightarrow> a = x \<and> x \<noteq> 0 \<and> chain nx (nx x) xs"

lemma chain_unique: "chain nx a xs \<Longrightarrow> chain nx a ys \<Longrightarrow> xs = ys"
proof (induction xs arbitrary: a ys)
  case Nil then show ?case by (cases ys) auto
next
  case (Cons x xs) then show ?case by (cases ys) auto
qed

lemma chain_cong: "(\<And>x. x \<in> set xs \<Longrightarrow> nx x = nx' x) \<Longrightarrow> chain nx a xs = chain nx' a xs"
  by (induction xs arbitrary: a) auto

lemma chain_upd [simp]: "x \<notin> set xs \<Longrightarrow> chain (nx(x := b)) a xs = chain nx a xs"
  by (rule chain_cong) auto

lemma chain_nonzero: "chain nx a xs \<Longrightarrow> 0 \<notin> set xs"
  by (induction xs arbitrary: a) auto

lemma chain_empty_iff: "chain nx a xs \<Longrightarrow> xs = [] \<longleftrightarrow> a = 0"
  by (cases xs) auto

lemma distinct_addresses: "distinct (xs :: u64 list) \<Longrightarrow> 0 \<notin> set xs \<Longrightarrow> length xs < 2 ^ 64"
proof -
  assume d: "distinct xs" "0 \<notin> set xs"
  then have "length (0 # xs) = card (set (0 # xs))" using distinct_card [of "0 # xs"] by simp
  also have "\<dots> \<le> CARD(64 word)" by (rule card_mono) auto
  finally show ?thesis by (simp add: card_word)
qed

definition fresh_blocks :: "(nat \<Rightarrow> u64) \<Rightarrow> bool" where
  "fresh_blocks pm \<longleftrightarrow> (\<forall>i j. pm i \<noteq> 0 \<longrightarrow> pm i = pm j \<longrightarrow> i = j)"

definition handed_out :: "(nat \<Rightarrow> u64) \<Rightarrow> nat \<Rightarrow> u64 set" where
  "handed_out pm n = {pm k |k. k < n} - {0}"

lemma handed_out_Suc: "handed_out pm (Suc n) = handed_out pm n \<union> ({pm n} - {0})"
  by (auto simp: handed_out_def less_Suc_eq)

lemma fresh_not_handed_out: "fresh_blocks pm \<Longrightarrow> pm n \<noteq> 0 \<Longrightarrow> pm n \<notin> handed_out pm n"
  by (auto simp: handed_out_def fresh_blocks_def)

text \<open>One of the calls of \<open>cmt_pmemalign\<close> from the \<open>m\<close>-th to before the \<open>n\<close>-th failed.\<close>

definition refused :: "(nat \<Rightarrow> u64) \<Rightarrow> nat \<Rightarrow> nat \<Rightarrow> bool" where
  "refused pm m n \<longleftrightarrow> (\<exists>k. m \<le> k \<and> k < n \<and> pm k = 0)"

text \<open>
  A pool with the free objects \<open>xs\<close> while the objects \<open>H\<close> are out: nothing is free twice or free and
  out, all of it came from the memory pool, and \<open>free_count\<close> is right.
\<close>

definition pool_ok :: "(nat \<Rightarrow> u64) \<Rightarrow> obj_pool \<Rightarrow> u64 list \<Rightarrow> u64 set \<Rightarrow> bool" where
  "pool_ok pm p xs H \<longleftrightarrow>
     fresh_blocks pm \<and> chain (obj_next p) (obj_queue p) xs \<and> distinct xs \<and> set xs \<inter> H = {} \<and>
     unat (free_count p) = length xs \<and> set xs \<union> H \<subseteq> handed_out pm (pm_calls p)"

lemma push_nodes_spec:
  "fresh_blocks pm \<Longrightarrow> chain (obj_next p) head xs \<Longrightarrow> distinct xs \<Longrightarrow> set xs \<inter> H = {} \<Longrightarrow>
   set xs \<union> H \<subseteq> handed_out pm (pm_calls p) \<Longrightarrow> push_nodes pm n head p = (r, p') \<Longrightarrow>
   \<exists>nx c. p' = p\<lparr>obj_next := nx, pm_calls := c\<rparr> \<and> handed_out pm (pm_calls p) \<subseteq> handed_out pm c \<and>
     (\<forall>x \<in> handed_out pm (pm_calls p). nx x = obj_next p x) \<and>
     (case r of None \<Rightarrow> refused pm (pm_calls p) c
      | Some a \<Rightarrow> \<exists>ys. length ys = n \<and> chain nx a (ys @ xs) \<and> distinct (ys @ xs) \<and>
          set (ys @ xs) \<inter> H = {} \<and> set (ys @ xs) \<union> H \<subseteq> handed_out pm c)"
proof (induction n arbitrary: head p xs)
  case 0
  then show ?case by (auto intro!: exI [of _ "obj_next p"] exI [of _ "pm_calls p"])
next
  case (Suc n)
  let ?a = "pm (pm_calls p)" and ?p1 = "p\<lparr>pm_calls := Suc (pm_calls p)\<rparr>"
  show ?case
  proof (cases "?a = 0")
    case True
    then have "refused pm (pm_calls p) (Suc (pm_calls p))" by (auto simp: refused_def)
    then show ?thesis using Suc.prems True
      by (auto simp: pm_call_def handed_out_Suc intro!: exI [of _ "obj_next p"] exI [of _ "Suc (pm_calls p)"])
  next
    case False
    let ?p2 = "?p1\<lparr>obj_next := (obj_next p)(?a := head)\<rparr>"
    have new: "?a \<notin> handed_out pm (pm_calls p)" by (rule fresh_not_handed_out [OF Suc.prems(1) False])
    then have new': "?a \<notin> set xs" "?a \<notin> H" using Suc.prems(5) by auto
    have r: "push_nodes pm n ?a ?p2 = (r, p')" using Suc.prems(6) False by (simp add: pm_call_def)
    have ch: "chain (obj_next ?p2) ?a (?a # xs)" using Suc.prems(2) new' False by simp
    have "\<exists>nx c. p' = ?p2\<lparr>obj_next := nx, pm_calls := c\<rparr> \<and> handed_out pm (pm_calls ?p2) \<subseteq> handed_out pm c \<and>
        (\<forall>x \<in> handed_out pm (pm_calls ?p2). nx x = obj_next ?p2 x) \<and>
        (case r of None \<Rightarrow> refused pm (pm_calls ?p2) c
         | Some a \<Rightarrow> \<exists>ys. length ys = n \<and> chain nx a (ys @ ?a # xs) \<and> distinct (ys @ ?a # xs) \<and>
             set (ys @ ?a # xs) \<inter> H = {} \<and> set (ys @ ?a # xs) \<union> H \<subseteq> handed_out pm c)"
      by (rule Suc.IH [OF Suc.prems(1) ch _ _ _ r])
        (use Suc.prems(3-5) new' False in \<open>auto simp: handed_out_Suc\<close>)
    note IH = this
    have pc: "pm_calls ?p2 = Suc (pm_calls p)" by simp
    obtain nx c where e: "p' = p\<lparr>obj_next := nx, pm_calls := c\<rparr>"
        "handed_out pm (Suc (pm_calls p)) \<subseteq> handed_out pm c"
        "\<forall>x \<in> handed_out pm (pm_calls p). nx x = obj_next p x"
      and cs: "case r of None \<Rightarrow> refused pm (Suc (pm_calls p)) c
         | Some a \<Rightarrow> \<exists>ys. length ys = n \<and> chain nx a (ys @ ?a # xs) \<and> distinct (ys @ ?a # xs) \<and>
             set (ys @ ?a # xs) \<inter> H = {} \<and> set (ys @ ?a # xs) \<union> H \<subseteq> handed_out pm c"
      using IH new unfolding pc by (auto simp: handed_out_Suc)
    have "case r of None \<Rightarrow> refused pm (pm_calls p) c
        | Some a \<Rightarrow> \<exists>ys. length ys = Suc n \<and> chain nx a (ys @ xs) \<and> distinct (ys @ xs) \<and>
            set (ys @ xs) \<inter> H = {} \<and> set (ys @ xs) \<union> H \<subseteq> handed_out pm c"
    proof (cases r)
      case None then show ?thesis using cs by (auto simp: refused_def intro: Suc_leD)
    next
      case (Some a)
      then obtain ys where "length ys = n" "chain nx a (ys @ ?a # xs)" "distinct (ys @ ?a # xs)"
        "set (ys @ ?a # xs) \<inter> H = {}" "set (ys @ ?a # xs) \<union> H \<subseteq> handed_out pm c"
        using cs by auto
      then show ?thesis unfolding Some option.case by (intro exI [of _ "ys @ [?a]"]) simp
    qed
    then show ?thesis using e by (auto simp: handed_out_Suc intro!: exI [of _ nx] exI [of _ c])
  qed
qed

text \<open>Resizing keeps the pool well-formed; it leaves the queue empty only if an allocation failed.\<close>

lemma resize_ok:
  assumes ok: "pool_ok pm p xs H"
  shows "\<exists>ys. pool_ok pm (resize pm p) (ys @ xs) H \<and>
    (ys @ xs = [] \<longrightarrow> element_count p = 0 \<or> refused pm (pm_calls p) (pm_calls (resize pm p))) \<and>
    (\<forall>x \<in> handed_out pm (pm_calls p). obj_next (resize pm p) x = obj_next p x)"
proof (cases "unat (element_count p) * 9 \<le> unat (free_count p) * 10")
  case True
  then have r: "resize pm p = p" by (simp add: resize_def)
  have "element_count p = 0" if "xs = []"
    using True ok that by (simp add: pool_ok_def word_unat_eq_iff)
  then show ?thesis using ok unfolding r by (intro exI [of _ "[]"]) simp
next
  case False
  define upd where "upd = (if PEEK \<le> element_count p then DEFAULT_MIN_SIZE else element_count p)"
  obtain r p1 where pn: "push_nodes pm (unat upd) (obj_queue p) p = (r, p1)" by (meson surj_pair)
  have ok': "fresh_blocks pm" "chain (obj_next p) (obj_queue p) xs" "distinct xs" "set xs \<inter> H = {}"
    "set xs \<union> H \<subseteq> handed_out pm (pm_calls p)" "unat (free_count p) = length xs"
    using ok by (simp_all add: pool_ok_def)
  obtain nx c where p1: "p1 = p\<lparr>obj_next := nx, pm_calls := c\<rparr>"
      "handed_out pm (pm_calls p) \<subseteq> handed_out pm c" "\<forall>x \<in> handed_out pm (pm_calls p). nx x = obj_next p x"
    and cs: "case r of None \<Rightarrow> refused pm (pm_calls p) c
      | Some a \<Rightarrow> \<exists>ys. length ys = unat upd \<and> chain nx a (ys @ xs) \<and> distinct (ys @ xs) \<and>
          set (ys @ xs) \<inter> H = {} \<and> set (ys @ xs) \<union> H \<subseteq> handed_out pm c"
    using push_nodes_spec [OF ok'(1-5) pn] by auto
  have rs: "resize pm p = (case r of None \<Rightarrow> p1 | Some a \<Rightarrow>
      p1\<lparr>obj_queue := a, element_count := element_count p1 + upd, free_count := free_count p1 + upd\<rparr>)"
    using False pn by (simp add: resize_def Let_def upd_def split: option.split)
  show ?thesis
  proof (cases r)
    case None
    have "\<And>x. x \<in> set xs \<Longrightarrow> nx x = obj_next p x" using ok'(5) p1(3) by blast
    from chain_cong [of xs nx "obj_next p", OF this] have "chain nx (obj_queue p) xs" using ok'(2) by simp
    then show ?thesis using None rs p1 ok' cs by (intro exI [of _ "[]"]) (auto simp: pool_ok_def)
  next
    case (Some a)
    then obtain ys where ys: "length ys = unat upd" "chain nx a (ys @ xs)" "distinct (ys @ xs)"
      "set (ys @ xs) \<inter> H = {}" "set (ys @ xs) \<union> H \<subseteq> handed_out pm c" using cs by auto
    have len: "length (ys @ xs) < 2 ^ 64" by (rule distinct_addresses [OF ys(3) chain_nonzero [OF ys(2)]])
    have "unat (free_count p + upd) = length (ys @ xs)"
      using len ys(1) ok'(6) by (subst unat_add_no_wrap) simp_all
    then have "pool_ok pm (resize pm p) (ys @ xs) H"
      using Some rs p1 ys ok'(1) by (simp add: pool_ok_def)
    moreover have "ys \<noteq> []" if "element_count p \<noteq> 0"
      using ys(1) that by (auto simp: upd_def DEFAULT_MIN_SIZE_def unat_eq_0 split: if_splits)
    ultimately show ?thesis using Some rs p1 by (intro exI [of _ ys]) auto
  qed
qed

lemma cmt_object_get_ok:
  assumes ok: "pool_ok pm p xs H"
  shows "\<exists>a p' zs. cmt_object_get pm p = Inr (a, p') \<and>
    (if a = 0 then xs = [] \<and> zs = [] \<and> pool_ok pm p' [] H \<and> (element_count p = 0 \<or> refused pm (pm_calls p) (pm_calls p'))
     else a \<notin> H \<and> pool_ok pm p' zs (insert a H) \<and> set xs \<subseteq> insert a (set zs))"
proof -
  let ?q = "resize pm p"
  obtain ys where ys: "pool_ok pm ?q (ys @ xs) H"
    "ys @ xs = [] \<longrightarrow> element_count p = 0 \<or> refused pm (pm_calls p) (pm_calls (resize pm p))" using resize_ok [OF ok] by blast
  show ?thesis
  proof (cases "ys @ xs")
    case Nil
    then have "cmt_object_get pm p = Inr (0, ?q)"
      using ys(1) by (simp add: cmt_object_get_def Let_def pool_ok_def unat_eq_0)
    then show ?thesis using ys Nil by auto
  next
    case (Cons a zs)
    let ?p' = "?q\<lparr>obj_queue := obj_next ?q a, free_count := free_count ?q - 1\<rparr>"
    have a: "obj_queue ?q = a" "a \<noteq> 0" "unat (free_count ?q) = Suc (length zs)"
      using ys(1) Cons by (simp_all add: pool_ok_def)
    then have fc: "free_count ?q \<noteq> 0" by auto
    then have "unat (free_count ?q - 1) = length zs" using a(3) by (simp add: unat_minus_one)
    then have "pool_ok pm ?p' zs (insert a H)" using ys(1) Cons by (auto simp: pool_ok_def)
    moreover have "cmt_object_get pm p = Inr (a, ?p')" using a fc by (simp add: cmt_object_get_def Let_def)
    moreover have "set ys \<union> set xs = insert a (set zs)" using arg_cong [OF Cons, of set] by simp
    then have "set xs \<subseteq> insert a (set zs)" by blast
    moreover have "a \<notin> H" using ys(1) Cons by (simp add: pool_ok_def)
    ultimately show ?thesis using a(2) by (intro exI [of _ a] exI [of _ ?p'] exI [of _ zs]) simp
  qed
qed

lemma cmt_object_free_ok:
  assumes ok: "pool_ok pm p xs H" and x: "x \<in> H"
  shows "\<exists>p'. cmt_object_free p x = Inr p' \<and> pool_ok pm p' (x # xs) (H - {x})"
proof -
  have n: "x \<noteq> 0" "x \<notin> set xs" using ok x by (auto simp: pool_ok_def handed_out_def)
  have d: "distinct (x # xs)" "0 \<notin> set (x # xs)"
    using ok n chain_nonzero by (auto simp: pool_ok_def)
  have "unat (free_count p + 1) = length (x # xs)"
    using distinct_addresses [OF d] ok by (subst unat_add_no_wrap) (simp_all add: pool_ok_def)
  then show ?thesis using ok n x by (auto simp: cmt_object_free_def set_next_def pool_ok_def)
qed

text \<open>
  The pool and the objects that are out, as a provider of \<open>growing_pool\<close>: between two requests the
  clients write what they like (\<open>w\<close>) into the objects they hold.
\<close>

definition client_writes :: "u64 set \<Rightarrow> (u64 \<Rightarrow> u64) \<Rightarrow> obj_pool \<Rightarrow> obj_pool" where
  "client_writes H w p = p\<lparr>obj_next := (\<lambda>a. if a \<in> H then w a else obj_next p a)\<rparr>"

definition free_objects :: "obj_pool \<Rightarrow> u64 set" where
  "free_objects p = {a. \<exists>xs. chain (obj_next p) (obj_queue p) xs \<and> a \<in> set xs}"

definition obj_lend :: "(nat \<Rightarrow> u64) \<Rightarrow> obj_pool \<times> u64 set \<Rightarrow> (u64 \<Rightarrow> u64) \<Rightarrow> (u64 option \<times> obj_pool \<times> u64 set) res" where
  "obj_lend pm = (\<lambda>(p, H) w. andThen (cmt_object_get pm (client_writes H w p)) (\<lambda>(a, p').
     Inr (if a = 0 then (None, p', H) else (Some a, p', insert a H))))"

definition obj_return :: "obj_pool \<times> u64 set \<Rightarrow> u64 \<Rightarrow> (obj_pool \<times> u64 set) res" where
  "obj_return = (\<lambda>(p, H) x. andThen (cmt_object_free p x) (\<lambda>p'. Inr (p', H - {x})))"

lemma free_objects_chain: "chain (obj_next p) (obj_queue p) xs \<Longrightarrow> free_objects p = set xs"
  using chain_unique by (auto simp: free_objects_def)

lemma free_objects_ok [simp]: "pool_ok pm p xs H \<Longrightarrow> free_objects p = set xs"
  by (rule free_objects_chain) (simp add: pool_ok_def)

lemma client_writes_ok: "pool_ok pm p xs H \<Longrightarrow> pool_ok pm (client_writes H w p) xs H"
  using chain_cong [of xs "obj_next (client_writes H w p)" "obj_next p"]
  by (fastforce simp: pool_ok_def client_writes_def)

lemma lend_ok:
  assumes "pool_ok pm p xs H"
  shows "\<exists>r s' zs. obj_lend pm (p, H) w = Inr (r, s') \<and> pool_ok pm (fst s') zs (snd s') \<and>
    (case r of None \<Rightarrow> snd s' = H \<and> xs = [] \<and> (element_count p = 0 \<or> refused pm (pm_calls p) (pm_calls (fst s')))
     | Some a \<Rightarrow> a \<noteq> 0 \<and> a \<notin> H \<and> snd s' = insert a H \<and> set xs \<subseteq> insert a (set zs))"
proof -
  obtain a p' zs where g: "cmt_object_get pm (client_writes H w p) = Inr (a, p')"
    "if a = 0 then xs = [] \<and> zs = [] \<and> pool_ok pm p' [] H \<and>
        (element_count (client_writes H w p) = 0 \<or> refused pm (pm_calls (client_writes H w p)) (pm_calls p'))
     else a \<notin> H \<and> pool_ok pm p' zs (insert a H) \<and> set xs \<subseteq> insert a (set zs)"
    using cmt_object_get_ok [OF client_writes_ok [OF assms, of w]] by blast
  show ?thesis
  proof (cases "a = 0")
    case True
    have f: "element_count (client_writes H w p) = element_count p" "pm_calls (client_writes H w p) = pm_calls p"
      by (simp_all add: client_writes_def)
    from g True have "obj_lend pm (p, H) w = Inr (None, p', H)" "xs = []" "pool_ok pm p' [] H"
      "element_count p = 0 \<or> refused pm (pm_calls p) (pm_calls p')" unfolding f by (auto simp: obj_lend_def)
    then show ?thesis by (intro exI [of _ None] exI [of _ "(p', H)"] exI [of _ "[]"]) simp
  next
    case False
    then show ?thesis using g
      by (intro exI [of _ "Some a"] exI [of _ "(p', insert a H)"] exI [of _ zs]) (simp add: obj_lend_def)
  qed
qed

interpretation obj: growing_pool "\<lambda>s. \<exists>xs. pool_ok pm (fst s) xs (snd s)" "\<lambda>s. free_objects (fst s)" snd
    "obj_lend pm" obj_return
  for pm :: "nat \<Rightarrow> u64"
proof unfold_locales
  fix s w s' assume s: "\<exists>xs. pool_ok pm (fst s) xs (snd s)" "obj_lend pm s w = Inr (None, s')"
  then obtain xs where "pool_ok pm (fst s) xs (snd s)" by blast
  from lend_ok [OF this, of w] s(2) show "(\<exists>xs. pool_ok pm (fst s') xs (snd s')) \<and> snd s' = snd s" by auto
next
  fix s w x s' assume s: "\<exists>xs. pool_ok pm (fst s) xs (snd s)" "obj_lend pm s w = Inr (Some x, s')"
  then obtain xs where "pool_ok pm (fst s) xs (snd s)" by blast
  from lend_ok [OF this, of w] s(2) this show "(\<exists>xs. pool_ok pm (fst s') xs (snd s')) \<and> x \<notin> snd s \<and>
      snd s' = insert x (snd s) \<and> free_objects (fst s) \<subseteq> insert x (free_objects (fst s'))"
    by auto
next
  fix s :: "obj_pool \<times> u64 set" and x assume "\<exists>xs. pool_ok pm (fst s) xs (snd s)" "x \<in> snd s"
  then obtain xs where xs: "pool_ok pm (fst s) xs (snd s)" "x \<in> snd s" by blast
  from cmt_object_free_ok [OF this] obtain p' where
    "cmt_object_free (fst s) x = Inr p'" "pool_ok pm p' (x # xs) (snd s - {x})" by blast
  then show "\<exists>s'. obj_return s x = Inr s' \<and> (\<exists>xs. pool_ok pm (fst s') xs (snd s')) \<and>
      free_objects (fst s') = insert x (free_objects (fst s)) \<and> snd s' = snd s - {x}"
    using xs by (intro exI [of _ "(p', snd s - {x})"]) (auto simp: obj_return_def split_beta)
qed

subsection \<open>Creation and destruction\<close>

lemma chain_extend:
  "chain nx q (xs @ [t]) \<Longrightarrow> distinct (xs @ [t]) \<Longrightarrow> a \<notin> set (xs @ [t]) \<Longrightarrow> a \<noteq> 0 \<Longrightarrow>
   chain (nx(t := a, a := 0)) q (xs @ [t, a])"
  by (induction xs arbitrary: q) auto

lemma create_nodes_ok:
  "fresh_blocks pm \<Longrightarrow> \<not> refused pm (pm_calls p) (pm_calls p + n) \<Longrightarrow>
   chain (obj_next p) q (xs @ [t]) \<Longrightarrow> distinct (xs @ [t]) \<Longrightarrow> set (xs @ [t]) \<subseteq> handed_out pm (pm_calls p) \<Longrightarrow>
   \<exists>nx ys. create_nodes pm n t p = Inr (p\<lparr>obj_next := nx, pm_calls := pm_calls p + n\<rparr>) \<and>
     chain nx q (xs @ t # ys) \<and> distinct (xs @ t # ys) \<and> length ys = n \<and>
     set (xs @ t # ys) \<subseteq> handed_out pm (pm_calls p + n)"
proof (induction n arbitrary: p xs t)
  case 0
  then show ?case by (intro exI [of _ "obj_next p"] exI [of _ "[]"]) simp
next
  case (Suc n)
  let ?a = "pm (pm_calls p)"
  let ?p2 = "p\<lparr>pm_calls := Suc (pm_calls p), obj_next := (obj_next p)(t := ?a, ?a := 0)\<rparr>"
  have a: "?a \<noteq> 0" using Suc.prems(2) by (auto simp: refused_def)
  then have new: "?a \<notin> set (xs @ [t])" using fresh_not_handed_out [OF Suc.prems(1)] Suc.prems(5) by blast
  have t: "t \<noteq> 0" using chain_nonzero [OF Suc.prems(3)] by auto
  have step: "create_nodes pm (Suc n) t p = create_nodes pm n ?a ?p2"
    using a t by (simp add: pm_call_def set_next_def)
  have ch: "chain (obj_next ?p2) q ((xs @ [t]) @ [?a])"
    using chain_extend [OF Suc.prems(3,4) new a] by simp
  have "\<exists>nx ys. create_nodes pm n ?a ?p2 = Inr (?p2\<lparr>obj_next := nx, pm_calls := pm_calls ?p2 + n\<rparr>) \<and>
     chain nx q ((xs @ [t]) @ ?a # ys) \<and> distinct ((xs @ [t]) @ ?a # ys) \<and> length ys = n \<and>
     set ((xs @ [t]) @ ?a # ys) \<subseteq> handed_out pm (pm_calls ?p2 + n)"
    by (rule Suc.IH [OF Suc.prems(1) _ ch])
      (use Suc.prems(2,4,5) new a in \<open>auto simp: refused_def handed_out_Suc\<close>)
  then obtain nx ys where "create_nodes pm (Suc n) t p = Inr (p\<lparr>obj_next := nx, pm_calls := pm_calls p + Suc n\<rparr>)"
     "chain nx q (xs @ t # ?a # ys)" "distinct (xs @ t # ?a # ys)" "length ys = n"
     "set (xs @ t # ?a # ys) \<subseteq> handed_out pm (pm_calls p + Suc n)"
    unfolding step by auto
  then show ?case by (intro exI [of _ nx] exI [of _ "?a # ys"]) simp
qed

text \<open>
  Had the first check been the right way round: the queue gets the objects that were asked for, and
  \<open>free_count\<close> the size of one.
\<close>

lemma pool_setup_ok:
  assumes pm: "fresh_blocks pm" "\<not> refused pm (pm_calls p) (pm_calls p + unat num)" and n: "obj_p \<noteq> 0" "0 < num"
  shows "\<exists>p' xs. pool_setup pm obj_p num elemen align p = Inr (obj_p, p') \<and>
    chain (obj_next p') (obj_queue p') xs \<and> distinct xs \<and> length xs = unat num \<and>
    set xs \<subseteq> handed_out pm (pm_calls p') \<and> element_count p' = num \<and> free_count p' = elemen"
proof -
  obtain n where num: "unat num = Suc n" using n(2) by (metis gr0_implies_Suc unat_gt_0 word_gt_0)
  let ?a = "pm (pm_calls p)"
  let ?p = "p\<lparr>obj_align := align, element_count := num, element_size := elemen, free_count := elemen,
    pm_calls := Suc (pm_calls p), obj_queue := ?a, obj_next := (obj_next p)(?a := 0)\<rparr>"
  have a: "?a \<noteq> 0" using pm(2) num by (auto simp: refused_def)
  have "\<exists>nx ys. create_nodes pm n ?a ?p = Inr (?p\<lparr>obj_next := nx, pm_calls := pm_calls ?p + n\<rparr>) \<and>
     chain nx ?a ([] @ ?a # ys) \<and> distinct ([] @ ?a # ys) \<and> length ys = n \<and>
     set ([] @ ?a # ys) \<subseteq> handed_out pm (pm_calls ?p + n)"
    by (rule create_nodes_ok) (use pm num a in \<open>auto simp: refused_def handed_out_Suc\<close>)
  then obtain nx ys where c: "create_nodes pm n ?a ?p = Inr (?p\<lparr>obj_next := nx, pm_calls := pm_calls ?p + n\<rparr>)"
    "chain nx ?a (?a # ys)" "distinct (?a # ys)" "length ys = n" "set (?a # ys) \<subseteq> handed_out pm (pm_calls ?p + n)"
    by auto
  have "pool_setup pm obj_p num elemen align p = Inr (obj_p, ?p\<lparr>obj_next := nx, pm_calls := pm_calls ?p + n\<rparr>)"
    using n(1) a c(1) num by (simp add: pool_setup_def pm_call_def set_next_def Let_def)
  then show ?thesis using c num
    by (intro exI [of _ "?p\<lparr>obj_next := nx, pm_calls := pm_calls ?p + n\<rparr>"] exI [of _ "?a # ys"]) simp
qed

lemma pool_setup_pool_ok:
  assumes pm: "fresh_blocks pm" "\<not> refused pm (pm_calls p) (pm_calls p + unat num)" and n: "obj_p \<noteq> 0" "0 < num"
  shows "\<exists>p' xs. pool_setup pm obj_p num num align p = Inr (obj_p, p') \<and> pool_ok pm p' xs {} \<and> element_count p' = num"
  using pool_setup_ok [OF assms, of num align] pm(1) by (fastforce simp: pool_ok_def)

text \<open>Asking for \<open>n\<close> objects, one after the other.\<close>

fun get_objects :: "(nat \<Rightarrow> u64) \<Rightarrow> nat \<Rightarrow> obj_pool \<Rightarrow> (u64 list \<times> obj_pool) res" where
  "get_objects pm 0 p = Inr ([], p)"
| "get_objects pm (Suc n) p =
     andThen (cmt_object_get pm p) (\<lambda>(a, p').
     andThen (get_objects pm n p') (\<lambda>(as, p''). Inr (a # as, p'')))"

lemma get_objects_overdrawn:
  "chain (obj_next p) (obj_queue p) xs \<Longrightarrow> length xs < unat (free_count p) \<Longrightarrow>
   unat (element_count p) * 9 \<le> (unat (free_count p) - length xs) * 10 \<Longrightarrow>
   (\<exists>p'. get_objects pm (length xs) p = Inr (xs, p')) \<and>
   get_objects pm (Suc (length xs)) p = Inl NullDeref"
proof (induction xs arbitrary: p)
  case Nil
  then show ?case by (auto simp: cmt_object_get_def resize_def)
next
  case (Cons x xs)
  let ?p = "p\<lparr>obj_queue := obj_next p x, free_count := free_count p - 1\<rparr>"
  have fc: "unat (free_count p - 1) = unat (free_count p) - 1"
    using Cons.prems(2) by (simp add: unat_sub_eq)
  have "free_count p \<noteq> 0" using Cons.prems(2) by auto
  then have g: "cmt_object_get pm p = Inr (x, ?p)"
    using Cons.prems by (auto simp: cmt_object_get_def resize_def)
  have IH: "(\<exists>p'. get_objects pm (length xs) ?p = Inr (xs, p')) \<and>
      get_objects pm (Suc (length xs)) ?p = Inl NullDeref"
    by (rule Cons.IH) (use Cons.prems fc in auto)
  have s: "get_objects pm (Suc n) p = andThen (get_objects pm n ?p) (\<lambda>(as, p''). Inr (x # as, p''))" for n
    by (simp add: g)
  show ?case using IH s [of "length xs"] s [of "Suc (length xs)"] by auto
qed

lemma destroy_nodes_frees:
  "chain (obj_next p) a xs \<Longrightarrow> destroy_nodes pa p a = Some (replicate (length xs) (Pmemfree pa))"
proof (induction xs arbitrary: a)
  case Nil then show ?case by (simp add: destroy_nodes.simps)
next
  case (Cons x xs) then show ?case by (subst destroy_nodes.simps) simp
qed

text \<open>
  Destroying a pool gives its own structure back once for every free object and once more at the
  end, and none of the objects.
\<close>

lemma cmt_object_pool_destroy_frees:
  "chain (obj_next p) (obj_queue p) xs \<Longrightarrow>
   cmt_object_pool_destroy pa p = Some (replicate (length xs) (Pmemfree pa) @ [Pfree pa])"
  by (simp add: cmt_object_pool_destroy_def destroy_nodes_frees)

text \<open>A memory pool that answers with blocks of 16 bytes.\<close>

definition blocks :: "nat \<Rightarrow> u64" where
  "blocks k = (if k < 256 then of_nat (16 * Suc k) else 0)"

lemma unat_blocks: "k < 256 \<Longrightarrow> unat (blocks k) = 16 * Suc k"
proof -
  assume k: "k < 256"
  have "16 * Suc k < 2 ^ LENGTH(64)" using k by simp
  then show ?thesis using k by (simp only: blocks_def if_True unat_of_nat mod_less)
qed

lemma blocks_fresh: "fresh_blocks blocks"
proof -
  have "i = j" if "blocks i \<noteq> 0" "blocks i = blocks j" for i j
  proof -
    have ij: "i < 256" "j < 256" using that by (auto simp: blocks_def split: if_splits)
    have "16 * Suc i = 16 * Suc j"
      using unat_blocks [OF ij(1)] unat_blocks [OF ij(2)] unfolding that(2) by (rule trans [OF sym])
    then show ?thesis by simp
  qed
  then show ?thesis unfolding fresh_blocks_def by blast
qed

lemma blocks_given: "n \<le> 256 \<Longrightarrow> \<not> refused blocks m n"
proof
  assume n: "n \<le> 256" "refused blocks m n"
  then obtain k where k: "k < n" "blocks k = 0" by (auto simp: refused_def)
  then have "unat (blocks k) = 16 * Suc k" using n(1) by (intro unat_blocks) simp
  then show False using k(2) by simp
qed

definition no_memory :: obj_pool where
  "no_memory = \<lparr>element_size = 0, element_count = 0, free_count = 0, obj_align = 0, obj_queue = 0,
    obj_next = (\<lambda>_. 0), pm_calls = 0\<rparr>"

lemma blocks_simps [simp]: "blocks 0 = 16" "blocks (Suc 0) = 32" "blocks (Suc (Suc 0)) = 48"
  "blocks (Suc (Suc (Suc 0))) = 64"
  by (simp_all add: blocks_def)

text \<open>
  With the first check of \<open>cmt_object_pool_create_s\<close> the right way round, a new pool of \<open>num\<close>
  objects of \<open>elemen\<close> bytes still says it has \<open>elemen\<close> free ones. When \<open>elemen\<close> is at least twice
  \<open>num\<close>, it lends its \<open>num\<close> objects without growing, and the request after that dereferences the end of the
  queue instead of growing the pool or answering \<open>NULL\<close>.
\<close>

theorem new_pool_overdrawn:
  assumes "fresh_blocks pm" "\<not> refused pm (pm_calls p) (pm_calls p + unat num)"
    and "obj_p \<noteq> 0" "0 < num" "2 * unat num \<le> unat elemen"
  shows "\<exists>p' xs. pool_setup pm obj_p num elemen align p = Inr (obj_p, p') \<and>
    distinct xs \<and> length xs = unat num \<and>
    (\<exists>p''. get_objects pm (unat num) p' = Inr (xs, p'')) \<and>
    get_objects pm (Suc (unat num)) p' = Inl NullDeref"
proof -
  obtain p' xs where s: "pool_setup pm obj_p num elemen align p = Inr (obj_p, p')"
    "chain (obj_next p') (obj_queue p') xs" "distinct xs" "length xs = unat num"
    "element_count p' = num" "free_count p' = elemen"
    using pool_setup_ok [OF assms(1-4)] by blast
  have "0 < unat num" using assms(4) by (simp add: unat_gt_0)
  then show ?thesis using get_objects_overdrawn [OF s(2), of pm] s assms(5) by auto
qed

lemma new_pool_overdrawn_witness:
  "\<exists>p' xs. pool_setup blocks 64 4 200 8 no_memory = Inr (64, p') \<and> distinct xs \<and> length xs = 4 \<and>
    (\<exists>p''. get_objects blocks 4 p' = Inr (xs, p'')) \<and> get_objects blocks (Suc 4) p' = Inl NullDeref"
proof -
  have "\<not> refused blocks (pm_calls no_memory) (pm_calls no_memory + unat (4 :: u64))"
    by (rule blocks_given) (simp add: no_memory_def)
  from new_pool_overdrawn [OF blocks_fresh this, of 64 200 8] show ?thesis by simp
qed

end
