(* ===== verification/Stream_Manager.thy ===== *)
theory Stream_Manager
  imports Object_Pool
begin

text \<open>
  The stream manager of \<open>src/tcp_buffer.c\<close>: the object pool that \<open>tcp_stream.c\<close> takes its stream
  structures from, with the number \<open>cnum\<close> of those in use. \<open>free_stream\<close> writes \<open>cnum\<close> under the
  name \<open>cum\<close>, which no structure has; the model reads it as \<open>cnum\<close>.
\<close>

subsection \<open>State and operations\<close>

text \<open>\<open>stream_pool\<close> is a pointer: \<open>None\<close> is \<open>NULL\<close>.\<close>

record stream_manager =
  stream_size :: u64
  sm_cnum :: u32
  stream_pool :: "obj_pool option"

fun pool_of :: "stream_manager \<Rightarrow> obj_pool res" where
  "pool_of sm = (case stream_pool sm of None \<Rightarrow> Inl NullDeref | Some p \<Rightarrow> Inr p)"

definition get_stream :: "(nat \<Rightarrow> u64) \<Rightarrow> stream_manager \<Rightarrow> (u64 \<times> stream_manager) res" where
  "get_stream pm sm =
     andThen (pool_of sm) (\<lambda>p.
     andThen (cmt_object_get pm p) (\<lambda>(stream, p').
     let sm1 = sm\<lparr>stream_pool := Some p'\<rparr>
     in Inr (stream, if stream = 0 then sm1 else sm1\<lparr>sm_cnum := sm_cnum sm1 + 1\<rparr>)))"

definition free_stream :: "stream_manager \<Rightarrow> u64 \<Rightarrow> stream_manager res" where
  "free_stream sm stream =
     andThen (pool_of sm) (\<lambda>p.
     andThen (cmt_object_free p stream) (\<lambda>p'.
     Inr (sm\<lparr>stream_pool := Some p', sm_cnum := sm_cnum sm - 1\<rparr>)))"

text \<open>
  \<open>create_stream_manager\<close>; \<open>smp\<close> and \<open>obj_p\<close> are what \<open>cmt_palloc\<close> answers for the manager and for its
  pool, \<open>sz\<close> is the size of a stream and \<open>p\<close> the memory. After the pool was made the code tests the
  manager's pointer again, not the pool's.
\<close>

definition create_stream_manager ::
  "(nat \<Rightarrow> u64) \<Rightarrow> u64 \<Rightarrow> u64 \<Rightarrow> u64 \<Rightarrow> obj_pool \<Rightarrow> stream_manager option res" where
  "create_stream_manager pm smp obj_p sz p =
     (if smp = 0 then Inr None
      else andThen (cmt_object_pool_create pm obj_p sz 0 p) (\<lambda>(r, p').
           Inr (Some \<lparr>stream_size = sz, sm_cnum = 0, stream_pool = (if r = 0 then None else Some p')\<rparr>)))"

text \<open>\<open>pa\<close> and \<open>smp\<close> are the addresses of the pool and of the manager.\<close>

definition stream_manager_destroy :: "u64 \<Rightarrow> u64 \<Rightarrow> stream_manager option \<Rightarrow> given_back list res" where
  "stream_manager_destroy smp pa sm =
     (case sm of None \<Rightarrow> Inr []
      | Some m \<Rightarrow> andThen (pool_of m) (\<lambda>p.
          with_fuel (map_option (\<lambda>es. Inr (es @ [Pfree smp])) (cmt_object_pool_destroy pa p))))"

subsection \<open>The manager lends what its pool lends\<close>

text \<open>
  A manager with the streams \<open>H\<close> out: its pool is well-formed and \<open>cnum\<close> counts \<open>H\<close>. The clients write
  into the streams they hold (\<open>w\<close>) between two requests.
\<close>

definition sm_ok :: "(nat \<Rightarrow> u64) \<Rightarrow> stream_manager \<times> u64 set \<Rightarrow> bool" where
  "sm_ok pm = (\<lambda>(sm, H). \<exists>p xs. stream_pool sm = Some p \<and> pool_ok pm p xs H \<and> sm_cnum sm = of_nat (card H))"

definition sm_free :: "stream_manager \<times> u64 set \<Rightarrow> u64 set" where
  "sm_free s = (case stream_pool (fst s) of None \<Rightarrow> {} | Some p \<Rightarrow> free_objects p)"

definition sm_writes :: "u64 set \<Rightarrow> (u64 \<Rightarrow> u64) \<Rightarrow> stream_manager \<Rightarrow> stream_manager" where
  "sm_writes H w sm = sm\<lparr>stream_pool := map_option (client_writes H w) (stream_pool sm)\<rparr>"

definition request_stream ::
  "(nat \<Rightarrow> u64) \<Rightarrow> stream_manager \<times> u64 set \<Rightarrow> (u64 \<Rightarrow> u64) \<Rightarrow>
    (u64 option \<times> stream_manager \<times> u64 set) res" where
  "request_stream pm = (\<lambda>(sm, H) w. andThen (get_stream pm (sm_writes H w sm)) (\<lambda>(a, sm').
     Inr (if a = 0 then (None, sm', H) else (Some a, sm', insert a H))))"

definition return_stream :: "stream_manager \<times> u64 set \<Rightarrow> u64 \<Rightarrow> (stream_manager \<times> u64 set) res" where
  "return_stream = (\<lambda>(sm, H) x. andThen (free_stream sm x) (\<lambda>sm'. Inr (sm', H - {x})))"

lemma request_stream_pool:
  assumes "stream_pool sm = Some p" and l: "obj_lend pm (p, H) w = Inr (r, p', H')"
  shows "request_stream pm (sm, H) w =
    Inr (r, sm\<lparr>stream_pool := Some p', sm_cnum := sm_cnum sm + (if r = None then 0 else 1)\<rparr>, H')"
proof -
  from l obtain a where a: "cmt_object_get pm (client_writes H w p) = Inr (a, p')"
    "(r, H') = (if a = 0 then (None, H) else (Some a, insert a H))"
    by (auto simp: obj_lend_def andThen_Inr_iff split: if_splits)
  then show ?thesis using assms(1)
    by (auto simp: request_stream_def get_stream_def sm_writes_def Let_def split: if_splits)
qed

lemma return_stream_pool:
  assumes "stream_pool sm = Some p" and "obj_return (p, H) x = Inr (p', H')"
  shows "return_stream (sm, H) x = Inr (sm\<lparr>stream_pool := Some p', sm_cnum := sm_cnum sm - 1\<rparr>, H')"
  using assms by (auto simp: return_stream_def free_stream_def obj_return_def andThen_Inr_iff)

lemma pool_ok_finite: "pool_ok pm p xs H \<Longrightarrow> finite H"
  by (rule finite_subset [of _ "handed_out pm (pm_calls p)"]) (auto simp: pool_ok_def handed_out_def)

lemma request_stream_ok:
  assumes "sm_ok pm (sm, H)"
  shows "\<exists>r s'. request_stream pm (sm, H) w = Inr (r, s') \<and> sm_ok pm s' \<and>
    (case r of None \<Rightarrow> snd s' = H
     | Some a \<Rightarrow> a \<notin> H \<and> snd s' = insert a H \<and> sm_free (sm, H) \<subseteq> insert a (sm_free s'))"
proof -
  obtain p xs where p: "stream_pool sm = Some p" "pool_ok pm p xs H" "sm_cnum sm = of_nat (card H)"
    using assms by (auto simp: sm_ok_def)
  obtain r s' zs where ls: "obj_lend pm (p, H) w = Inr (r, s')" "pool_ok pm (fst s') zs (snd s')"
    and cs: "case r of None \<Rightarrow> snd s' = H \<and> xs = [] \<and>
        (element_count p = 0 \<or> refused pm (pm_calls p) (pm_calls (fst s')))
      | Some a \<Rightarrow> a \<noteq> 0 \<and> a \<notin> H \<and> snd s' = insert a H \<and> set xs \<subseteq> insert a (set zs)"
    using lend_ok [OF p(2), of w] by blast
  obtain p' H' where s': "s' = (p', H')" by (cases s')
  have l: "obj_lend pm (p, H) w = Inr (r, p', H')" "pool_ok pm p' zs H'" using ls s' by simp_all
  have c: "case r of None \<Rightarrow> H' = H | Some a \<Rightarrow> a \<notin> H \<and> H' = insert a H \<and> set xs \<subseteq> insert a (set zs)"
    using cs s' by (cases r) simp_all
  have f: "finite H" by (rule pool_ok_finite [OF p(2)])
  have "sm_cnum sm + (if r = None then 0 else 1) = of_nat (card H')"
    using c f p(3) by (cases r) (auto simp: add.commute)
  moreover have "sm_free (sm, H) = set xs" using p by (simp add: sm_free_def)
  ultimately show ?thesis using request_stream_pool [OF p(1) l(1)] l(2) c
    by (cases r) (auto simp: sm_ok_def sm_free_def)
qed

interpretation streams: growing_pool "sm_ok pm" sm_free snd "request_stream pm" return_stream
  for pm :: "nat \<Rightarrow> u64"
proof unfold_locales
  fix s w s' assume "sm_ok pm s" "request_stream pm s w = Inr (None, s')"
  then show "sm_ok pm s' \<and> snd s' = snd s"
    using request_stream_ok [of pm "fst s" "snd s" w] by auto
next
  fix s w x s' assume "sm_ok pm s" "request_stream pm s w = Inr (Some x, s')"
  then show "sm_ok pm s' \<and> x \<notin> snd s \<and> snd s' = insert x (snd s) \<and> sm_free s \<subseteq> insert x (sm_free s')"
    using request_stream_ok [of pm "fst s" "snd s" w] by auto
next
  fix s x assume s: "sm_ok pm s" "x \<in> snd s"
  obtain sm H where sH: "s = (sm, H)" by (cases s)
  obtain p xs where p: "stream_pool sm = Some p" "pool_ok pm p xs H" "sm_cnum sm = of_nat (card H)"
    using s(1) sH by (auto simp: sm_ok_def)
  have x: "x \<in> H" using s(2) sH by simp
  obtain p' where p': "cmt_object_free p x = Inr p'" "pool_ok pm p' (x # xs) (H - {x})"
    using cmt_object_free_ok [OF p(2) x] by blast
  then have "obj_return (p, H) x = Inr (p', H - {x})" by (simp add: obj_return_def)
  from return_stream_pool [OF p(1) this]
  have r: "return_stream (sm, H) x = Inr (sm\<lparr>stream_pool := Some p', sm_cnum := sm_cnum sm - 1\<rparr>, H - {x})" .
  have f: "finite H" by (rule pool_ok_finite [OF p(2)])
  then obtain n where n: "card H = Suc n" using x by (metis card.remove)
  then have "card (H - {x}) = n" using f x by simp
  then have "sm_cnum sm - 1 = of_nat (card (H - {x}))" using p(3) n by simp
  then have "sm_ok pm (sm\<lparr>stream_pool := Some p', sm_cnum := sm_cnum sm - 1\<rparr>, H - {x})"
    using p'(2) by (auto simp: sm_ok_def)
  moreover have "sm_free (sm\<lparr>stream_pool := Some p', sm_cnum := sm_cnum sm - 1\<rparr>, H - {x}) = insert x (sm_free s)"
    using p(1,2) p'(2) sH by (simp add: sm_free_def)
  ultimately show "\<exists>s'. return_stream s x = Inr s' \<and> sm_ok pm s' \<and> sm_free s' = insert x (sm_free s) \<and>
      snd s' = snd s - {x}"
    using r sH by (intro exI [of _ "(sm\<lparr>stream_pool := Some p', sm_cnum := sm_cnum sm - 1\<rparr>, H - {x})"]) simp
qed

subsection \<open>Properties\<close>

text \<open>
  C19: Along any sequence of \<open>get_stream\<close> and \<open>free_stream\<close> calls on a well-formed manager whose clients
  give back only streams they hold and write only into those, no stream is lent a second time before
  it came back, whatever the pool had to grow and whichever allocation failed; the manager stays
  well-formed, and \<open>cnum\<close> is the number of streams that are out.
\<close>

theorem streams_exclusive:
  assumes "sm_ok pm (sm, H)"
    and "pool_run (request_stream pm) return_stream (sm, H) ops = Inr (events, (sm', H'))"
    and "puts_held H events"
  shows "exclusive H events \<and> H' = held_after H events \<and> sm_ok pm (sm', H') \<and>
    sm_cnum sm' = of_nat (card (held_after H events))"
  using streams.run_exclusive [OF assms(1,2)] assms(3) by (auto simp: sm_ok_def)

text \<open>A manager whose pool was set up with four objects.\<close>

definition four_streams :: stream_manager where
  "four_streams = \<lparr>stream_size = 4, sm_cnum = 0, stream_pool = Some
     \<lparr>element_size = 4, element_count = 4, free_count = 4, obj_align = 8, obj_queue = 16,
      obj_next = (\<lambda>_. 0)(16 := 32, 32 := 48, 48 := 64), pm_calls = 4\<rparr>\<rparr>"

lemma four_streams_setup:
  "pool_setup blocks 1 4 4 8 no_memory = Inr (1, the (stream_pool four_streams))"
proof -
  have n: "unat (4 :: u64) - 1 = Suc (Suc (Suc 0))" "(4 :: nat) = Suc (Suc (Suc (Suc 0)))" by simp_all
  show ?thesis unfolding pool_setup_def n(1) four_streams_def n(2)
    by (simp add: pm_call_def set_next_def no_memory_def fun_eq_iff)
qed

lemma four_streams_ok: "sm_ok blocks (four_streams, {})"
proof -
  have n: "(4 :: nat) = Suc (Suc (Suc (Suc 0)))" by simp
  have "handed_out blocks 0 = {}" by (simp add: handed_out_def)
  then have h: "{16, 32, 48, 64} \<subseteq> handed_out blocks 4" unfolding n by (simp add: handed_out_Suc)
  have "pool_ok blocks (the (stream_pool four_streams)) [16, 32, 48, 64] {}"
    using h by (simp add: pool_ok_def blocks_fresh four_streams_def)
  then show ?thesis by (auto simp: sm_ok_def four_streams_def)
qed

text \<open>
  The first stream is lent and written over; the second request makes the pool grow by four streams,
  the last of which is lent; both come back, and the first is lent again.
\<close>

lemma four_streams_run:
  "\<exists>sm H. pool_run (request_stream blocks) return_stream (four_streams, {})
     [Get_req (\<lambda>_. 7), Get_req (\<lambda>_. 7), Put_back 128, Put_back 16, Get_req (\<lambda>_. 7)] =
   Inr ([Lent 16, Lent 128, Returned 128, Returned 16, Lent 16], (sm, H))" (is "\<exists>sm H. ?r = _")
proof -
  have "\<not> isl ?r" by code_simp
  moreover have "fst (projr ?r) = [Lent 16, Lent 128, Returned 128, Returned 16, Lent 16]" by code_simp
  ultimately show ?thesis by (cases ?r) auto
qed

lemma streams_exclusive_witness:
  "\<exists>sm H. pool_run (request_stream blocks) return_stream (four_streams, {})
     [Get_req (\<lambda>_. 7), Get_req (\<lambda>_. 7), Put_back 128, Put_back 16, Get_req (\<lambda>_. 7)] =
   Inr ([Lent 16, Lent 128, Returned 128, Returned 16, Lent 16], (sm, H)) \<and>
   exclusive {} [Lent 16, Lent 128, Returned 128, Returned 16, Lent (16 :: u64)] \<and> H = {16} \<and> sm_cnum sm = 1"
proof -
  obtain sm H where r: "pool_run (request_stream blocks) return_stream (four_streams, {})
     [Get_req (\<lambda>_. 7), Get_req (\<lambda>_. 7), Put_back 128, Put_back 16, Get_req (\<lambda>_. 7)] =
   Inr ([Lent 16, Lent 128, Returned 128, Returned 16, Lent 16], (sm, H))" using four_streams_run by blast
  have s: "held_after {} [Lent 16, Lent 128, Returned 128, Returned 16, Lent (16 :: u64)] = {16}" by auto
  show ?thesis using r streams_exclusive [OF four_streams_ok r] unfolding s by simp
qed

text \<open>
  C40: A stream manager that \<open>create_stream_manager\<close> returns never lends a stream:
  \<open>cmt_object_pool_create_s\<close> takes the successful allocation of its structure for a failure, the null
  pointer it answers is kept as the stream pool, and the first \<open>get_stream\<close> dereferences it. When that
  allocation does fail, creation itself dereferences the null pointer.
\<close>

theorem created_stream_manager_unusable:
  "create_stream_manager pm smp obj_p sz p =
     (if smp = 0 then Inr None
      else if obj_p = 0 then Inl NullDeref
      else Inr (Some \<lparr>stream_size = sz, sm_cnum = 0, stream_pool = None\<rparr>)) \<and>
   get_stream pm \<lparr>stream_size = sz, sm_cnum = 0, stream_pool = None\<rparr> = Inl NullDeref"
  by (simp add: create_stream_manager_def cmt_object_pool_create_def cmt_object_pool_create_s_def
      pool_setup_def get_stream_def)

end
