(* ===== verification/Recv_Manager.thy ===== *)
theory Recv_Manager
  imports Object_Pool
begin

text \<open>
  The receive manager of \<open>src/tcp_buffer.c\<close>: two object pools, one for fragments and one for data
  pointers, and the functions that take from them and give back to them. A fragment has its \<open>next\<close>
  in its first word, the word the pool links free objects with, so the model reads it from the
  memory of the pool; the \<open>next\<close> of a data pointer is further on and is the function \<open>dn\<close>, \<open>data_list\<close> of
  a fragment is the function \<open>dl\<close>. \<open>cmt_object_free\<close> is called with the object alone; the model reads
  the pool the function has in a variable.
\<close>

subsection \<open>State and operations\<close>

record recv_manager =
  rm_chunk_size :: u64
  rm_cnum :: u32
  frag_pool :: "obj_pool option"
  dataptr_pool :: "obj_pool option"

definition sizeof_fragment :: u64 where "sizeof_fragment = 24"
definition sizeof_data_ptr :: u64 where "sizeof_data_ptr = 32"

text \<open>
  \<open>recv_manager_create\<close>: \<open>rbm\<close>, \<open>op1\<close> and \<open>op2\<close> are the answers of \<open>cmt_palloc\<close> for the manager and its
  pools, \<open>m1\<close> and \<open>m2\<close> the memories of the pools. The first pool is asked for as many objects as a
  fragment has bytes. The call for the second one has no alignment, which is the argument \<open>al\<close>; its failure frees
  the manager and returns it all the same. The list says what was freed.
\<close>

definition recv_manager_create ::
  "(nat \<Rightarrow> u64) \<Rightarrow> u64 \<Rightarrow> u64 \<Rightarrow> u64 \<Rightarrow> u64 \<Rightarrow> u64 \<Rightarrow> u32 \<Rightarrow> obj_pool \<Rightarrow> obj_pool \<Rightarrow>
    (recv_manager option \<times> given_back list) res" where
  "recv_manager_create pm al rbm op1 op2 chunk cnum m1 m2 =
     (if rbm = 0 then Inr (None, [])
      else andThen (cmt_object_pool_create_s pm op1 sizeof_fragment (ucast cnum) 0 m1) (\<lambda>(f, fp).
        if f = 0 then Inr (None, [Pfree rbm])
        else andThen (cmt_object_pool_create pm op2 sizeof_data_ptr al m2) (\<lambda>(d, dp).
          if d = 0
          then andThen (with_fuel (map_option Inr (cmt_object_pool_destroy f fp))) (\<lambda>es.
            Inr (Some \<lparr>rm_chunk_size = chunk, rm_cnum = 0, frag_pool = Some fp, dataptr_pool = None\<rparr>,
                 es @ [Pfree rbm]))
          else Inr (Some \<lparr>rm_chunk_size = chunk, rm_cnum = 0, frag_pool = Some fp, dataptr_pool = Some dp\<rparr>, []))))"

fun the_pool :: "obj_pool option \<Rightarrow> obj_pool res" where
  "the_pool None = Inl NullDeref"
| "the_pool (Some p) = Inr p"

text \<open>\<open>fpa\<close>, \<open>dpa\<close> and \<open>rbm\<close> are the addresses of the pools and of the manager.\<close>

definition recv_manager_destroy ::
  "u64 \<Rightarrow> u64 \<Rightarrow> u64 \<Rightarrow> recv_manager option \<Rightarrow> given_back list res" where
  "recv_manager_destroy fpa dpa rbm m =
     (case m of None \<Rightarrow> Inr []
      | Some m \<Rightarrow>
          andThen (the_pool (dataptr_pool m)) (\<lambda>dp.
          andThen (with_fuel (map_option Inr (cmt_object_pool_destroy dpa dp))) (\<lambda>ds.
          andThen (the_pool (frag_pool m)) (\<lambda>fp.
          andThen (with_fuel (map_option Inr (cmt_object_pool_destroy fpa fp))) (\<lambda>fs.
          Inr (ds @ fs @ [Pfree rbm]))))))"

text \<open>A receive buffer comes from the pool of the fragments.\<close>

definition allocate_recv_buffer :: "(nat \<Rightarrow> u64) \<Rightarrow> recv_manager \<Rightarrow> (u64 \<times> recv_manager) res" where
  "allocate_recv_buffer pm m =
     andThen (the_pool (frag_pool m)) (\<lambda>p.
     andThen (cmt_object_get pm p) (\<lambda>(a, p'). Inr (a, m\<lparr>frag_pool := Some p'\<rparr>)))"

definition allocate_fragment_context :: "(nat \<Rightarrow> u64) \<Rightarrow> recv_manager \<Rightarrow> (u64 \<times> recv_manager) res" where
  "allocate_fragment_context pm m =
     andThen (the_pool (frag_pool m)) (\<lambda>p.
     andThen (cmt_object_get pm p) (\<lambda>(a, p'). Inr (a, m\<lparr>frag_pool := Some p'\<rparr>)))"

definition allocate_dataptr :: "(nat \<Rightarrow> u64) \<Rightarrow> recv_manager \<Rightarrow> (u64 \<times> recv_manager) res" where
  "allocate_dataptr pm m =
     andThen (the_pool (dataptr_pool m)) (\<lambda>p.
     andThen (cmt_object_get pm p) (\<lambda>(a, p'). Inr (a, m\<lparr>dataptr_pool := Some p'\<rparr>)))"

partial_function (option) free_fragment_context_single ::
  "(u64 \<Rightarrow> u64) \<Rightarrow> u64 \<Rightarrow> obj_pool \<Rightarrow> obj_pool res option" where
  "free_fragment_context_single dn data_ptr p =
     (if data_ptr = 0 then Some (Inr p)
      else case cmt_object_free p data_ptr of
             Inl e \<Rightarrow> Some (Inl e)
           | Inr p' \<Rightarrow> free_fragment_context_single dn (dn data_ptr) p')"

partial_function (option) free_fragments ::
  "(u64 \<Rightarrow> u64) \<Rightarrow> (u64 \<Rightarrow> u64) \<Rightarrow> u64 \<Rightarrow> obj_pool \<Rightarrow> obj_pool \<Rightarrow> (obj_pool \<times> obj_pool) res option" where
  "free_fragments dn dl fctx fp dp =
     (if fctx = 0 then Some (Inr (fp, dp))
      else case with_fuel (free_fragment_context_single dn (dl fctx) dp) of
             Inl e \<Rightarrow> Some (Inl e)
           | Inr dp' \<Rightarrow>
               (case cmt_object_free fp fctx of
                  Inl e \<Rightarrow> Some (Inl e)
                | Inr fp' \<Rightarrow> free_fragments dn dl (obj_next fp fctx) fp' dp'))"

definition free_fragment_context ::
  "(u64 \<Rightarrow> u64) \<Rightarrow> (u64 \<Rightarrow> u64) \<Rightarrow> u64 \<Rightarrow> recv_manager \<Rightarrow> recv_manager res" where
  "free_fragment_context dn dl fctx m =
     (if fctx = 0 then Inl AssertFailed
      else andThen (the_pool (frag_pool m)) (\<lambda>fp.
           andThen (the_pool (dataptr_pool m)) (\<lambda>dp.
           andThen (with_fuel (free_fragments dn dl fctx fp dp)) (\<lambda>(fp', dp').
           Inr (m\<lparr>frag_pool := Some fp', dataptr_pool := Some dp'\<rparr>)))))"

subsection \<open>Giving a list of fragments back\<close>

lemma free_data_ok:
  "pool_ok pm p xs H \<Longrightarrow> chain dn a ds \<Longrightarrow> distinct ds \<Longrightarrow> set ds \<subseteq> H \<Longrightarrow>
   \<exists>p'. free_fragment_context_single dn a p = Some (Inr p') \<and> pool_ok pm p' (rev ds @ xs) (H - set ds)"
proof (induction ds arbitrary: a p xs H)
  case Nil
  then show ?case by (subst free_fragment_context_single.simps) auto
next
  case (Cons d ds)
  obtain p1 where p1: "cmt_object_free p d = Inr p1" "pool_ok pm p1 (d # xs) (H - {d})"
    using cmt_object_free_ok [OF Cons.prems(1), of d] Cons.prems(4) by auto
  have "\<exists>p'. free_fragment_context_single dn (dn d) p1 = Some (Inr p') \<and>
      pool_ok pm p' (rev ds @ d # xs) (H - {d} - set ds)"
    by (rule Cons.IH [OF p1(2)]) (use Cons.prems in auto)
  moreover have "H - {d} - set ds = H - set (d # ds)" by auto
  moreover have "free_fragment_context_single dn a p = free_fragment_context_single dn (dn d) p1"
    using Cons.prems(2) p1(1) by (subst free_fragment_context_single.simps) simp
  ultimately show ?case by simp
qed

lemma cmt_object_free_next: "cmt_object_free p x = Inr p' \<Longrightarrow> obj_next p' = (obj_next p)(x := obj_queue p)"
  by (auto simp: cmt_object_free_def set_next_def split: if_splits)

lemma free_fragments_ok:
  "pool_ok fpm fp xs Hf \<Longrightarrow> pool_ok dpm dp ys Hd \<Longrightarrow> chain (obj_next fp) a fs \<Longrightarrow> distinct fs \<Longrightarrow> set fs \<subseteq> Hf \<Longrightarrow>
   \<forall>f \<in> set fs. chain dn (dl f) (ds f) \<Longrightarrow> distinct (concat (map ds fs)) \<Longrightarrow>
   set (concat (map ds fs)) \<subseteq> Hd \<Longrightarrow>
   \<exists>fp' dp' xs' ys'. free_fragments dn dl a fp dp = Some (Inr (fp', dp')) \<and>
     pool_ok fpm fp' xs' (Hf - set fs) \<and> length xs' = length xs + length fs \<and>
     pool_ok dpm dp' ys' (Hd - set (concat (map ds fs))) \<and>
     length ys' = length ys + length (concat (map ds fs))"
proof (induction fs arbitrary: a fp dp xs ys Hf Hd)
  case Nil
  then show ?case by (subst free_fragments.simps) auto
next
  case (Cons f fs)
  have f: "a = f" "f \<noteq> 0" using Cons.prems(3) by simp_all
  obtain dp1 where d: "free_fragment_context_single dn (dl f) dp = Some (Inr dp1)"
    "pool_ok dpm dp1 (rev (ds f) @ ys) (Hd - set (ds f))"
    using free_data_ok [OF Cons.prems(2), of dn "dl f" "ds f"] Cons.prems(6-8) by auto
  obtain fp1 where fp1: "cmt_object_free fp f = Inr fp1" "pool_ok fpm fp1 (f # xs) (Hf - {f})"
    using cmt_object_free_ok [OF Cons.prems(1), of f] Cons.prems(5) by auto
  have ch: "chain (obj_next fp1) (obj_next fp f) fs"
    unfolding cmt_object_free_next [OF fp1(1)] using Cons.prems(3,4) by simp
  have "\<exists>fp' dp' xs' ys'. free_fragments dn dl (obj_next fp f) fp1 dp1 = Some (Inr (fp', dp')) \<and>
     pool_ok fpm fp' xs' (Hf - {f} - set fs) \<and> length xs' = length (f # xs) + length fs \<and>
     pool_ok dpm dp' ys' (Hd - set (ds f) - set (concat (map ds fs))) \<and>
     length ys' = length (rev (ds f) @ ys) + length (concat (map ds fs))"
    by (rule Cons.IH [OF fp1(2) d(2) ch]) (use Cons.prems(4-8) in auto)
  moreover have "Hf - {f} - set fs = Hf - set (f # fs)" by auto
  moreover have "Hd - set (ds f) - set (concat (map ds fs)) = Hd - set (concat (map ds (f # fs)))" by auto
  moreover have "free_fragments dn dl a fp dp = free_fragments dn dl (obj_next fp f) fp1 dp1"
    using f d(1) fp1(1) by (subst free_fragments.simps) simp
  ultimately show ?case by (simp add: add.commute add.left_commute)
qed

text \<open>
  C38: \<open>free_fragment_context\<close> returns on every list of fragments that are out, and gives each fragment of the
  list and each data pointer of their lists back to its pool exactly once: the pools stay well-formed,
  exactly those objects are no longer out, and the free lists grow by their numbers.
\<close>

theorem fragments_given_back:
  assumes "frag_pool m = Some fp" and "dataptr_pool m = Some dp"
    and "pool_ok fpm fp xs Hf" and "pool_ok dpm dp ys Hd"
    and "chain (obj_next fp) a fs" and "fs \<noteq> []" and "distinct fs" and "set fs \<subseteq> Hf"
    and "\<forall>f \<in> set fs. chain dn (dl f) (ds f)" and "distinct (concat (map ds fs))"
    and "set (concat (map ds fs)) \<subseteq> Hd"
  shows "\<exists>fp' dp' xs' ys'.
    free_fragment_context dn dl a m = Inr (m\<lparr>frag_pool := Some fp', dataptr_pool := Some dp'\<rparr>) \<and>
    pool_ok fpm fp' xs' (Hf - set fs) \<and> length xs' = length xs + length fs \<and>
    pool_ok dpm dp' ys' (Hd - set (concat (map ds fs))) \<and>
    length ys' = length ys + length (concat (map ds fs))"
proof -
  have a: "a \<noteq> 0" using chain_empty_iff [OF assms(5)] assms(6) by simp
  obtain fp' dp' xs' ys' where r: "free_fragments dn dl a fp dp = Some (Inr (fp', dp'))"
    "pool_ok fpm fp' xs' (Hf - set fs)" "length xs' = length xs + length fs"
    "pool_ok dpm dp' ys' (Hd - set (concat (map ds fs)))"
    "length ys' = length ys + length (concat (map ds fs))"
    using free_fragments_ok [OF assms(3,4,5,7,8,9,10,11)] by blast
  have "free_fragment_context dn dl a m = Inr (m\<lparr>frag_pool := Some fp', dataptr_pool := Some dp'\<rparr>)"
    using a r(1) assms(1,2) by (simp add: free_fragment_context_def)
  then show ?thesis using r(2-) by blast
qed

text \<open>A manager whose objects are all out, and a list of two fragments with two and one data pointers.\<close>

definition out_pool :: "(u64 \<Rightarrow> u64) \<Rightarrow> obj_pool" where
  "out_pool nx = \<lparr>element_size = 24, element_count = 3, free_count = 0, obj_align = 8, obj_queue = 0,
     obj_next = nx, pm_calls = 3\<rparr>"

definition demo_manager :: recv_manager where
  "demo_manager = \<lparr>rm_chunk_size = 0, rm_cnum = 0, frag_pool = Some (out_pool ((\<lambda>_. 0)(16 := 32))),
     dataptr_pool = Some (out_pool (\<lambda>_. 0))\<rparr>"

lemma out_pool_ok: "pool_ok blocks (out_pool nx) [] {16, 32, 48}"
proof -
  have n: "(3 :: nat) = Suc (Suc (Suc 0))" by simp
  have "handed_out blocks 0 = {}" by (simp add: handed_out_def)
  then have "{16, 32, 48} \<subseteq> handed_out blocks 3" unfolding n by (simp add: handed_out_Suc)
  then show ?thesis by (simp add: pool_ok_def out_pool_def blocks_fresh)
qed

lemma fragments_given_back_witness:
  "\<exists>fp' dp' xs' ys'.
    free_fragment_context ((\<lambda>_. 0)(48 := 32)) (\<lambda>f. if f = 16 then 48 else 16) 16 demo_manager =
      Inr (demo_manager\<lparr>frag_pool := Some fp', dataptr_pool := Some dp'\<rparr>) \<and>
    pool_ok blocks fp' xs' {48} \<and> length xs' = 2 \<and> pool_ok blocks dp' ys' {} \<and> length ys' = 3"
proof -
  have s: "{16, 32, 48} - set [16, 32] = {48 :: u64}"
    "{16, 32, 48} - set (concat (map (\<lambda>f :: u64. if f = 16 then [48, 32] else [16]) [16, 32])) = ({} :: u64 set)"
    "length ([] :: u64 list) + length [16, 32 :: u64] = 2"
    "length ([] :: u64 list) + length (concat (map (\<lambda>f :: u64. if f = 16 then [48, 32] else [16 :: u64]) [16, 32 :: u64])) = 3"
    by auto
  have "\<exists>fp' dp' xs' ys'.
    free_fragment_context ((\<lambda>_. 0)(48 := 32)) (\<lambda>f. if f = 16 then 48 else 16) 16 demo_manager =
      Inr (demo_manager\<lparr>frag_pool := Some fp', dataptr_pool := Some dp'\<rparr>) \<and>
    pool_ok blocks fp' xs' ({16, 32, 48} - set [16, 32]) \<and> length xs' = length ([] :: u64 list) + length [16, 32 :: u64] \<and>
    pool_ok blocks dp' ys' ({16, 32, 48} - set (concat (map (\<lambda>f :: u64. if f = 16 then [48, 32] else [16]) [16, 32]))) \<and>
    length ys' = length ([] :: u64 list) + length (concat (map (\<lambda>f :: u64. if f = 16 then [48, 32] else [16 :: u64]) [16, 32 :: u64]))"
    by (rule fragments_given_back [OF _ _ out_pool_ok [of "(\<lambda>_. 0)(16 := 32)"] out_pool_ok [of "\<lambda>_. 0"]])
      (simp_all add: demo_manager_def out_pool_def fun_upd_def)
  then show ?thesis unfolding s .
qed

text \<open>
  With the creation of pools as it is, a receive manager is never made.
\<close>

lemma recv_manager_create_fails:
  "recv_manager_create pm al rbm op1 op2 chunk cnum m1 m2 =
     (if rbm = 0 then Inr (None, []) else if op1 = 0 then Inl NullDeref else Inr (None, [Pfree rbm]))"
  by (simp add: recv_manager_create_def cmt_object_pool_create_s_def pool_setup_def)

end
