(* ===== verification/Memory_Pool.thy ===== *)
theory Memory_Pool
  imports Global
begin

text \<open>
  The memory pool of \<open>src/cmt_memory_pool.c\<close>.

  The structure \<open>cmt_pool_t\<close> at \<open>pool_addr\<close> is a record; the blocks it manages are in a memory of bytes,
  \<open>mp_mem\<close>, in which the code reads and writes words. Pointers are 64-bit addresses, 0 is \<open>NULL\<close>.
  What \<open>malloc\<close> answers to its \<open>k\<close>-th call, for \<open>n\<close> bytes, is a parameter, \<open>sys k n\<close>; \<open>sys_calls\<close> counts the calls and
  \<open>sys_freed\<close> lists what was given to \<open>free\<close>. The contents of memory that nobody wrote are whatever
  \<open>mp_mem\<close> holds there. A variable of a function that is used before it is set is either an argument of
  the model (\<open>sblist\<close>) or the abort \<open>Uninitialised\<close>.
\<close>

subsection \<open>Words in memory\<close>

type_synonym memory = "u64 \<Rightarrow> u8"

fun load_word :: "nat \<Rightarrow> memory \<Rightarrow> u64 \<Rightarrow> u64" where
  "load_word 0 m a = 0"
| "load_word (Suc n) m a = ucast (m a) OR push_bit 8 (load_word n m (a + 1))"

definition store_word :: "nat \<Rightarrow> u64 \<Rightarrow> u64 \<Rightarrow> memory \<Rightarrow> memory" where
  "store_word n a w m = (\<lambda>b. if unat (b - a) < n then ucast (drop_bit (8 * unat (b - a)) w) else m b)"

lemma bit_load_word:
  "n \<le> 8 \<Longrightarrow> i < 64 \<Longrightarrow> bit (load_word n m a) i \<longleftrightarrow> i < 8 * n \<and> bit (m (a + word_of_nat (i div 8))) (i mod 8)"
proof (induction n arbitrary: a i)
  case (Suc n)
  show ?case
  proof (cases "i < 8")
    case True
    then show ?thesis by (auto simp: bit_simps)
  next
    case False
    then obtain j where j: "i = j + 8" by (metis add.commute le_Suc_ex not_le)
    then have "word_of_nat (i div 8) = (1 + word_of_nat (j div 8) :: u64)" by (simp add: div_add_self2)
    then show ?thesis using Suc.IH [of j "a + 1"] Suc.prems j
      by (simp add: bit_simps add.assoc) (auto dest: bit_imp_le_length)
  qed
qed simp

lemma load_store_word: "load_word 8 (store_word 8 a w m) a = w"
proof (rule bit_word_eqI)
  fix i assume i: "i < LENGTH(64)"
  then have "unat (word_of_nat (i div 8) :: u64) = i div 8" by (simp add: unat_of_nat)
  moreover have "i div 8 < 8" using i by simp
  moreover have "8 * (i div 8) + i mod 8 = i" by simp
  ultimately show "bit (load_word 8 (store_word 8 a w m) a) i = bit w i"
    using i by (simp add: bit_load_word store_word_def bit_simps)
qed

lemma load_word_cong:
  "(\<And>j. j < n \<Longrightarrow> m (a + word_of_nat j) = m' (a + word_of_nat j)) \<Longrightarrow> load_word n m a = load_word n m' a"
proof (induction n arbitrary: a)
  case (Suc n)
  have "load_word n m (a + 1) = load_word n m' (a + 1)"
  proof (rule Suc.IH)
    fix j assume "j < n"
    then show "m (a + 1 + word_of_nat j) = m' (a + 1 + word_of_nat j)"
      using Suc.prems [of "Suc j"] by (simp add: add.assoc)
  qed
  then show ?case using Suc.prems [of 0] by simp
qed simp

text \<open>Bytes that are apart: \<open>b\<close> is not in the \<open>k\<close> bytes from \<open>a\<close>, nor \<open>a\<close> in the \<open>n\<close> from \<open>b\<close>.\<close>

lemma load_store_other:
  assumes "k \<le> unat (b - a)" "n \<le> unat (a - b)"
  shows "load_word n (store_word k a w m) b = load_word n m b"
proof (rule load_word_cong)
  fix j assume j: "j < n"
  then have "unat (b - a) + unat (a - b) = 2 ^ 64"
    using assms(2) unat_u64_less [of a] unat_u64_less [of b]
    by (auto simp: unat_sub_eq unat_mono_le le_less split: if_splits)
  then have "unat (b - a) + unat (a - b) = 2 ^ 64"
    using assms(2) unat_u64_less [of a] unat_u64_less [of b]
    by (auto simp: unat_sub_eq unat_mono_le le_less split: if_splits)
  then have lt: "unat (b - a) + j < 2 ^ 64" using j assms(2) by linarith
  then have u: "unat (word_of_nat j :: u64) = j" by (simp add: unat_of_nat)
  have e: "b + word_of_nat j - a = (b - a) + word_of_nat j" by simp
  have "k \<le> unat (b + word_of_nat j - a)"
    unfolding e using assms(1) lt u by (subst unat_add_no_wrap) simp_all
  then show "store_word k a w m (b + word_of_nat j) = m (b + word_of_nat j)" by (simp add: store_word_def)
qed

subsection \<open>State\<close>

datatype cmt_err = ENONMEM | EBUSY

record pool_bin =
  bin_nums :: u16
  bin_free :: u64

definition TOTAL_BINS :: nat where "TOTAL_BINS = 7"
definition CMT_DEFAULT_POOL_SIZE :: u64 where "CMT_DEFAULT_POOL_SIZE = 4096"
definition CMT_CACHELINE :: u64 where "CMT_CACHELINE = 64"
definition MAXMEMSIZE :: u64 where "MAXMEMSIZE = 512"
definition NUMBEROFADDEDNODE :: u64 where "NUMBEROFADDEDNODE = 20"

text \<open>Sizes of \<open>cmt_pool_t\<close>, of what precedes its \<open>smallbins\<close>, and of \<open>non_main_arena_t\<close>.\<close>

definition sizeof_pool :: u64 where "sizeof_pool = 168"
definition offset_smallbins :: u64 where "offset_smallbins = 56"
definition sizeof_arena :: u64 where "sizeof_arena = 16"

text \<open>
  The fields of the control block \<open>cb\<close> are \<open>mp_size\<close> to \<open>main_arenas\<close>; \<open>main_arenas\<close> is its list of
  \<open>non_main_arena\<close> structures.
\<close>

record mem_pool =
  pool_addr :: u64
  mp_tid :: u64
  mp_size :: u64
  mp_remained :: u64
  large_ctb :: u64
  last_size :: u32
  last_data :: u64
  main_arenas :: u64
  smallbins :: "pool_bin list"
  mp_mem :: memory
  sys_calls :: nat
  sys_freed :: "u64 list"
  cmt_errno :: "cmt_err option"

text \<open>\<open>malloc\<close> and \<open>free\<close>, and the words the code keeps in the blocks.\<close>

type_synonym malloc = "nat \<Rightarrow> u64 \<Rightarrow> u64"

definition sys_malloc :: "malloc \<Rightarrow> u64 \<Rightarrow> mem_pool \<Rightarrow> u64 \<times> mem_pool" where
  "sys_malloc sys n s = (sys (sys_calls s) n, s\<lparr>sys_calls := Suc (sys_calls s)\<rparr>)"

definition sys_free :: "u64 \<Rightarrow> mem_pool \<Rightarrow> mem_pool" where
  "sys_free a s = s\<lparr>sys_freed := sys_freed s @ [a]\<rparr>"

text \<open>A null pointer, and the word in front of it (\<open>p2[-1]\<close> for a null \<open>p2\<close>), end the process.\<close>

definition bad_ptr :: "u64 \<Rightarrow> bool" where
  "bad_ptr a \<longleftrightarrow> a = 0 \<or> a = - 8"

definition read64 :: "mem_pool \<Rightarrow> u64 \<Rightarrow> u64 res" where
  "read64 s a = (if bad_ptr a then Inl NullDeref else Inr (load_word 8 (mp_mem s) a))"

definition write64 :: "u64 \<Rightarrow> u64 \<Rightarrow> mem_pool \<Rightarrow> mem_pool res" where
  "write64 a w s = (if bad_ptr a then Inl NullDeref else Inr (s\<lparr>mp_mem := store_word 8 a w (mp_mem s)\<rparr>))"

text \<open>\<open>large_chunk_t\<close>: \<open>size\<close> (32 bits) and, 8 bytes on, \<open>next\<close>.\<close>

definition large_size :: "mem_pool \<Rightarrow> u64 \<Rightarrow> u32" where
  "large_size s a = ucast (load_word 4 (mp_mem s) a)"

definition set_large_size :: "u64 \<Rightarrow> u32 \<Rightarrow> mem_pool \<Rightarrow> mem_pool" where
  "set_large_size a n s = s\<lparr>mp_mem := store_word 4 a (ucast n) (mp_mem s)\<rparr>"

definition large_next :: "mem_pool \<Rightarrow> u64 \<Rightarrow> u64" where
  "large_next s a = load_word 8 (mp_mem s) (a + 8)"

definition set_large_next :: "u64 \<Rightarrow> u64 \<Rightarrow> mem_pool \<Rightarrow> mem_pool" where
  "set_large_next a n s = s\<lparr>mp_mem := store_word 8 (a + 8) n (mp_mem s)\<rparr>"

text \<open>The array of bins has seven elements.\<close>

definition get_bin :: "mem_pool \<Rightarrow> nat \<Rightarrow> pool_bin res" where
  "get_bin s i = (if i < length (smallbins s) then Inr (smallbins s ! i) else Inl OutOfBounds)"

definition set_bin :: "nat \<Rightarrow> pool_bin \<Rightarrow> mem_pool \<Rightarrow> mem_pool" where
  "set_bin i b s = s\<lparr>smallbins := (smallbins s)[i := b]\<rparr>"

definition ROUND_UP :: "u64 \<Rightarrow> u64 \<Rightarrow> u64" where
  "ROUND_UP n align = (n + align - 1) AND NOT (align - 1)"

definition SMALLBINS_IDX :: "u64 \<Rightarrow> nat" where
  "SMALLBINS_IDX n = unat (drop_bit 3 n)"

subsection \<open>Creating, resetting and destroying a pool\<close>

text \<open>The test for a failed \<open>malloc\<close> compares 1 with \<open>NULL\<close>; the store then goes to the first page.\<close>

definition aligned_malloc :: "malloc \<Rightarrow> u64 \<Rightarrow> u64 \<Rightarrow> mem_pool \<Rightarrow> (u64 \<times> mem_pool) res" where
  "aligned_malloc sys required_bytes alignment s =
     (let offset = alignment - 1 + 8;
          (p1, s) = sys_malloc sys (required_bytes + offset) s;
          p2 = (p1 + offset) AND NOT (alignment - 1)
      in if p1 = 0 then Inl NullDeref
         else andThen (write64 (p2 - 8) p1 s) (\<lambda>s. Inr (p2, s)))"

definition aligned_free :: "u64 \<Rightarrow> mem_pool \<Rightarrow> mem_pool res" where
  "aligned_free p2 s = andThen (read64 s (p2 - 8)) (\<lambda>p1. Inr (sys_free p1 s))"

definition zero_bytes :: "u64 \<Rightarrow> nat \<Rightarrow> memory \<Rightarrow> memory" where
  "zero_bytes a n m = (\<lambda>b. if unat (b - a) < n then 0 else m b)"

text \<open>
  \<open>cmt_create_pool\<close>: the control block it fills in is a copy on its stack, so the one of the pool keeps
  what the new memory held, which is what the record holds before. The \<open>memset\<close> clears seven times the
  size of the whole pool, from \<open>smallbins\<close> on: the bins, and what follows the structure. \<open>tid\<close> is the answer of
  \<open>cmt_gettid\<close>.
\<close>

definition cmt_create_pool :: "malloc \<Rightarrow> u64 \<Rightarrow> u64 \<Rightarrow> mem_pool \<Rightarrow> (u64 \<times> mem_pool) res" where
  "cmt_create_pool sys tid sz s =
     (let sz = (if sz < CMT_DEFAULT_POOL_SIZE then CMT_DEFAULT_POOL_SIZE else sz)
      in andThen (aligned_malloc sys (ROUND_2_UP (ucast sz) + sizeof_pool) CMT_CACHELINE s) (\<lambda>(pool, s).
     if pool = 0 then Inr (0, s\<lparr>pool_addr := pool, cmt_errno := Some ENONMEM\<rparr>)
     else Inr (pool, s\<lparr>pool_addr := pool, mp_tid := tid,
       smallbins := replicate TOTAL_BINS \<lparr>bin_nums = 0, bin_free = 0\<rparr>,
       mp_mem := zero_bytes (pool + sizeof_pool)
         (unat sizeof_pool * TOTAL_BINS - unat (sizeof_pool - offset_smallbins)) (mp_mem s)\<rparr>)))"

definition get_cmt_pool_s :: "malloc \<Rightarrow> u64 \<Rightarrow> u64 \<Rightarrow> mem_pool \<Rightarrow> (u64 \<times> mem_pool) res" where
  "get_cmt_pool_s sys tid sz s =
     (if pool_addr s = 0 then cmt_create_pool sys tid sz s else Inr (pool_addr s, s))"

definition get_cmt_pool :: "malloc \<Rightarrow> u64 \<Rightarrow> mem_pool \<Rightarrow> (u64 \<times> mem_pool) res" where
  "get_cmt_pool sys tid s =
     (if pool_addr s = 0 then cmt_create_pool sys tid CMT_DEFAULT_POOL_SIZE s else Inr (pool_addr s, s))"

text \<open>
  The walks along the large chunks and along the arenas give what they find to \<open>free\<close>, after they
  have read the link; the first one also takes the sizes off \<open>ctb->size\<close> when it resets the pool.
\<close>

partial_function (option) free_large :: "bool \<Rightarrow> u64 \<Rightarrow> mem_pool \<Rightarrow> mem_pool option" where
  "free_large resetting c s =
     (if c = 0 then Some s
      else let s1 = (if resetting then s\<lparr>mp_size := mp_size s - ucast (large_size s c)\<rparr> else s)
           in free_large resetting (large_next s c) (sys_free c s1))"

partial_function (option) free_arenas :: "u64 \<Rightarrow> mem_pool \<Rightarrow> mem_pool option" where
  "free_arenas a s =
     (if a = 0 then Some s else free_arenas (load_word 8 (mp_mem s) a) (sys_free a s))"

definition cmt_destory_pool :: "mem_pool \<Rightarrow> mem_pool res" where
  "cmt_destory_pool s =
     andThen (with_fuel (map_option Inr (free_large False (large_ctb s) s))) (\<lambda>s1. aligned_free (pool_addr s1) s1)"

definition cmt_reset_pool :: "mem_pool \<Rightarrow> (int \<times> mem_pool) res" where
  "cmt_reset_pool s =
     (if mp_remained s \<noteq> mp_size s then Inr (-1, s\<lparr>cmt_errno := Some EBUSY\<rparr>)
      else andThen (with_fuel (map_option Inr (free_large True (large_ctb s) s))) (\<lambda>s1.
           andThen (with_fuel (map_option Inr (free_arenas (main_arenas s)
             (s1\<lparr>mp_remained := mp_size s1, large_ctb := 0, last_size := ucast (mp_size s1),
                last_data := pool_addr s1 + sizeof_pool\<rparr>)))) (\<lambda>s2.
           Inr (0, s2\<lparr>smallbins := replicate TOTAL_BINS \<lparr>bin_nums = 0, bin_free = 0\<rparr>\<rparr>))))"

subsection \<open>Blocks of the pool\<close>

text \<open>
  \<open>block_alloc\<close>: the chain it makes has \<open>TOTAL_BINS - 2\<close> links, where \<open>nums - 1\<close> were meant.
\<close>

fun link_chunks :: "nat \<Rightarrow> u64 \<Rightarrow> u64 \<Rightarrow> mem_pool \<Rightarrow> mem_pool res" where
  "link_chunks 0 chunk sz s = write64 chunk 0 s"
| "link_chunks (Suc n) chunk sz s =
     andThen (write64 chunk (chunk + sz) s) (\<lambda>s. link_chunks n (chunk + sz) sz s)"

definition block_alloc :: "u64 \<Rightarrow> u64 \<Rightarrow> mem_pool \<Rightarrow> (u64 \<times> mem_pool) res" where
  "block_alloc sz nums s =
     (let total = (if ucast (last_size s) < sz * nums then ROUND_UP (ucast (last_size s)) sz else sz * nums);
          p = last_data s; chunk = p + sz
      in if \<not> sz < ucast (last_size s) then Inl AssertFailed
         else andThen (get_bin s (SMALLBINS_IDX sz)) (\<lambda>bin.
           let s = s\<lparr>last_data := last_data s + total, last_size := ucast (ucast (last_size s) - total :: u64)\<rparr>;
               s = set_bin (SMALLBINS_IDX sz) \<lparr>bin_nums = ucast (nums - 1), bin_free = chunk\<rparr> s
           in andThen (if sz < total then link_chunks (TOTAL_BINS - 2) chunk sz s else Inr s) (\<lambda>s. Inr (p, s))))"

definition clear_block :: "mem_pool \<Rightarrow> mem_pool res" where
  "clear_block s =
     (let idx = SMALLBINS_IDX (ucast (last_size s)); chunk = last_data s
      in andThen (get_bin s idx) (\<lambda>bin.
         andThen (write64 chunk (bin_free bin) s) (\<lambda>s.
         Inr ((set_bin idx \<lparr>bin_nums = bin_nums bin + 1, bin_free = chunk\<rparr> s)\<lparr>last_size := 0, last_data := 0\<rparr>))))"

text \<open>\<open>while (tmp->next) tmp = tmp->next;\<close>\<close>

partial_function (option) last_arena :: "mem_pool \<Rightarrow> u64 \<Rightarrow> u64 res option" where
  "last_arena s tmp =
     (if tmp = 0 then Some (Inl NullDeref)
      else let nx = load_word 8 (mp_mem s) tmp in if nx = 0 then Some (Inr tmp) else last_arena s nx)"

definition create_non_main_arena :: "malloc \<Rightarrow> u64 \<Rightarrow> mem_pool \<Rightarrow> (int \<times> mem_pool) res" where
  "create_non_main_arena sys sz s =
     (let (arena, s) = sys_malloc sys (sz + sizeof_arena) s; tmp = main_arenas s
      in if arena = 0 then Inr (-1, s)
         else let s = (if tmp = 0 then s\<lparr>main_arenas := arena\<rparr> else s)
              in andThen (with_fuel (last_arena s tmp)) (\<lambda>tmp.
                 andThen (write64 tmp arena s) (\<lambda>s.
                 Inr (0, s\<lparr>last_data := arena + sizeof_arena,
                          last_size := ucast (ucast (last_size s) + sz :: u64)\<rparr>))))"

text \<open>
  \<open>alloc_from_other_bins\<close>, from bin \<open>i\<close> on with \<open>n\<close> bins left. A result of -1 leaves \<open>*p\<close> as it was.
\<close>

fun other_bins :: "nat \<Rightarrow> nat \<Rightarrow> u64 \<Rightarrow> mem_pool \<Rightarrow> (u64 option \<times> mem_pool) res" where
  "other_bins i 0 sz s = Inr (None, s)"
| "other_bins i (Suc n) sz s =
     andThen (get_bin s i) (\<lambda>bin.
     if bin_nums bin = 0 then other_bins (Suc i) n sz s
     else let ptr = bin_free bin; remain = ptr + sz; idx = SMALLBINS_IDX (word_of_nat (8 * i) - sz)
          in andThen (read64 s ptr) (\<lambda>nx.
             let s = set_bin i \<lparr>bin_nums = bin_nums bin - 1, bin_free = nx\<rparr> s
             in andThen (get_bin s idx) (\<lambda>rb.
                andThen (write64 remain (bin_free rb) s) (\<lambda>s.
                Inr (Some ptr, set_bin idx (rb\<lparr>bin_free := remain\<rparr>) s)))))"

definition alloc_from_other_bins :: "u64 \<Rightarrow> mem_pool \<Rightarrow> (u64 option \<times> mem_pool) res" where
  "alloc_from_other_bins sz s = other_bins (SMALLBINS_IDX sz) (TOTAL_BINS - SMALLBINS_IDX sz) sz s"

text \<open>
  \<open>alloc_from_large\<close>: the list keeps the chunk that is handed out as its head, and loses the rest.
  A small rest is written to an address computed from that of the caller's variable, not from the chunk.
\<close>

definition alloc_from_large :: "u64 \<Rightarrow> mem_pool \<Rightarrow> (u64 option \<times> mem_pool) res" where
  "alloc_from_large sz s =
     (let c = large_ctb s
      in if c = 0 then Inr (None, s)
         else if MAXMEMSIZE < ucast (large_size s c) - sz
         then let r = c + sz;
                  s = set_large_size r (ucast (ucast (large_size s r) - sz :: u64)) s;
                  s = set_large_next r (large_next s c) s;
                  s = set_large_size c 0 (set_large_next c 0 s)
              in Inr (Some c, s)
         else Inl OutOfBounds)"

subsection \<open>Allocating and freeing\<close>

text \<open>When neither test of \<open>refill\<close> holds, the code goes on with a result it never set.\<close>

definition refill :: "u64 \<Rightarrow> mem_pool \<Rightarrow> (u64 option \<times> mem_pool) res" where
  "refill sz s =
     (if sz < ucast (last_size s)
      then andThen (block_alloc sz NUMBEROFADDEDNODE s) (\<lambda>(p, s). Inr (Some p, s))
      else if sz < mp_remained s
      then andThen (alloc_from_other_bins sz s) (\<lambda>(r, s).
           case r of Some p \<Rightarrow> Inr (Some p, s) | None \<Rightarrow> alloc_from_large sz s)
      else Inl Uninitialised)"

text \<open>
  \<open>cmt_small_alloc\<close> looks for the bin in an array \<open>sblist\<close>, a pointer it never sets; anything but the
  pool's own \<open>smallbins\<close> there is a wild access. When \<open>refill\<close> fails, it uses \<open>p\<close>, which is not set either, as
  the pool.
\<close>

definition cmt_small_alloc :: "u64 \<Rightarrow> u64 \<Rightarrow> mem_pool \<Rightarrow> (u64 \<times> mem_pool) res" where
  "cmt_small_alloc sblist sz s =
     (if sblist \<noteq> pool_addr s + offset_smallbins then Inl Uninitialised
      else andThen (get_bin s (SMALLBINS_IDX sz)) (\<lambda>bin.
        if 0 < bin_nums bin
        then andThen (read64 s (bin_free bin)) (\<lambda>nx.
             andThen (write64 (bin_free bin) 0 s) (\<lambda>s.
             Inr (bin_free bin, set_bin (SMALLBINS_IDX sz) \<lparr>bin_nums = bin_nums bin - 1, bin_free = nx\<rparr> s)))
        else andThen (refill sz s) (\<lambda>(r, s).
             case r of None \<Rightarrow> Inl Uninitialised
             | Some p \<Rightarrow> Inr (p, if p = 0 then s\<lparr>cmt_errno := Some ENONMEM\<rparr> else s))))"

definition cmt_large_alloc :: "malloc \<Rightarrow> u64 \<Rightarrow> mem_pool \<Rightarrow> u64 \<times> mem_pool" where
  "cmt_large_alloc sys sz s =
     (let (p, s) = sys_malloc sys sz s in (p, if p = 0 then s\<lparr>cmt_errno := Some ENONMEM\<rparr> else s))"

definition cmt_palloc :: "malloc \<Rightarrow> u64 \<Rightarrow> u64 \<Rightarrow> mem_pool \<Rightarrow> (u64 \<times> mem_pool) res" where
  "cmt_palloc sys sblist sz s =
     (let sz = ROUND_UP sz 8
      in if MAXMEMSIZE < sz then Inr (cmt_large_alloc sys sz s) else cmt_small_alloc sblist sz s)"

definition cmt_pcalloc :: "malloc \<Rightarrow> u64 \<Rightarrow> u64 \<Rightarrow> mem_pool \<Rightarrow> (u64 \<times> mem_pool) res" where
  "cmt_pcalloc sys sblist sz s =
     andThen (cmt_palloc sys sblist sz s) (\<lambda>(p, s).
     Inr (p, if p = 0 then s else s\<lparr>mp_mem := zero_bytes p (unat sz) (mp_mem s)\<rparr>))"

text \<open>Freeing a small block also frees every arena, and keeps the pointers to them.\<close>

definition cmt_pfree :: "u64 \<Rightarrow> u64 \<Rightarrow> mem_pool \<Rightarrow> mem_pool res" where
  "cmt_pfree p sz s =
     (let sz = ROUND_UP sz 8
      in if MAXMEMSIZE < sz
         then if p = 0 then Inl NullDeref
              else Inr ((set_large_next p (large_ctb s) (set_large_size p (ucast sz) s))\<lparr>large_ctb := p\<rparr>)
         else andThen (with_fuel (map_option Inr (free_arenas (main_arenas s) s))) (\<lambda>s.
              andThen (get_bin s (SMALLBINS_IDX sz)) (\<lambda>bin.
              andThen (write64 p (bin_free bin) s) (\<lambda>s.
              Inr (set_bin (SMALLBINS_IDX sz) (bin\<lparr>bin_free := p\<rparr>) s)))))"

definition pmem_total :: "u64 \<Rightarrow> u64 \<Rightarrow> u64" where
  "pmem_total align sz = align - 1 + sz + sz"

definition cmt_pmemalign :: "malloc \<Rightarrow> u64 \<Rightarrow> u64 \<Rightarrow> u64 \<Rightarrow> mem_pool \<Rightarrow> (u64 \<times> mem_pool) res" where
  "cmt_pmemalign sys sblist align sz s =
     andThen (cmt_palloc sys sblist (pmem_total align sz) s) (\<lambda>(p1, s).
     if p1 = 0 then Inr (p1, s)
     else let p2 = (p1 + (align - 1 + sz)) AND NOT (align - 1)
          in andThen (write64 (p2 - 8) p1 s) (\<lambda>s. Inr (p2, s)))"

definition cmt_pmemfree :: "u64 \<Rightarrow> u64 \<Rightarrow> u64 \<Rightarrow> mem_pool \<Rightarrow> mem_pool res" where
  "cmt_pmemfree p align sz s =
     andThen (read64 s (p - 8)) (\<lambda>p1. cmt_pfree p1 (pmem_total align sz) s)"

subsection \<open>Aligned blocks\<close>

lemma and_not_mask_unat: "unat (x AND NOT (mask k) :: u64) = unat x div 2 ^ k * 2 ^ k"
proof -
  have e: "x AND NOT (mask k) = push_bit k (drop_bit k x)"
    by (rule bit_word_eqI) (auto simp: bit_simps)
  have "unat x div 2 ^ k * 2 ^ k < 18446744073709551616"
    by (rule le_less_trans [OF div_times_less_eq_dividend unat_u64_less])
  then show ?thesis using unat_u64_less [of x] unfolding e
    by (simp add: unsigned_push_bit_eq unsigned_drop_bit_eq drop_bit_eq_div [where ?'a = nat]
        push_bit_eq_mult [where ?'a = nat] take_bit_eq_mod [where ?'a = nat])
qed

lemma unat_mask_u64: "k \<le> 64 \<Longrightarrow> unat (mask k :: u64) = 2 ^ k - 1"
proof -
  assume k: "k \<le> 64"
  have m: "(mask k :: u64) = word_of_nat (2 ^ k - 1)" by (simp add: mask_eq_exp_minus_1 of_nat_diff)
  have "(2 :: nat) ^ k \<le> 2 ^ 64" by (rule power_increasing) (use k in simp_all)
  then have "(2 :: nat) ^ k - 1 < 2 ^ LENGTH(64)" by simp
  then show ?thesis unfolding m by (simp only: unat_of_nat mod_less)
qed

text \<open>
  C21: For an alignment that is a power of two and an object of at least eight bytes,
  \<open>cmt_pmemalign\<close> turns a block of \<open>cmt_palloc\<close> into an aligned object that lies inside the block, behind the
  pointer to the block, and \<open>cmt_pmemfree\<close> of that object gives back exactly the block, with its size.
\<close>

theorem pmemalign_roundtrip:
  assumes pa: "cmt_palloc sys sblist (pmem_total (push_bit k 1) sz) s = Inr (p1, s1)" "p1 \<noteq> 0"
    and k: "k < 64" and sz: "8 \<le> unat sz" and fits: "unat p1 + 2 ^ k + 2 * unat sz \<le> 2 ^ 64"
  shows "\<exists>p2 s2. cmt_pmemalign sys sblist (push_bit k 1) sz s = Inr (p2, s2) \<and> 2 ^ k dvd unat p2 \<and>
    unat p1 + 8 \<le> unat p2 \<and> unat p2 + unat sz \<le> unat p1 + unat (pmem_total (push_bit k 1) sz) \<and>
    cmt_pmemfree p2 (push_bit k 1) sz s2 = cmt_pfree p1 (pmem_total (push_bit k 1) sz) s2"
proof -
  let ?x = "p1 + (push_bit k 1 - 1 + sz)" and ?al = "push_bit k 1 :: u64"
  let ?p2 = "?x AND NOT (?al - 1)" and ?s2 = "s1\<lparr>mp_mem := store_word 8 ((?x AND NOT (?al - 1)) - 8) p1 (mp_mem s1)\<rparr>"
  have m: "?al - 1 = mask k" by (simp add: mask_eq_exp_minus_1 push_bit_eq_mult)
  have um: "unat (mask k :: u64) = 2 ^ k - 1" using k by (simp add: unat_mask_u64)
  have "unat (mask k + sz) = 2 ^ k - 1 + unat sz"
    using fits by (subst unat_add_no_wrap) (simp_all add: um)
  moreover have "unat (p1 + (mask k + sz)) = unat p1 + unat (mask k + sz)"
  proof (rule unat_add_no_wrap)
    have "0 < (2 :: nat) ^ k" by simp
    then show "unat p1 + unat (mask k + sz) < 2 ^ LENGTH(64)" using fits sz calculation by simp
  qed
  moreover obtain q where q: "(2 :: nat) ^ k = Suc q" using not0_implies_Suc [of "2 ^ k :: nat"] by auto
  ultimately have x: "unat ?x = unat p1 + (2 ^ k - 1) + unat sz" unfolding m by simp
  have tot: "unat (pmem_total ?al sz) = 2 ^ k - 1 + unat sz + unat sz"
    unfolding pmem_total_def m using fits \<open>unat (mask k + sz) = 2 ^ k - 1 + unat sz\<close>
    by (subst unat_add_no_wrap) (use pa(2) in \<open>simp_all add: unat_gt_0\<close>)
  have p2: "unat ?p2 = unat ?x div 2 ^ k * 2 ^ k" unfolding m by (rule and_not_mask_unat)
  have lo: "unat p1 + unat sz \<le> unat ?p2"
  proof -
    have "unat ?x mod 2 ^ k < 2 ^ k" by simp
    moreover have "unat ?x div 2 ^ k * 2 ^ k + unat ?x mod 2 ^ k = unat ?x" by (rule div_mult_mod_eq)
    ultimately show ?thesis using x unfolding p2 by linarith
  qed
  have hi: "unat ?p2 \<le> unat ?x" unfolding p2 by simp
  have good: "\<not> bad_ptr (?p2 - 8)"
  proof -
    have "unat (?p2 - 8) = unat ?p2 - 8" using lo sz by (simp add: unat_sub_eq)
    moreover have "0 < unat p1" using pa(2) by (simp add: unat_gt_0)
    ultimately have "0 < unat (?p2 - 8)" using lo sz by linarith
    moreover have "?p2 \<noteq> 0" using lo sz by auto
    ultimately show ?thesis by (auto simp: bad_ptr_def)
  qed
  have a: "cmt_pmemalign sys sblist ?al sz s = Inr (?p2, ?s2)"
    using pa good by (simp add: cmt_pmemalign_def write64_def Let_def)
  have f: "cmt_pmemfree ?p2 ?al sz ?s2 = cmt_pfree p1 (pmem_total ?al sz) ?s2"
    using good by (simp add: cmt_pmemfree_def read64_def load_store_word)
  have "2 ^ k dvd unat ?p2" unfolding p2 by simp
  moreover have "unat p1 + 8 \<le> unat ?p2" using lo sz by simp
  moreover have "unat ?p2 + unat sz \<le> unat p1 + unat (pmem_total ?al sz)" using hi x tot q by simp
  ultimately show ?thesis using a f by blast
qed

definition empty_pool :: mem_pool where
  "empty_pool = \<lparr>pool_addr = 4096, mp_tid = 1, mp_size = 4096, mp_remained = 4096, large_ctb = 0,
    last_size = 4096, last_data = 4264, main_arenas = 0,
    smallbins = replicate 7 \<lparr>bin_nums = 0, bin_free = 0\<rparr>, mp_mem = (\<lambda>_. 0), sys_calls = 0,
    sys_freed = [], cmt_errno = None\<rparr>"

lemma pmemalign_roundtrip_witness:
  "\<exists>p2 s2. cmt_pmemalign (\<lambda>_ _. 65552) 0 (push_bit 6 1) 256 empty_pool = Inr (p2, s2) \<and> 2 ^ 6 dvd unat p2 \<and>
    unat (65552 :: u64) + 8 \<le> unat p2 \<and>
    unat p2 + unat (256 :: u64) \<le> unat (65552 :: u64) + unat (pmem_total (push_bit 6 1) 256) \<and>
    cmt_pmemfree p2 (push_bit 6 1) 256 s2 = cmt_pfree 65552 (pmem_total (push_bit 6 1) 256) s2"
proof -
  have "cmt_palloc (\<lambda>_ _. 65552) 0 (pmem_total (push_bit 6 1) 256) empty_pool =
      Inr (65552, empty_pool\<lparr>sys_calls := 1\<rparr>)"
    by (simp add: cmt_palloc_def pmem_total_def ROUND_UP_def MAXMEMSIZE_def cmt_large_alloc_def sys_malloc_def
        empty_pool_def)
  from pmemalign_roundtrip [OF this] show ?thesis by simp
qed

subsection \<open>Small blocks\<close>

text \<open>The chunks of a list: from \<open>a\<close>, linked by their first words, none overlapping another.\<close>

fun chunk_list :: "memory \<Rightarrow> u64 \<Rightarrow> u64 list \<Rightarrow> bool" where
  "chunk_list m a [] \<longleftrightarrow> a = 0"
| "chunk_list m a (x # xs) \<longleftrightarrow> a = x \<and> \<not> bad_ptr x \<and> chunk_list m (load_word 8 m x) xs"

definition apart :: "u64 \<Rightarrow> u64 \<Rightarrow> bool" where
  "apart a b \<longleftrightarrow> 8 \<le> unat (a - b) \<and> 8 \<le> unat (b - a)"

lemma chunk_list_store:
  "(\<And>x. x \<in> set xs \<Longrightarrow> apart a x) \<Longrightarrow> chunk_list (store_word 8 a w m) h xs = chunk_list m h xs"
  by (induction xs arbitrary: h) (simp_all add: load_store_other apart_def)

text \<open>The chunks of \<open>sz\<close> bytes from \<open>c\<close> on.\<close>

fun chunks :: "nat \<Rightarrow> u64 \<Rightarrow> u64 \<Rightarrow> u64 list" where
  "chunks 0 c sz = []"
| "chunks (Suc n) c sz = c # chunks n (c + sz) sz"

lemma chunks_bounds:
  "x \<in> set (chunks n c sz) \<Longrightarrow> unat c + n * unat sz \<le> 2 ^ 64 \<Longrightarrow> 0 < unat sz \<Longrightarrow>
   unat c \<le> unat x \<and> unat x + unat sz \<le> unat c + n * unat sz"
proof (induction n arbitrary: c)
  case (Suc n)
  show ?case
  proof (cases "x = c")
    case False
    then have n: "n \<noteq> 0" "x \<in> set (chunks n (c + sz) sz)" using Suc.prems(1) by (auto intro: ccontr)
    then have "unat sz \<le> n * unat sz" by simp
    moreover have "unat c + (unat sz + n * unat sz) \<le> 2 ^ 64" using Suc.prems(2) by simp
    ultimately have "unat c + unat sz < 2 ^ 64" using Suc.prems(3) by linarith
    then have u: "unat (c + sz) = unat c + unat sz" by (simp add: unat_add_no_wrap)
    show ?thesis using Suc.IH [OF n(2)] Suc.prems(2,3) u by simp
  qed (use Suc.prems in simp)
qed simp

lemma chunks_apart:
  assumes "8 \<le> unat sz" and "x \<in> set (chunks n (c + sz) sz)" and "unat c + Suc n * unat sz \<le> 2 ^ 64 - 8"
  shows "apart c x"
proof -
  have "unat c + unat sz < 2 ^ 64" using assms(1,3) by simp
  then have u: "unat (c + sz) = unat c + unat sz" by (simp add: unat_add_no_wrap)
  have "unat c + unat sz \<le> unat x \<and> unat x + unat sz \<le> unat (c + sz) + n * unat sz"
    using chunks_bounds [OF assms(2)] assms(1,3) u by simp
  then show ?thesis using assms(1,3) u unat_u64_less [of x]
    by (auto simp: apart_def unat_sub_eq)
qed

lemma apart_sym: "apart a b \<Longrightarrow> apart b a"
  by (simp add: apart_def)

lemma chunks_sorted_wrt:
  "8 \<le> unat sz \<Longrightarrow> unat c + n * unat sz \<le> 2 ^ 64 - 8 \<Longrightarrow> sorted_wrt apart (chunks n c sz)"
proof (induction n arbitrary: c)
  case (Suc n)
  show ?case
  proof (cases n)
    case (Suc k)
    then have "unat c + unat sz < 2 ^ 64" using Suc.prems by simp
    then have "unat (c + sz) = unat c + unat sz" by (simp add: unat_add_no_wrap)
    then show ?thesis using Suc.IH [of "c + sz"] Suc.prems chunks_apart [where c = c and n = n and sz = sz] by simp
  qed simp
qed simp

lemma length_chunks [simp]: "length (chunks n c sz) = n"
  by (induction n arbitrary: c) auto

lemma link_chunks_ok:
  "8 \<le> unat sz \<Longrightarrow> unat c + Suc n * unat sz \<le> 2 ^ 64 - 8 \<Longrightarrow> c \<noteq> 0 \<Longrightarrow>
   \<exists>m. link_chunks n c sz s = Inr (s\<lparr>mp_mem := m\<rparr>) \<and> chunk_list m c (chunks (Suc n) c sz) \<and>
     (\<forall>b. (\<forall>x \<in> set (chunks (Suc n) c sz). apart x b) \<longrightarrow> load_word 8 m b = load_word 8 (mp_mem s) b)"
proof (induction n arbitrary: c s)
  case 0
  have "unat (- 8 :: u64) = 2 ^ 64 - 8" by simp
  then have "\<not> bad_ptr c" using "0.prems" by (auto simp: bad_ptr_def)
  then show ?case
    by (intro exI [of _ "store_word 8 c 0 (mp_mem s)"]) (auto simp: write64_def load_store_word load_store_other apart_def)
next
  case (Suc n)
  have "unat (- 8 :: u64) = 2 ^ 64 - 8" by simp
  then have ok: "\<not> bad_ptr c" using Suc.prems by (auto simp: bad_ptr_def)
  have u: "unat (c + sz) = unat c + unat sz" using Suc.prems(1,2) by (intro unat_add_no_wrap) simp
  let ?s = "s\<lparr>mp_mem := store_word 8 c (c + sz) (mp_mem s)\<rparr>" and ?cs = "chunks (Suc n) (c + sz) sz"
  have "c + sz \<noteq> 0" using u Suc.prems(1) by auto
  then obtain m where m: "link_chunks n (c + sz) sz ?s = Inr (?s\<lparr>mp_mem := m\<rparr>)" "chunk_list m (c + sz) ?cs"
    "\<And>b. (\<forall>x \<in> set ?cs. apart x b) \<Longrightarrow> load_word 8 m b = load_word 8 (mp_mem ?s) b"
    using Suc.IH [of "c + sz" ?s] Suc.prems(1,2) u by auto
  have a: "\<forall>x \<in> set ?cs. apart x c"
    using chunks_apart [where c = c and n = "Suc n" and sz = sz] Suc.prems(1,2) apart_sym by blast
  have "load_word 8 m c = c + sz" using m(3) [OF a] by (simp add: load_store_word)
  moreover have "load_word 8 m b = load_word 8 (mp_mem s) b"
    if "\<forall>x \<in> set (c # ?cs). apart x b" for b
    using m(3) [of b] that load_store_other [of 8 b c 8] by (simp add: apart_def)
  ultimately show ?case using m(1,2) ok
    by (intro exI [of _ m]) (simp add: write64_def del: chunks.simps(2) add: chunks.simps(2) [of "Suc n" c])
qed

text \<open>Several calls of \<open>cmt_palloc\<close> for blocks of the same size.\<close>

fun pallocs :: "malloc \<Rightarrow> u64 \<Rightarrow> nat \<Rightarrow> u64 \<Rightarrow> mem_pool \<Rightarrow> (u64 list \<times> mem_pool) res" where
  "pallocs sys sblist 0 sz s = Inr ([], s)"
| "pallocs sys sblist (Suc n) sz s =
     andThen (cmt_palloc sys sblist sz s) (\<lambda>(p, s').
     andThen (pallocs sys sblist n sz s') (\<lambda>(ps, s''). Inr (p # ps, s'')))"

definition small_size :: "u64 \<Rightarrow> bool" where
  "small_size sz \<longleftrightarrow> unat sz mod 8 = 0 \<and> 8 \<le> unat sz \<and> unat sz \<le> 48"

lemma small_size_simps:
  assumes "small_size sz"
  shows "ROUND_UP sz 8 = sz" "\<not> MAXMEMSIZE < sz" "SMALLBINS_IDX sz = unat sz div 8" "SMALLBINS_IDX sz < 7"
proof -
  have m: "(8 :: u64) - 1 = mask 3" by (simp add: mask_numeral)
  have "unat (sz + 8 - 1) = unat sz + 7"
  proof -
    have e: "sz + 8 - 1 = sz + 7" by simp
    have "unat (sz + 7) = unat sz + unat (7 :: u64)"
      using assms by (intro unat_add_no_wrap) (simp add: small_size_def)
    then show ?thesis unfolding e by simp
  qed
  then have "unat (ROUND_UP sz 8) = (unat sz + 7) div 8 * 8"
    unfolding ROUND_UP_def m and_not_mask_unat by simp
  also have "\<dots> = unat sz" using assms unfolding small_size_def by presburger
  finally show "ROUND_UP sz 8 = sz" by (simp add: word_unat_eq_iff)
  show "\<not> MAXMEMSIZE < sz" using assms by (simp add: small_size_def MAXMEMSIZE_def unat_mono_less)
  show i: "SMALLBINS_IDX sz = unat sz div 8"
    by (simp add: SMALLBINS_IDX_def unsigned_drop_bit_eq drop_bit_eq_div [where ?'a = nat] take_bit_eq_mod [where ?'a = nat]
        unat_u64_less)
  show "SMALLBINS_IDX sz < 7" using assms unfolding i small_size_def by (auto simp: div_less_iff_less_mult)
qed

text \<open>\<open>n\<close> chunks later: the list of the bin is empty, its count is not, and the last block is untouched.\<close>

definition drained :: "u64 \<Rightarrow> nat \<Rightarrow> mem_pool \<Rightarrow> mem_pool \<Rightarrow> bool" where
  "drained sz n s s' \<longleftrightarrow>
     bin_free (smallbins s' ! SMALLBINS_IDX sz) = 0 \<and>
     bin_nums (smallbins s' ! SMALLBINS_IDX sz) = bin_nums (smallbins s ! SMALLBINS_IDX sz) - word_of_nat n \<and>
     last_data s' = last_data s \<and> last_size s' = last_size s"

text \<open>Popping the chunks of a bin that says it has more of them than there are.\<close>

lemma pallocs_overdrawn:
  "small_size sz \<Longrightarrow> SMALLBINS_IDX sz < length (smallbins s) \<Longrightarrow> sblist = pool_addr s + offset_smallbins \<Longrightarrow>
   chunk_list (mp_mem s) (bin_free (smallbins s ! SMALLBINS_IDX sz)) xs \<Longrightarrow> sorted_wrt apart xs \<Longrightarrow>
   length xs < unat (bin_nums (smallbins s ! SMALLBINS_IDX sz)) \<Longrightarrow>
   (\<exists>s'. pallocs sys sblist (length xs) sz s = Inr (xs, s') \<and> drained sz (length xs) s s') \<and>
   pallocs sys sblist (Suc (length xs)) sz s = Inl NullDeref"
proof (induction xs arbitrary: s)
  case Nil
  then have "0 < bin_nums (smallbins s ! SMALLBINS_IDX sz)" by (simp add: unat_mono_less)
  then show ?case using Nil
    by (simp add: cmt_palloc_def small_size_simps(1,2) cmt_small_alloc_def get_bin_def read64_def bad_ptr_def
        drained_def)
next
  case (Cons x xs)
  let ?i = "SMALLBINS_IDX sz" and ?b = "smallbins s ! SMALLBINS_IDX sz"
  let ?s = "set_bin ?i \<lparr>bin_nums = bin_nums ?b - 1, bin_free = load_word 8 (mp_mem s) x\<rparr>
    (s\<lparr>mp_mem := store_word 8 x 0 (mp_mem s)\<rparr>)"
  have x: "bin_free ?b = x" "\<not> bad_ptr x" "chunk_list (mp_mem s) (load_word 8 (mp_mem s) x) xs"
    using Cons.prems(4) by simp_all
  have pos: "0 < bin_nums ?b" using Cons.prems(6) by (simp add: unat_mono_less)
  then have n: "unat (bin_nums ?b - 1) = unat (bin_nums ?b) - 1" by (simp add: unat_minus_one word_neq_0_conv)
  have p: "cmt_palloc sys sblist sz s = Inr (x, ?s)"
    using Cons.prems(2,3) x pos
    by (simp add: cmt_palloc_def small_size_simps(1,2) [OF Cons.prems(1)] cmt_small_alloc_def get_bin_def
        read64_def write64_def set_bin_def)
  have "chunk_list (store_word 8 x 0 (mp_mem s)) (load_word 8 (mp_mem s) x) xs"
    using x(3) Cons.prems(5) by (subst chunk_list_store) simp_all
  then have IH: "(\<exists>s'. pallocs sys sblist (length xs) sz ?s = Inr (xs, s') \<and> drained sz (length xs) ?s s') \<and>
      pallocs sys sblist (Suc (length xs)) sz ?s = Inl NullDeref"
    by (intro Cons.IH) (use Cons.prems n in \<open>simp_all add: set_bin_def\<close>)
  have st: "pallocs sys sblist (Suc k) sz s =
      andThen (pallocs sys sblist k sz ?s) (\<lambda>(ps, s''). Inr (x # ps, s''))" for k
    by (simp add: p)
  have "drained sz (length xs) ?s s' \<Longrightarrow> drained sz (length (x # xs)) s s'" for s'
    using Cons.prems(2) by (simp add: drained_def set_bin_def)
  then show ?case using IH st [of "length xs"] st [of "Suc (length xs)"] by auto
qed

text \<open>
  C20: On an empty bin, and with the bin looked up in the pool's own array, seven calls of
  \<open>cmt_palloc\<close> for a small size return the first seven blocks of the last block of the pool, in
  order, which do not overlap. Twenty blocks are off the last block by then, the list of the bin is
  empty and its count still says thirteen: the other thirteen blocks are in no list, and the eighth
  call dereferences a null pointer.
\<close>

theorem small_blocks_overcounted:
  assumes sz: "small_size sz" and bins: "length (smallbins s) = TOTAL_BINS"
    and empty: "bin_nums (smallbins s ! SMALLBINS_IDX sz) = 0"
    and last: "20 * unat sz \<le> unat (last_size s)" "last_data s \<noteq> 0"
    and fits: "unat (last_data s) + 20 * unat sz \<le> 2 ^ 64 - 8"
    and sb: "sblist = pool_addr s + offset_smallbins"
  shows "(\<exists>s'. pallocs sys sblist 7 sz s = Inr (chunks 7 (last_data s) sz, s') \<and>
      last_data s' = last_data s + 20 * sz \<and> unat (last_size s') = unat (last_size s) - 20 * unat sz \<and>
      bin_free (smallbins s' ! SMALLBINS_IDX sz) = 0 \<and> bin_nums (smallbins s' ! SMALLBINS_IDX sz) = 13) \<and>
    sorted_wrt apart (chunks 7 (last_data s) sz) \<and>
    pallocs sys sblist 8 sz s = Inl NullDeref"
proof -
  let ?i = "SMALLBINS_IDX sz" and ?d = "last_data s"
  have b: "8 \<le> unat sz" "unat sz \<le> 48" using sz by (simp_all add: small_size_def)
  have i: "?i < length (smallbins s)" using small_size_simps(4) [OF sz] bins by (simp add: TOTAL_BINS_def)
  have t: "unat (sz * 20) = unat sz * 20" using b by (simp add: unat_word_ariths)
  have lt: "sz < ucast (last_size s)" "\<not> ucast (last_size s) < sz * 20" "sz < sz * 20"
    using last(1) b t by (simp_all add: unat_mono_less)
  have ud: "unat (?d + sz) = unat ?d + unat sz" using fits b by (intro unat_add_no_wrap) simp
  then have nz: "?d + sz \<noteq> 0" using b by auto
  let ?s1 = "set_bin ?i \<lparr>bin_nums = 19, bin_free = ?d + sz\<rparr>
    (s\<lparr>last_data := ?d + sz * 20, last_size := ucast (ucast (last_size s) - sz * 20 :: u64)\<rparr>)"
  obtain m where m: "link_chunks 5 (?d + sz) sz ?s1 = Inr (?s1\<lparr>mp_mem := m\<rparr>)"
    "chunk_list m (?d + sz) (chunks 6 (?d + sz) sz)"
    using link_chunks_ok [of sz "?d + sz" 5 ?s1] fits b ud nz by auto
  let ?s2 = "?s1\<lparr>mp_mem := m\<rparr>"
  have bin: "smallbins ?s2 ! ?i = \<lparr>bin_nums = 19, bin_free = ?d + sz\<rparr>" using i by (simp add: set_bin_def)
  have ba: "block_alloc sz 20 s = Inr (?d, ?s2)"
    using lt i m(1) by (simp add: block_alloc_def get_bin_def Let_def TOTAL_BINS_def mult.commute)
  have p: "cmt_palloc sys sblist sz s = Inr (?d, ?s2)"
    using empty i sb lt(1) ba last(2)
    by (simp add: cmt_palloc_def small_size_simps(1,2) [OF sz] cmt_small_alloc_def get_bin_def refill_def
        NUMBEROFADDEDNODE_def)
  have srt: "sorted_wrt apart (chunks 7 ?d sz)" using b fits by (intro chunks_sorted_wrt) simp_all
  have c7: "chunks 7 ?d sz = ?d # chunks 6 (?d + sz) sz" by (simp add: numeral_eq_Suc)
  have st: "pallocs sys sblist (Suc k) sz s =
      andThen (pallocs sys sblist k sz ?s2) (\<lambda>(ps, s''). Inr (?d # ps, s''))" for k
    by (simp add: p)
  have o: "(\<exists>s'. pallocs sys sblist (length (chunks 6 (?d + sz) sz)) sz ?s2 = Inr (chunks 6 (?d + sz) sz, s') \<and>
        drained sz (length (chunks 6 (?d + sz) sz)) ?s2 s') \<and>
      pallocs sys sblist (Suc (length (chunks 6 (?d + sz) sz))) sz ?s2 = Inl NullDeref"
    by (rule pallocs_overdrawn)
      (use sz i sb m(2) srt c7 bin in \<open>simp_all add: set_bin_def\<close>)
  have ls: "unat (ucast (ucast (last_size s) - sz * 20 :: u64) :: u32) = unat (last_size s) - 20 * unat sz"
  proof -
    have "unat (ucast (last_size s) - sz * 20 :: u64) = unat (last_size s) - 20 * unat sz"
      using last(1) t by (simp add: unat_sub_eq mult.commute)
    then show ?thesis using unat_u32_less [of "last_size s"]
      by (simp add: unsigned_ucast_eq take_bit_eq_mod)
  qed
  obtain s' where s': "pallocs sys sblist 6 sz ?s2 = Inr (chunks 6 (?d + sz) sz, s')" "drained sz 6 ?s2 s'"
    and none: "pallocs sys sblist 7 sz ?s2 = Inl NullDeref"
    using o by (auto simp: numeral_eq_Suc)
  have "last_data s' = ?d + 20 * sz \<and> unat (last_size s') = unat (last_size s) - 20 * unat sz \<and>
      bin_free (smallbins s' ! ?i) = 0 \<and> bin_nums (smallbins s' ! ?i) = 13"
    using s'(2) i ls by (simp add: drained_def bin) (simp add: set_bin_def mult.commute)
  moreover have "pallocs sys sblist 7 sz s = Inr (chunks 7 ?d sz, s')" using st [of 6] s'(1) c7 by simp
  moreover have "pallocs sys sblist 8 sz s = Inl NullDeref" using st [of 7] none by simp
  ultimately show ?thesis using srt by blast
qed

lemma small_blocks_overcounted_witness:
  "(\<exists>s'. pallocs (\<lambda>_ _. 0) 4152 7 48 empty_pool = Inr (chunks 7 4264 48, s') \<and> last_data s' = 4264 + 960) \<and>
   sorted_wrt apart (chunks 7 4264 48) \<and> pallocs (\<lambda>_ _. 0) 4152 8 48 empty_pool = Inl NullDeref"
  using small_blocks_overcounted [of 48 empty_pool 4152 "\<lambda>_ _. 0"]
  by (simp add: empty_pool_def small_size_def TOTAL_BINS_def offset_smallbins_def SMALLBINS_IDX_def) blast

subsection \<open>What the other operations miss\<close>

text \<open>An alignment of zero, which \<open>create_stream_manager\<close> asks for, masks the address away.\<close>

lemma pmemalign_align_zero:
  "cmt_palloc sys sblist (pmem_total 0 sz) s = Inr (p1, s1) \<Longrightarrow> p1 \<noteq> 0 \<Longrightarrow>
   cmt_pmemalign sys sblist 0 sz s = Inl NullDeref"
  by (simp add: cmt_pmemalign_def write64_def bad_ptr_def)

text \<open>A new pool has its bins cleared and the control block it found.\<close>

lemma create_pool_control_block:
  "cmt_create_pool sys tid sz s = Inr (pool, s') \<Longrightarrow> pool \<noteq> 0 \<Longrightarrow>
   mp_size s' = mp_size s \<and> mp_remained s' = mp_remained s \<and> large_ctb s' = large_ctb s \<and>
   last_size s' = last_size s \<and> last_data s' = last_data s \<and> main_arenas s' = main_arenas s"
  by (auto simp: cmt_create_pool_def aligned_malloc_def sys_malloc_def write64_def Let_def
      split: if_splits prod.splits)

text \<open>The first arena cannot be added, so a pool that has none never gets one.\<close>

lemma first_arena_fails:
  "main_arenas s = 0 \<Longrightarrow> sys (sys_calls s) (sz + sizeof_arena) \<noteq> 0 \<Longrightarrow>
   create_non_main_arena sys sz s = Inl NullDeref"
  by (simp add: create_non_main_arena_def sys_malloc_def last_arena.simps)

text \<open>
  A small block that is freed into an empty bin is not counted: the next call for its size carves new blocks and
  drops the freed one from the bin.
\<close>

lemma freed_block_lost:
  assumes sz: "small_size sz" and s: "length (smallbins s) = TOTAL_BINS" "main_arenas s = 0"
    and p: "\<not> bad_ptr p" and empty: "bin_nums (smallbins s ! SMALLBINS_IDX sz) = 0"
  shows "\<exists>s'. cmt_pfree p sz s = Inr s' \<and> bin_free (smallbins s' ! SMALLBINS_IDX sz) = p \<and>
    bin_nums (smallbins s' ! SMALLBINS_IDX sz) = 0 \<and>
    (sz < ucast (last_size s) \<longrightarrow>
      cmt_palloc sys (pool_addr s + offset_smallbins) sz s' =
        andThen (block_alloc sz NUMBEROFADDEDNODE s') (\<lambda>(q, t). Inr (q, if q = 0 then t\<lparr>cmt_errno := Some ENONMEM\<rparr> else t)))"
proof -
  let ?i = "SMALLBINS_IDX sz"
  let ?s = "set_bin ?i ((smallbins s ! ?i)\<lparr>bin_free := p\<rparr>)
    (s\<lparr>mp_mem := store_word 8 p (bin_free (smallbins s ! ?i)) (mp_mem s)\<rparr>)"
  have i: "?i < length (smallbins s)" using small_size_simps(4) [OF sz] s(1) by (simp add: TOTAL_BINS_def)
  have f: "cmt_pfree p sz s = Inr ?s"
    using i p s(2) by (simp add: cmt_pfree_def small_size_simps(1,2) [OF sz] free_arenas.simps get_bin_def write64_def)
  have a: "cmt_palloc sys (pool_addr s + offset_smallbins) sz ?s =
      andThen (block_alloc sz NUMBEROFADDEDNODE ?s) (\<lambda>(q, t). Inr (q, if q = 0 then t\<lparr>cmt_errno := Some ENONMEM\<rparr> else t))"
    if "sz < ucast (last_size s)"
    using i empty that
    by (cases "block_alloc sz NUMBEROFADDEDNODE ?s")
      (auto simp: cmt_palloc_def small_size_simps(1,2) [OF sz] cmt_small_alloc_def get_bin_def refill_def set_bin_def)
  show ?thesis using f a i empty by (intro exI [of _ ?s]) (simp add: set_bin_def)
qed

end
