(* ===== verification/Sockets.thy ===== *)
theory Sockets
  imports Prelude "HOL-Library.Signed_Division"
begin

text \<open>
  The descriptor table and the socket map of \<open>src/socket.c\<close>.

  The table is the array \<open>open_fds\<close> of bytes, one bit for each descriptor; a \<open>char\<close> is signed, as it
  is on the x86-64 the code is written for. \<open>NTY_BITS_PER_BYTE\<close>, which is defined nowhere, is read as
  \<open>CMT_BITS_PER_BYTES\<close>, and \<open>startfds\<close>, which is declared as a number and used as an array of 64-bit
  words, as that array. In the functions on the socket map the names that are not declared are read as
  the variables next to them (\<open>dummy\<close> as the dummy node of the map, \<open>success\<close> as the result of the
  compare-and-swap, whose arguments are read as the addresses \<open>atomic.h\<close> asks for).
\<close>

subsection \<open>Descriptor bits\<close>

definition c_int :: "nat \<Rightarrow> int" where
  "c_int n = sint (word_of_nat n :: u32)"

text \<open>The byte and the bit of a descriptor; the byte's number is an \<open>int\<close>.\<close>

definition fd_byte :: "u64 \<Rightarrow> int" where
  "fd_byte idx = c_int (unat idx div 8)"

definition fd_mask :: "u64 \<Rightarrow> u8" where
  "fd_mask idx = push_bit (unat idx mod 8) 1"

definition set_byte :: "u8 list \<Rightarrow> int \<Rightarrow> (u8 \<Rightarrow> u8) \<Rightarrow> (u8 \<times> u8 list) res" where
  "set_byte fds i f =
     (if 0 \<le> i \<and> nat i < length fds
      then let v = f (fds ! nat i) in Inr (v, fds[nat i := v]) else Inl OutOfBounds)"

definition cmt_socket_use_id :: "u8 list \<Rightarrow> u64 \<Rightarrow> (u8 \<times> u8 list) res" where
  "cmt_socket_use_id fds idx = set_byte fds (fd_byte idx) (\<lambda>b. b OR fd_mask idx)"

definition cmt_socket_unuse_id :: "u8 list \<Rightarrow> u64 \<Rightarrow> (u8 \<times> u8 list) res" where
  "cmt_socket_unuse_id fds idx = set_byte fds (fd_byte idx) (\<lambda>b. b AND NOT (fd_mask idx))"

definition cmt_socket_set_start :: "u64 \<Rightarrow> int" where
  "cmt_socket_set_start idx = fd_byte idx"

subsection \<open>Looking for a free descriptor\<close>

text \<open>\<open>count_trailing_zeros\<close> is undefined for zero.\<close>

definition log2_first_set :: "u64 \<Rightarrow> nat res" where
  "log2_first_set x =
     (if x = 0 then Inl BadShift else Inr (length (takeWhile (\<lambda>i. \<not> bit x i) [0..<64])))"

definition load64 :: "u8 list \<Rightarrow> nat \<Rightarrow> u64" where
  "load64 fds a = foldr (\<lambda>k w. push_bit 8 w OR ucast (fds ! (a + k))) [0..<8] 0"

text \<open>
  The loop over whole words, of which \<open>n\<close> are left. It tests a byte of the table, number \<open>i\<close>, where the
  word number \<open>i\<close> was meant, and takes any byte that is not zero for a word with a clear bit.
\<close>

fun find_words :: "u8 list \<Rightarrow> nat \<Rightarrow> nat \<Rightarrow> nat \<Rightarrow> int option res" where
  "find_words fds start i 0 = Inr None"
| "find_words fds start i (Suc n) =
     (if length fds < start + 8 * i + 8 \<or> length fds \<le> i then Inl OutOfBounds
      else if fds ! i \<noteq> 0
      then andThen (log2_first_set (NOT (load64 fds (start + 8 * i)))) (\<lambda>j.
           Inr (Some (c_int (i * 64 + start * 8 + j))))
      else find_words fds start (Suc i) n)"

text \<open>The loop over the bytes after the last whole word, of which \<open>n\<close> are left.\<close>

fun skip_full :: "u8 list \<Rightarrow> nat \<Rightarrow> nat \<Rightarrow> nat res" where
  "skip_full fds i 0 = Inr i"
| "skip_full fds i (Suc n) =
     (if length fds \<le> i then Inl OutOfBounds
      else if fds ! i \<noteq> 0xFF then Inr i
      else skip_full fds (Suc i) n)"

text \<open>\<open>while (bytes % 2) { bytes /= 2; j++; }\<close> on a signed character.\<close>

function low_ones :: "int \<Rightarrow> nat" where
  "low_ones x = (if signed_modulo x 2 = 0 then 0 else Suc (low_ones (signed_divide x 2)))"
  by auto
termination
  by (relation "measure (\<lambda>x. nat \<bar>x\<bar>)")
    (auto simp: signed_divide_int_def signed_modulo_int_def abs_mult sgn_if split: if_splits)

declare low_ones.simps [simp del]

definition find_in_bytes :: "u8 list \<Rightarrow> nat \<Rightarrow> nat \<Rightarrow> int res" where
  "find_in_bytes fds i max_fds =
     (if i = max_fds then Inr (-1)
      else andThen (skip_full fds i (max_fds - i)) (\<lambda>i.
           if i = max_fds then Inr (-1)
           else if length fds \<le> i then Inl OutOfBounds
           else Inr (c_int (i * 8 + low_ones (sint (fds ! i))))))"

text \<open>A negative \<open>start\<close> makes the code read before the table.\<close>

definition cmt_socket_find_id :: "u8 list \<Rightarrow> u32 \<Rightarrow> u64 \<Rightarrow> int res" where
  "cmt_socket_find_id fds start max_fds =
     (if sint start < 0 then Inl OutOfBounds
      else let len = unat (max_fds - scast start) div 8
           in andThen (find_words fds (unat start) 0 len) (\<lambda>r.
              case r of Some fd \<Rightarrow> Inr fd
              | None \<Rightarrow> find_in_bytes fds (unat (word_of_nat len * 8 + scast start :: u64)) (unat max_fds)))"

subsection \<open>The table as a set of descriptors\<close>

definition used_ids :: "u8 list \<Rightarrow> nat set" where
  "used_ids fds = {n. n < 8 * length fds \<and> bit (fds ! (n div 8)) (n mod 8)}"

lemma c_int_small: "n < 2 ^ 31 \<Longrightarrow> c_int n = int n"
  by (simp add: c_int_def sint_small unat_of_nat)

lemma fd_byte_small: "unat idx < 2 ^ 34 \<Longrightarrow> fd_byte idx = int (unat idx div 8)"
  unfolding fd_byte_def by (rule c_int_small) (simp add: less_mult_imp_div_less)

lemma set_byte_used:
  assumes "n < 8 * length fds" and f: "\<And>b k. k < 8 \<Longrightarrow> bit (f b) k = (if k = n mod 8 then v else bit b k)"
  shows "used_ids (fds[n div 8 := f (fds ! (n div 8))]) = (if v then insert n (used_ids fds) else used_ids fds - {n})"
proof (rule set_eqI)
  fix m
  show "m \<in> used_ids (fds[n div 8 := f (fds ! (n div 8))]) \<longleftrightarrow>
    m \<in> (if v then insert n (used_ids fds) else used_ids fds - {n})"
  proof (cases "m div 8 = n div 8")
    case True
    then have "m mod 8 = n mod 8 \<longleftrightarrow> m = n" by (metis div_mult_mod_eq)
    then show ?thesis using True assms(1) by (auto simp: used_ids_def f nth_list_update less_mult_imp_div_less)
  next
    case False
    then have "m \<noteq> n" by auto
    with False show ?thesis by (auto simp: used_ids_def)
  qed
qed

text \<open>
  C22: The bits refine a set of descriptors: \<open>cmt_socket_use_id\<close> adds the descriptor to it and
  \<open>cmt_socket_unuse_id\<close> takes it out, for every descriptor of a table of less than \<open>2 ^ 31\<close> bytes, and
  the table keeps its length.
\<close>

theorem fd_bits_refine_set:
  assumes "unat idx < 8 * length fds" and "length fds < 2 ^ 31"
  shows "(\<exists>b fds'. cmt_socket_use_id fds idx = Inr (b, fds') \<and>
      used_ids fds' = insert (unat idx) (used_ids fds) \<and> length fds' = length fds) \<and>
    (\<exists>b fds'. cmt_socket_unuse_id fds idx = Inr (b, fds') \<and>
      used_ids fds' = used_ids fds - {unat idx} \<and> length fds' = length fds)"
proof -
  have i: "fd_byte idx = int (unat idx div 8)" using assms by (intro fd_byte_small) simp
  have l: "unat idx div 8 < length fds" using assms(1) by (simp add: less_mult_imp_div_less)
  have "bit (b OR fd_mask idx) k = (if k = unat idx mod 8 then True else bit b k)"
    "bit (b AND NOT (fd_mask idx)) k = (if k = unat idx mod 8 then False else bit b k)"
    if "k < 8" for b k using that by (auto simp: fd_mask_def bit_simps)
  note f = this
  show ?thesis
    using set_byte_used [OF assms(1), of "\<lambda>b. b OR fd_mask idx" True]
      set_byte_used [OF assms(1), of "\<lambda>b. b AND NOT (fd_mask idx)" False] f l
    by (simp add: cmt_socket_use_id_def cmt_socket_unuse_id_def set_byte_def i Let_def)
qed

lemma fd_bits_refine_set_witness:
  "(\<exists>b fds'. cmt_socket_use_id [1, 2] 10 = Inr (b, fds') \<and> used_ids fds' = insert 10 (used_ids [1, 2]) \<and>
      length fds' = length [1, 2 :: u8]) \<and>
   (\<exists>b fds'. cmt_socket_unuse_id [1, 2] 10 = Inr (b, fds') \<and> used_ids fds' = used_ids [1, 2] - {10} \<and>
      length fds' = length [1, 2 :: u8])"
  using fd_bits_refine_set [of 10 "[1, 2]"] by simp

subsection \<open>What the search finds\<close>

text \<open>
  On all 256 bytes: the loop counts the low bits that are set when the byte is even or below 128;
  otherwise the division of a negative number rounds the wrong way, and it stops at a bit that is set.
\<close>

definition clear_bit :: "u8 \<Rightarrow> nat" where
  "clear_bit b = length (takeWhile (\<lambda>k. bit b k) [0..<8])"

definition good_byte :: "u8 \<Rightarrow> bool" where
  "good_byte b \<longleftrightarrow> \<not> bit b 0 \<or> \<not> bit b 7"

lemma low_ones_bytes:
  "list_all (\<lambda>n. let b = word_of_nat n :: u8; j = low_ones (sint b); z = clear_bit b
     in b = 255 \<or> (z < 8 \<and> \<not> bit b z \<and> list_all (\<lambda>k. bit b k) [0..<z] \<and>
          (if good_byte b then j = z else j < 8 \<and> bit b j))) [0..<256]"
  by code_simp

lemma low_ones_byte:
  assumes "b \<noteq> 255"
  shows "clear_bit b < 8 \<and> \<not> bit b (clear_bit b) \<and> (\<forall>k < clear_bit b. bit b k) \<and>
    (if good_byte b then low_ones (sint b) = clear_bit b else low_ones (sint b) < 8 \<and> bit b (low_ones (sint b)))"
proof -
  have "unat b \<in> set [0..<256]" using unsigned_less [where ?'a = nat, of b] by simp
  from low_ones_bytes [unfolded list_all_iff, THEN bspec, OF this] show ?thesis
    using assms by (auto simp: Let_def list_all_iff)
qed

lemma bit_full_byte: "k < 8 \<Longrightarrow> bit (255 :: u8) k"
proof -
  have e: "(255 :: u8) = mask 8" by (simp add: mask_numeral)
  show "k < 8 \<Longrightarrow> bit (255 :: u8) k" unfolding e by (simp add: bit_simps)
qed

lemma skip_full_spec:
  "i + n \<le> length fds \<Longrightarrow> \<exists>i'. skip_full fds i n = Inr i' \<and> i \<le> i' \<and> i' \<le> i + n \<and>
    (\<forall>k. i \<le> k \<and> k < i' \<longrightarrow> fds ! k = 255) \<and> (i' < i + n \<longrightarrow> fds ! i' \<noteq> 255)"
proof (induction n arbitrary: i)
  case (Suc n)
  show ?case
  proof (cases "fds ! i = 255")
    case True
    then obtain i' where i': "skip_full fds (Suc i) n = Inr i'" "Suc i \<le> i'" "i' \<le> Suc i + n"
      "\<forall>k. Suc i \<le> k \<and> k < i' \<longrightarrow> fds ! k = 255" "i' < Suc i + n \<longrightarrow> fds ! i' \<noteq> 255"
      using Suc.IH [of "Suc i"] Suc.prems by auto
    have "\<forall>k. i \<le> k \<and> k < i' \<longrightarrow> fds ! k = 255"
      using i'(4) True by (metis Suc_leI le_neq_implies_less)
    then show ?thesis using i' True Suc.prems by auto
  next
    case False then show ?thesis using Suc.prems by auto
  qed
qed auto

definition free_ids :: "nat \<Rightarrow> u8 list \<Rightarrow> nat set" where
  "free_ids start fds = {n. 8 * start \<le> n \<and> n < 8 * length fds \<and> n \<notin> used_ids fds}"

text \<open>The descriptors that are free when the bytes from \<open>s\<close> to before \<open>i\<close> are full, and byte \<open>i\<close> is not.\<close>

lemma free_ids_none:
  assumes "\<forall>k. s \<le> k \<and> k < length fds \<longrightarrow> fds ! k = 255"
  shows "free_ids s fds = {}"
proof -
  have "n \<in> used_ids fds" if "8 * s \<le> n" "n < 8 * length fds" for n
  proof -
    have "s \<le> n div 8" "n div 8 < length fds" using that by presburger+
    then have "fds ! (n div 8) = 255" using assms by blast
    then show ?thesis using that(2) bit_full_byte [of "n mod 8"] by (simp add: used_ids_def)
  qed
  then show ?thesis by (auto simp: free_ids_def)
qed

lemma free_ids_Min:
  assumes i: "s \<le> i" "i < length fds" "\<forall>k. s \<le> k \<and> k < i \<longrightarrow> fds ! k = 255"
    and z: "z < 8" "\<not> bit (fds ! i) z" "\<forall>k < z. bit (fds ! i) k"
  shows "8 * i + z \<in> free_ids s fds \<and> Min (free_ids s fds) = 8 * i + z"
proof -
  have m: "8 * i + z \<in> free_ids s fds" using i z by (simp add: free_ids_def used_ids_def)
  have "8 * i + z \<le> n" if n: "n \<in> free_ids s fds" for n
  proof (rule ccontr)
    assume "\<not> 8 * i + z \<le> n"
    then have lt: "n < 8 * i + z" by simp
    have "n div 8 < Suc i" by (rule less_mult_imp_div_less) (use lt z(1) in simp)
    moreover have "n mod 8 < z" if "n div 8 = i" using mult_div_mod_eq [of 8 n] lt unfolding that by linarith
    ultimately have "n div 8 < i \<or> n div 8 = i \<and> n mod 8 < z" by linarith
    moreover have "s \<le> n div 8" "n < 8 * length fds" "\<not> bit (fds ! (n div 8)) (n mod 8)"
      using n by (auto simp: free_ids_def used_ids_def)
    ultimately show False using i(3) z(3) bit_full_byte [of "n mod 8"] by auto
  qed
  moreover have "finite (free_ids s fds)" by (simp add: free_ids_def)
  ultimately show ?thesis using m by (auto intro: Min_eqI)
qed

lemma scast_small: "unat (w :: u32) < 2 ^ 31 \<Longrightarrow> unat (scast w :: u64) = unat w"
  unfolding scast_eq sint_small by (simp add: unat_of_nat)

text \<open>
  When fewer than eight bytes of a table are left to search, \<open>cmt_socket_find_id\<close> returns -1 exactly
  if all their descriptors are in use. If not, it returns the first free one provided the byte of
  that one is even or below 128; for the other bytes it returns a descriptor that is in use.
\<close>

theorem find_id_last_bytes:
  assumes "length fds < 2 ^ 28" and "unat start \<le> length fds" and "length fds < unat start + 8"
  shows "if free_ids (unat start) fds = {}
    then cmt_socket_find_id fds start (word_of_nat (length fds)) = Inr (-1)
    else let n = Min (free_ids (unat start) fds)
         in if good_byte (fds ! (n div 8))
            then cmt_socket_find_id fds start (word_of_nat (length fds)) = Inr (int n)
            else \<exists>m \<in> used_ids fds. cmt_socket_find_id fds start (word_of_nat (length fds)) = Inr (int m)"
proof -
  let ?s = "unat start" and ?max = "word_of_nat (length fds) :: u64"
  have max: "unat ?max = length fds" using assms(1) by (simp add: unat_of_nat)
  have s31: "?s < 2 ^ 31" using assms(1,2) by simp
  then have sc: "unat (scast start :: u64) = ?s" by (rule scast_small)
  have "unat (?max - scast start) = length fds - ?s" using assms(2) max sc by (simp add: unat_sub_eq)
  then have len: "unat (?max - scast start) div 8 = 0" using assms(3) by simp
  have s0: "\<not> sint start < 0" using sint_small [of start] s31 by simp
  have f: "cmt_socket_find_id fds start ?max = find_in_bytes fds ?s (length fds)"
    unfolding cmt_socket_find_id_def len using s0 max sc by simp
  obtain i where i: "skip_full fds ?s (length fds - ?s) = Inr i" "?s \<le> i" "i \<le> length fds"
    "\<forall>k. ?s \<le> k \<and> k < i \<longrightarrow> fds ! k = 255" "i < length fds \<longrightarrow> fds ! i \<noteq> 255"
    using skip_full_spec [of ?s "length fds - ?s" fds] assms(2) by auto
  show ?thesis
  proof (cases "i = length fds")
    case True
    then show ?thesis using i free_ids_none [of ?s fds] unfolding f find_in_bytes_def by simp
  next
    case False
    then have il: "i < length fds" using i(3) by simp
    let ?b = "fds ! i"
    have b: "clear_bit ?b < 8" "\<not> bit ?b (clear_bit ?b)" "\<forall>k < clear_bit ?b. bit ?b k"
      "if good_byte ?b then low_ones (sint ?b) = clear_bit ?b
       else low_ones (sint ?b) < 8 \<and> bit ?b (low_ones (sint ?b))"
      using low_ones_byte [of ?b] i(5) il by auto
    have n: "8 * i + clear_bit ?b \<in> free_ids ?s fds" "Min (free_ids ?s fds) = 8 * i + clear_bit ?b"
      using free_ids_Min [OF i(2) il i(4) b(1-3)] by auto
    have lo: "low_ones (sint ?b) < 8" using b(1,4) by (simp split: if_splits)
    have "find_in_bytes fds ?s (length fds) = Inr (c_int (i * 8 + low_ones (sint ?b)))"
      using i(1,2) il by (simp add: find_in_bytes_def)
    also have "c_int (i * 8 + low_ones (sint ?b)) = int (8 * i + low_ones (sint ?b))"
      using lo il assms(1) by (subst c_int_small) simp_all
    finally have r: "find_in_bytes fds ?s (length fds) = Inr (int (8 * i + low_ones (sint ?b)))" .
    have u: "8 * i + low_ones (sint ?b) \<in> used_ids fds" if "\<not> good_byte ?b"
      using b(4) lo il that by (simp add: used_ids_def)
    then have e: "\<exists>m \<in> used_ids fds. Inr (int (8 * i + low_ones (sint ?b))) = (Inr (int m) :: int res)"
      if "\<not> good_byte ?b" using that by blast
    have d: "(8 * i + clear_bit ?b) div 8 = i" using b(1) by simp
    show ?thesis using n(1) b(4) e unfolding f r n(2) Let_def d by auto
  qed
qed

lemma free_ids_list:
  "free_ids s fds = set (filter (\<lambda>n. \<not> bit (fds ! (n div 8)) (n mod 8)) [8 * s..<8 * length fds])"
  by (auto simp: free_ids_def used_ids_def)

lemma find_id_last_bytes_witness:
  "cmt_socket_find_id [255, 103] 0 2 = Inr 11 \<and> cmt_socket_find_id [255, 255] 0 2 = Inr (-1) \<and>
   (\<exists>m \<in> used_ids [255, 253]. cmt_socket_find_id [255, 253] 0 2 = Inr (int m))"
proof -
  have f: "free_ids 0 [255, 103] = {11, 12, 15}" "free_ids 0 [255, 255] = {}" "free_ids 0 [255, 253] = {9}"
    unfolding free_ids_list by code_simp+
  have g: "good_byte 103" "\<not> good_byte 253" by (simp_all add: good_byte_def)
  show ?thesis
    using find_id_last_bytes [of "[255, 103]" 0] find_id_last_bytes [of "[255, 255]" 0]
      find_id_last_bytes [of "[255, 253]" 0] by (simp add: f g Let_def)
qed

subsection \<open>The descriptor table\<close>

text \<open>
  \<open>fd_bytes\<close> is the memory at \<open>open_fds\<close>. The answers of the three allocations are the arguments \<open>t\<close>, \<open>s\<close> and
  \<open>o\<close>; with the table, or without, come the blocks that are given back, with their sizes.
\<close>

record socket_table =
  max_fds :: u64
  cur_idx :: u32
  sockfds :: u64
  open_fds :: u64
  fd_bytes :: "u8 list"

definition CMT_SOCKFD_NR :: nat where "CMT_SOCKFD_NR = 1024 * 1024"
definition sizeof_socket_table :: nat where "sizeof_socket_table = 32"

definition fdtable_bytes :: nat where
  "fdtable_bytes = (if CMT_SOCKFD_NR mod 8 \<noteq> 0 then CMT_SOCKFD_NR div 8 + 1 else CMT_SOCKFD_NR div 8)"

definition cmt_socket_allocate_fdtable ::
  "u64 \<Rightarrow> u64 \<Rightarrow> u64 \<Rightarrow> socket_table option \<times> (u64 \<times> nat) list" where
  "cmt_socket_allocate_fdtable t sp op =
     (if t = 0 then (None, [])
      else if sp = 0 then (None, [(t, sizeof_socket_table)])
      else if op = 0 then (None, [(sp, 8 * CMT_SOCKFD_NR), (t, sizeof_socket_table)])
      else (Some \<lparr>max_fds = word_of_nat fdtable_bytes, cur_idx = 0, sockfds = sp, open_fds = op,
                  fd_bytes = replicate fdtable_bytes 0\<rparr>, []))"

definition cmt_socket_free_fdtable :: "u64 \<Rightarrow> socket_table \<Rightarrow> (u64 \<times> nat) list" where
  "cmt_socket_free_fdtable t fdtable =
     [(open_fds fdtable, unat (max_fds fdtable)), (sockfds fdtable, 8 * CMT_SOCKFD_NR), (t, sizeof_socket_table)]"

definition cmt_socket_init_fdtable ::
  "u64 \<Rightarrow> u64 \<Rightarrow> u64 \<Rightarrow> socket_table option \<times> (u64 \<times> nat) list" where
  "cmt_socket_init_fdtable = cmt_socket_allocate_fdtable"

lemma fdtable_released:
  "t \<noteq> 0 \<Longrightarrow> sp \<noteq> 0 \<Longrightarrow> op \<noteq> 0 \<Longrightarrow>
   map_option (cmt_socket_free_fdtable t) (fst (cmt_socket_allocate_fdtable t sp op)) =
     Some [(op, 131072), (sp, 8388608), (t, 32)]"
  by (simp add: cmt_socket_allocate_fdtable_def cmt_socket_free_fdtable_def fdtable_bytes_def
      CMT_SOCKFD_NR_def sizeof_socket_table_def)

lemma find_words_zero:
  "i + n \<le> k \<Longrightarrow> start + 8 * (i + n) \<le> k \<Longrightarrow> find_words (replicate k 0) start i n = Inr None"
  by (induction n arbitrary: i) auto

text \<open>A table of whole words in which every descriptor is free looks full to the search.\<close>

lemma find_id_zero_words:
  assumes "8 * k < 2 ^ 28"
  shows "cmt_socket_find_id (replicate (8 * k) 0) 0 (word_of_nat (8 * k)) = Inr (-1)"
proof -
  have m: "unat (word_of_nat (8 * k) :: u64) = 8 * k" using assms by (simp only: unat_of_nat) simp
  have len: "unat (word_of_nat (8 * k) - scast (0 :: u32) :: u64) div 8 = k" using m by simp
  have "find_words (replicate (8 * k) 0) 0 0 k = Inr None" by (rule find_words_zero) simp_all
  moreover have "unat (word_of_nat k * 8 + scast (0 :: u32) :: u64) = 8 * k"
    using m by (simp add: mult.commute)
  ultimately show ?thesis unfolding cmt_socket_find_id_def len using m by (simp add: find_in_bytes_def)
qed

text \<open>
  In the table that \<open>cmt_socket_allocate_fdtable\<close> makes, all 1048576 descriptors are free, and
  \<open>cmt_socket_find_id\<close> answers that there is none: no descriptor is ever handed out.
\<close>

theorem new_fdtable_looks_full:
  assumes "t \<noteq> 0" and "sp \<noteq> 0" and "op \<noteq> 0"
  shows "\<exists>tab. cmt_socket_allocate_fdtable t sp op = (Some tab, []) \<and>
    free_ids 0 (fd_bytes tab) = {..<1048576} \<and>
    cmt_socket_find_id (fd_bytes tab) (cur_idx tab) (max_fds tab) = Inr (-1)"
proof -
  have b: "fdtable_bytes = 8 * 16384" by (simp add: fdtable_bytes_def CMT_SOCKFD_NR_def)
  have "free_ids 0 (replicate (8 * 16384) 0) = {..<1048576}"
    by (auto simp: free_ids_def used_ids_def less_mult_imp_div_less)
  moreover have "cmt_socket_find_id (replicate (8 * 16384) 0) 0 (word_of_nat (8 * 16384)) = Inr (-1)"
    by (rule find_id_zero_words) simp
  ultimately show ?thesis using assms by (simp add: cmt_socket_allocate_fdtable_def b)
qed

lemma new_fdtable_looks_full_witness:
  "\<exists>tab. cmt_socket_allocate_fdtable 4096 8192 16384 = (Some tab, []) \<and>
    free_ids 0 (fd_bytes tab) = {..<1048576} \<and>
    cmt_socket_find_id (fd_bytes tab) (cur_idx tab) (max_fds tab) = Inr (-1)"
  by (rule new_fdtable_looks_full) simp_all

subsection \<open>The socket map\<close>

text \<open>
  A socket is a number, its place in \<open>sock_map\<close>. \<open>free_smap_link\<close> of the dummy node is \<open>smap_head\<close>.
  \<open>CASra\<close> is a compiler builtin and a parameter: from the current, the expected and the new link it gives
  whether it stored the new one, and what the link is now; it returns 1 for success. \<open>link_cas\<close> is the
  builtin when no other thread runs.
\<close>

type_synonym linkcas = "nat option \<Rightarrow> nat option \<Rightarrow> nat option \<Rightarrow> bool \<times> nat option"

definition link_cas :: linkcas where
  "link_cas current expected new = (if current = expected then (True, new) else (False, current))"

record socket_map =
  free_smap_link :: "nat option"
  socket_type :: u32
  sock_opts :: u32
  sock_addr :: "u16 \<times> u16 \<times> u32"
  sock_stream :: "nat option"
  sock_epoll :: u32
  sock_events :: u32
  ep_data :: u64

record socket_maps =
  smap_head :: "nat option"
  sock_map :: "nat \<Rightarrow> socket_map"

definition CMT_TCP_SOCK_UNUSED :: u32 where "CMT_TCP_SOCK_UNUSED = 0"
definition CMT_MAX_CONCURRENCY :: int where "CMT_MAX_CONCURRENCY = 1024"

text \<open>
  The \<open>do ... while (success != 0)\<close> loops go on while the compare-and-swap succeeds. A failed one has
  left what it found in \<open>socket\<close> or \<open>old\<close>. The inner \<open>None\<close> is the early return of \<open>NULL\<close>.
\<close>

partial_function (option) take_free ::
  "linkcas \<Rightarrow> socket_maps \<Rightarrow> (nat option option \<times> socket_maps) option" where
  "take_free CASra m =
     (case smap_head m of
        None \<Rightarrow> Some (None, m)
      | Some s \<Rightarrow>
          (let (success, current) = CASra (smap_head m) (Some s) (free_smap_link (sock_map m s));
               m = m\<lparr>smap_head := current\<rparr>
           in if success then take_free CASra m else Some (Some current, m)))"

definition cmt_allocate_socket :: "linkcas \<Rightarrow> u32 \<Rightarrow> socket_maps \<Rightarrow> (nat option \<times> socket_maps) res" where
  "cmt_allocate_socket CASra socktype m =
     andThen (with_fuel (map_option Inr (take_free CASra m))) (\<lambda>(r, m).
     case r of
       None \<Rightarrow> Inr (None, m)
     | Some None \<Rightarrow> Inl NullDeref
     | Some (Some s) \<Rightarrow>
         Inr (Some s, m\<lparr>sock_map := (sock_map m)(s := (sock_map m s)
           \<lparr>socket_type := socktype, sock_opts := 0, sock_stream := None, sock_epoll := 0, sock_events := 0,
            sock_addr := (0, 0, 0), ep_data := 0\<rparr>)\<rparr>))"

partial_function (option) put_free :: "linkcas \<Rightarrow> nat \<Rightarrow> socket_maps \<Rightarrow> socket_maps option" where
  "put_free CASra s m =
     (let old = smap_head m;
          m = m\<lparr>sock_map := (sock_map m)(s := (sock_map m s)\<lparr>free_smap_link := old\<rparr>)\<rparr>;
          (success, current) = CASra (smap_head m) old (Some s);
          m = m\<lparr>smap_head := current\<rparr>
      in if success then put_free CASra s m else Some m)"

definition cmt_socket_free :: "linkcas \<Rightarrow> nat \<Rightarrow> socket_maps \<Rightarrow> socket_maps res" where
  "cmt_socket_free CASra s m =
     (if socket_type (sock_map m s) = CMT_TCP_SOCK_UNUSED then Inr m
      else with_fuel (map_option Inr (put_free CASra s (m\<lparr>sock_map := (sock_map m)(s := (sock_map m s)
        \<lparr>socket_type := CMT_TCP_SOCK_UNUSED, sock_epoll := 0, sock_events := 0\<rparr>)\<rparr>))))"

text \<open>\<open>cmt_get_socket\<close>: \<open>None\<close> is \<open>NULL\<close> with \<open>EBADF\<close>.\<close>

definition cmt_get_socket :: "int \<Rightarrow> nat option" where
  "cmt_get_socket sockid =
     (if sockid < 0 \<or> sockid > CMT_MAX_CONCURRENCY then None else Some (nat sockid))"

text \<open>The sockets \<open>ss\<close> are linked from \<open>l\<close>.\<close>

fun free_chain :: "socket_maps \<Rightarrow> nat option \<Rightarrow> nat list \<Rightarrow> bool" where
  "free_chain m l [] \<longleftrightarrow> l = None"
| "free_chain m l (s # ss) \<longleftrightarrow> l = Some s \<and> free_chain m (free_smap_link (sock_map m s)) ss"

lemma free_chain_head [simp]: "free_chain (m\<lparr>smap_head := h\<rparr>) l ss = free_chain m l ss"
  by (induction ss arbitrary: l) auto

lemma take_free_empties:
  "free_chain m (smap_head m) ss \<Longrightarrow> take_free link_cas m = Some (None, m\<lparr>smap_head := None\<rparr>)"
proof (induction ss arbitrary: m)
  case Nil then show ?case by (subst take_free.simps) simp
next
  case (Cons s ss)
  let ?m = "m\<lparr>smap_head := free_smap_link (sock_map m s)\<rparr>"
  have "take_free link_cas m = take_free link_cas ?m"
    using Cons.prems by (subst take_free.simps) (simp add: link_cas_def)
  also have "\<dots> = Some (None, ?m\<lparr>smap_head := None\<rparr>)" by (rule Cons.IH) (use Cons.prems in simp)
  finally show ?case by simp
qed

lemma put_free_never: "put_free link_cas s m = None"
proof -
  have "c \<noteq> link_cas" if p: "put_free c s m = Some m'" for c s m m'
  proof (rule put_free.raw_induct [where P = "\<lambda>c s m m'. c \<noteq> link_cas", OF _ p])
    fix pf c s m m'
    assume IH: "\<And>c s m m'. pf c s m = Some m' \<Longrightarrow> c \<noteq> link_cas"
      and step: "(let old = smap_head m; m = m\<lparr>sock_map := (sock_map m)(s := (sock_map m s)\<lparr>free_smap_link := old\<rparr>)\<rparr>;
          (success, current) = c (smap_head m) old (Some s); m = m\<lparr>smap_head := current\<rparr>
        in if success then pf c s m else Some m) = Some m'"
    show "c \<noteq> link_cas"
    proof
      assume c: "c = link_cas"
      then show False using step IH by (simp add: link_cas_def Let_def) blast
    qed
  qed
  then show ?thesis by (cases "put_free link_cas s m") auto
qed

text \<open>
  C39: Without another thread in the way the two loops on the list of free sockets run the wrong way
  round. \<open>cmt_allocate_socket\<close> takes every socket off the list and returns \<open>NULL\<close>, however many are
  free, and \<open>cmt_socket_free\<close> of a socket in use never returns.
\<close>

theorem socket_calls_never_succeed:
  assumes "free_chain m (smap_head m) ss" and "socket_type (sock_map m s) \<noteq> CMT_TCP_SOCK_UNUSED"
  shows "cmt_allocate_socket link_cas socktype m = Inr (None, m\<lparr>smap_head := None\<rparr>) \<and>
    cmt_socket_free link_cas s m = Inl NoReturn"
  using take_free_empties [OF assms(1)] assms(2)
  by (simp add: cmt_allocate_socket_def cmt_socket_free_def put_free_never)

definition two_sockets :: socket_maps where
  "two_sockets = \<lparr>smap_head = Some 4, sock_map = (\<lambda>i. \<lparr>free_smap_link = (if i = 4 then Some 7 else None),
     socket_type = (if i = 9 then 1 else 0), sock_opts = 0, sock_addr = (0, 0, 0), sock_stream = None,
     sock_epoll = 0, sock_events = 0, ep_data = 0\<rparr>)\<rparr>"

lemma socket_calls_never_succeed_witness:
  "cmt_allocate_socket link_cas 1 two_sockets = Inr (None, two_sockets\<lparr>smap_head := None\<rparr>) \<and>
   cmt_socket_free link_cas 9 two_sockets = Inl NoReturn"
  by (rule socket_calls_never_succeed [of _ "[4, 7]"]) (simp_all add: two_sockets_def CMT_TCP_SOCK_UNUSED_def)

text \<open>
  With another thread that changes the list between the read and the compare-and-swap, the call
  returns the first socket of the other thread's list, which stays on it.
\<close>

lemma allocate_after_interference:
  "smap_head m = Some s \<Longrightarrow>
   \<exists>m'. cmt_allocate_socket (\<lambda>current expected new. (False, Some s')) socktype m = Inr (Some s', m') \<and>
     smap_head m' = Some s'"
  by (simp add: cmt_allocate_socket_def take_free.simps)

end
