(* ===== verification/Spec2Isabelle.thy ===== *)
theory Spec2Isabelle
  imports Checksum Timer_Checks Tcp_Options Tcp_Packets Recv_Tcp Ring_Threads Addr_Pool Ip Queue_Lists
    Stream_Manager Recv_Manager Memory_Pool Sockets
begin

text \<open>
  A verification development for cmtTCP, a user-space TCP/IP stack in C. File names below are
  relative to the directory \<open>src\<close> of the repository; functions keep their C names.

  \<^bold>\<open>The program.\<close> Working threads read frames from an I/O module, process Ethernet, IP, ARP and
  ICMP, and pass TCP segments over rings of pointers to the threads that run TCP. A TCP thread
  owns a manager (\<open>cmttcp_manager_per_cpu_t\<close>): the table of flows, the table of listeners, the
  lists of streams that have something to send, the retransmission, time-wait and timeout lists,
  and the pool of source addresses. A segment is looked up in the flow table; a new flow goes to
  a listener and, after the handshake, into its accept queue, where the application finds it.
  Timers walk the lists of the manager. Nothing in the repository calls these parts: there is no
  main loop, and several sources do not compile. The model gives such code the meaning its
  statements have, and names every place where it had to choose.

  \<^bold>\<open>Theories and sources.\<close>
  \<^item> \<open>Prelude\<close>: machine integers, byte order, the result type \<open>res\<close> of operations that can abort
    the process or leave defined behaviour. \<open>Fifo\<close>: the contract of bounded first-in first-out
    buffers (locale \<open>bounded_fifo\<close>, and \<open>serving_fifo\<close> for buffers that hand out the stored objects)
    and cyclic slices of arrays. \<open>Resource_Pool\<close>: the contract of pools that lend resources and may
    obtain new ones (locale \<open>growing_pool\<close>). \<open>Global\<close>: the bit helpers of \<open>include/global.h\<close>.
  \<^item> \<open>Tcp_Seq\<close>: sequence number comparisons of \<open>include/tcp.h\<close> and \<open>src/tcp_buffer.c\<close>.
  \<^item> \<open>Send_Buffer\<close>, \<open>Stream_Queue\<close>: send buffer and accept queue of \<open>src/tcp_buffer.c\<close>,
    interpretations of \<open>bounded_fifo\<close> and \<open>serving_fifo\<close>. \<open>Stream_Hash\<close>: \<open>src/tcp_stream_hash.c\<close>,
    buckets as lists.
  \<^item> \<open>Tcp_Types\<close>: streams and managers (\<open>include/tcp.h\<close>, \<open>include/tcp_stream.h\<close>,
    \<open>include/cmtTCP.h\<close>). Streams are identified by numbers; every intrusive list of the C code is
    a list of such numbers in the manager, and the flags and counters that duplicate it are fields.
  \<^item> \<open>Sender_Lists\<close>: control, send and acknowledgement lists of \<open>src/tcp.c\<close>. \<open>Timer\<close>: the lists of
    \<open>src/timer.c\<close> and \<open>handle_rto\<close>; \<open>Timer_Checks\<close>: the three periodic checks.
  \<^item> \<open>Tcp_Options\<close>: writing and parsing of options (\<open>src/tcp.c\<close>). \<open>Checksum\<close>: the Internet
    checksums of \<open>src/tcp.c\<close> and \<open>src/icmp.c\<close>.
  \<^item> \<open>Tcp_Ack\<close>, \<open>Tcp_Ack_Facts\<close>: \<open>cmt_tcp_process_ack\<close> and the round-trip estimation, and what they
    compute. \<open>Tcp_Handlers\<close>: creation of streams, listeners, the sequence check, one function per
    state. \<open>Tcp_Invariant\<close>: the invariant of a manager and the locales \<open>mgr_step\<close> and
    \<open>mgr_closed\<close> of what keeps it. \<open>Tcp_Process\<close>: every handler keeps it, and the cases of
    \<open>cmt_tcp_process\<close>. \<open>Tcp_Handshake\<close>, \<open>Tcp_Transitions\<close>, \<open>Tcp_Packets\<close>: the properties of whole
    segments, the transitions as the inductive relation \<open>segment_edge\<close>.
  \<^item> \<open>Recv_Buffer\<close>: the receive buffer of \<open>src/tcp_buffer.c\<close>, its fragments and its data pointers in two
    stores, and the ranges of bytes they stand for. \<open>Recv_Tcp\<close>: what TCP acknowledges with this buffer.
  \<^item> \<open>Queue_Lists\<close>: the lists and queues of \<open>include/queue.h\<close> at the level of pointers, four
    interpretations of the locales \<open>linked_list\<close> and \<open>linked_queue\<close> on one store of links.
  \<^item> \<open>Memory_Pool\<close>: the allocator of \<open>src/cmt_memory_pool.c\<close> over a memory of bytes. \<open>Object_Pool\<close>:
    \<open>src/object_pool.c\<close>; \<open>Stream_Manager\<close> and \<open>Recv_Manager\<close>: its users in \<open>src/tcp_buffer.c\<close>. The object
    pool and the stream manager are interpretations of \<open>growing_pool\<close>.
  \<^item> \<open>Sockets\<close>: descriptor table and socket map of \<open>src/socket.c\<close>.
  \<^item> \<open>Ring\<close>: the packet ring (\<open>include/ring.h\<close>, \<open>src/ring.c\<close>), its memory a list of 32-bit words, an
    interpretation of \<open>serving_fifo\<close>. \<open>Ring_Threads\<close>: several producers and one consumer of it, one step
    for each access to the shared ring, in any interleaving. \<open>Rss\<close>: the hash of receive side scaling (\<open>src/rss.c\<close>).
    \<open>Addr_Pool\<close>: source addresses (\<open>src/addr_pool.c\<close>), its structures in a memory of words because
    the code lays links over addresses and list heads over each other.
  \<^item> \<open>Arp\<close>: \<open>src/arp.c\<close> and Ethernet output. \<open>Ip\<close>: \<open>src/ip.c\<close>, \<open>src/icmp.c\<close> and the dispatch of
    received frames in \<open>src/eth.c\<close>.

  \<^bold>\<open>What the lemmas show.\<close> For TCP: every segment and every timer keeps the invariant of the
  manager (lists without duplicates that agree with flags, counters and states), touches only
  its own flow, moves a stream only along the edges of \<open>segment_edge\<close>, and only a completed
  handshake makes a connection; what acknowledgements release, retransmissions send and timers
  close is computed exactly. Buffers, queues and rings are FIFO refinements of a list, the linked lists refine lists and the
  descriptor bits a set; the receive buffer refines a list of ranges. The ring also keeps the order of
  reservations under concurrent producers, except after one that found it full. Pools lend an object to one
  holder at a time, aligned blocks lie inside the blocks they are cut from and go back whole. Parsers
  and printers of options, headers and checksums are inverse to each other. The periodic checks
  terminate; the option parser terminates on options whose length is not zero, and does not on
  others. The Toeplitz hash and the unrolled copies equal their definitions. An echo request is
  answered through ARP table, routing table and Ethernet.

  Where the code does something other than it means to, the theorem states what it does:
  retransmission timers that stop advancing, growth of the congestion window, options skipped
  after padding, single-producer rings that accept nothing, blocks written behind the ring,
  routes chosen by position, requests that are never sent, bytes acknowledged that never arrived,
  pools of objects and of addresses that are never made, bins that count more blocks than they have, a descriptor table that
  looks full when it is empty, sockets that are never handed out, a ring that hangs after a
  producer has found it full.

  \<^bold>\<open>Bounds and fuel.\<close> Integers have the width of the C types; \<open>unat\<close>, \<open>uint\<close> and \<open>sint\<close> read them.
  The reservations of the ring retry until their compare and swap succeeds and are partial
  functions into option: \<open>None\<close> is a call that does not return. Loops over lists and over blocks have
  termination proofs. The option parser takes one unit of fuel for each option and \<open>None\<close> is fuel
  used up; the length of the options plus one is enough when no option has length zero
  (\<open>parse_options_terminates\<close>), no fuel is otherwise (\<open>parse_options_diverges\<close>). In the handlers the
  fuel is the field \<open>e_fuel\<close> of the environment and running out of it is the error \<open>NoReturn\<close>. The
  search of retransmission slots takes one unit for each time unit to catch up and two more, which
  \<open>check_rtm_timeout_terminates\<close> proves to be enough. The number of
  entries of an address pool is not bounded to 32 bits; the model is the code for up to 33,288
  addresses.

  \<^bold>\<open>Parameters.\<close> Code that is not in the repository is an argument of what uses it: \<open>NextIndex\<close>,
  \<open>malloc\<close> and \<open>calloc\<close>, the buffers, ioctls and checksum routine of the I/O module, compare and swap,
  \<open>process_TCP_packet\<close>, and a few constants. The components above the memory pool take its answers as
  an argument too, with the contract its header documents (\<open>fresh_blocks\<close>): a small allocation of the
  code itself reads a pointer it never sets, so it promises nothing. What a variable holds that is
  read and never assigned, or what a name stands for that is declared nowhere, is an argument as
  well: the chain \<open>e_head\<close> that \<open>stream_ht_search\<close> walks, the length and the field \<open>next_seq\<close> that
  \<open>merge_fragments\<close> reads (\<open>undeclared\<close>), the byte \<open>junk\<close> of an ICMP checksum, one for each call.
  What is assumed of parameters is a hypothesis with a name, and each has a witness that a concrete
  function satisfies it: \<open>next_index\<close> (\<open>NextIndex\<close> advances in a cycle), \<open>csum_ok\<close> (the checksum
  of a header makes it verify), \<open>fresh_blocks\<close> (blocks of the memory pool are apart), \<open>calloced\<close>
  (what \<open>calloc\<close> promises), and \<open>fresh_streams\<close>: the objects the pools give to a new connection are
  not on any list of the manager and carry no list flag. The code does not clear these flags, so
  this one is needed, and only used where a packet opens a connection.

  \<^bold>\<open>Not modelled.\<close> The handler of CLOSE_WAIT, \<open>cmt_tcp_handle_close_wait\<close>, which is called and not in
  the repository: it is the parameter \<open>e_close_wait\<close>, of which nothing is assumed, and the theorems
  on whole segments leave out streams in that state. \<open>stream_ht_remove\<close>, which unlinks through a
  member streams do not have. The interleaving of threads outside the ring (the ARP table and the socket map are
  modelled for one caller at a time; locks have no effect on one caller), and memory weaker than one
  order of all accesses; the compare and swap of the ring and of the socket map is given values where
  it takes addresses, and is read as comparing with these values;
  \<open>include/vec.h\<close>, whose macros do not expand to C and which nothing uses; the compiler builtins and
  inline assembly of \<open>include/atomic.h\<close>; logging, CPU affinity and declarations without bodies.
\<close>

end
